(* ===== verification/Prelude.thy ===== *)
theory Prelude
  imports Complex_Main "HOL-Library.AList" "HOL-Library.Multiset"
    "HOL-Library.List_Lexorder" "HOL-Library.Char_ord"
begin

text \<open>
  Shared ground of the development.

  \<^item> Conventions. Python's unbounded \<open>int\<close> is \<^typ>\<open>int\<close>. A Python \<open>float\<close> (an epoch, a duration, a
    percentage) is a \<^typ>\<open>rat\<close>: every finite double is a rational and comparisons agree, but the
    rounding of a sum, difference or product is not modelled. \<open>None\<close> is \<^term>\<open>None\<close>.
  \<^item> A Python \<open>dict\<close> whose iteration order matters is an association list updated by
    \<^const>\<open>AList.update\<close>, which overwrites in place or appends, as Python's insertion-ordered dicts do.
  \<^item> Paths and names are strings; a path is read through \<open>path_parts\<close>, \<open>parent_dir\<close> and \<open>base_name\<close>.
  \<^item> The file system is a record \<open>fs\<close>: the files with size and mtime, the directories, and two
    predicates that say on which paths the operating system refuses an unlink or a stat.
  \<^item> Collections of lemmas: \<open>inv_intros\<close> (operations preserve invariants) and \<open>frame_simps\<close>
    (what an operation leaves unchanged).
\<close>

named_theorems inv_intros
named_theorems frame_simps

type_synonym epoch = rat
type_synonym path = string
type_synonym ('k, 'v) dict = "('k \<times> 'v) list"

abbreviation dict_keys :: "('k, 'v) dict \<Rightarrow> 'k list" where
  "dict_keys d \<equiv> map fst d"

subsection \<open>Python numbers\<close>

definition py_int :: "rat \<Rightarrow> int" where
  \<comment> \<open>\<open>int(x)\<close> on a float truncates towards zero.\<close>
  "py_int x = (if x < 0 then \<lceil>x\<rceil> else \<lfloor>x\<rfloor>)"

lemma py_int_of_int [simp]: "py_int (of_int n) = n"
  by (simp add: py_int_def)

lemma py_int_nonneg: "0 \<le> x \<Longrightarrow> 0 \<le> py_int x"
  by (simp add: py_int_def)

lemma py_int_le: "0 \<le> x \<Longrightarrow> of_int (py_int x) \<le> x"
  by (simp add: py_int_def of_int_floor_le)

lemma py_int_gt: "0 \<le> x \<Longrightarrow> x < of_int (py_int x) + 1"
  using floor_correct [of x] by (simp add: py_int_def)

definition round_half_even :: "rat \<Rightarrow> int" where
  \<comment> \<open>Python's \<open>round(x)\<close>\<close>
  "round_half_even x =
     (let f = \<lfloor>x\<rfloor>; d = x - of_int f
      in if d < 1 / 2 then f else if d > 1 / 2 then f + 1 else if even f then f else f + 1)"

subsection \<open>Strings and paths\<close>

definition py_startswith :: "string \<Rightarrow> string \<Rightarrow> bool" where
  "py_startswith s t = (take (length t) s = t)"

definition py_endswith :: "string \<Rightarrow> string \<Rightarrow> bool" where
  "py_endswith s t = (length t \<le> length s \<and> drop (length s - length t) s = t)"

definition ascii_fold :: "char \<Rightarrow> nat" where
  \<comment> \<open>SQLite's \<open>LIKE\<close> ignores case for the ASCII letters.\<close>
  "ascii_fold c = (let n = of_char c :: nat in if 65 \<le> n \<and> n \<le> 90 then n + 32 else n)"

definition py_lower :: "string \<Rightarrow> string" where
  \<comment> \<open>\<open>str.lower\<close> on ASCII text\<close>
  "py_lower s = map (\<lambda>c. let n = of_char c :: nat in if 65 \<le> n \<and> n \<le> 90 then char_of (n + 32) else c) s"

fun split_on :: "char \<Rightarrow> string \<Rightarrow> string list" where
  \<comment> \<open>Python's \<open>s.split(c)\<close> for a one-character separator: always at least one piece.\<close>
  "split_on c [] = [[]]"
| "split_on c (x # xs) =
     (if x = c then [] # split_on c xs
      else (case split_on c xs of [] \<Rightarrow> [[x]] | p # ps \<Rightarrow> (x # p) # ps))"

fun join_with :: "string \<Rightarrow> string list \<Rightarrow> string" where
  "join_with sep [] = []"
| "join_with sep [p] = p"
| "join_with sep (p # ps) = p @ sep @ join_with sep ps"

definition path_parts :: "path \<Rightarrow> string list" where
  "path_parts p = split_on CHR ''/'' p"

definition base_name :: "path \<Rightarrow> string" where
  "base_name p = last (path_parts p)"

definition parent_dir :: "path \<Rightarrow> path" where
  "parent_dir p = join_with ''/'' (butlast (path_parts p))"

definition path_join :: "path \<Rightarrow> string \<Rightarrow> path" where
  "path_join d n = d @ ''/'' @ n"

lemma split_on_not_Nil [simp]: "split_on c s \<noteq> []"
  by (induction s) (auto split: list.splits)

lemma split_on_no_sep: "c \<notin> set s \<Longrightarrow> split_on c s = [s]"
  by (induction s) auto

lemma split_on_sep_free: "p \<in> set (split_on c s) \<Longrightarrow> c \<notin> set p"
  by (induction s arbitrary: p) (auto split: if_splits list.splits)

lemma split_on_append:
  "split_on c (s @ c # t) = split_on c s @ split_on c t"
  by (induction s) (auto split: list.splits simp: append_eq_Cons_conv)

lemma join_with_Cons: "join_with sep (p # ps) = (if ps = [] then p else p @ sep @ join_with sep ps)"
  by (cases ps) auto

lemma join_split: "join_with [c] (split_on c s) = s"
proof (induction s)
  case (Cons x s)
  then show ?case
    by (auto split: list.splits simp: join_with_Cons)
qed simp

lemma base_name_join: "CHR ''/'' \<notin> set n \<Longrightarrow> base_name (path_join d n) = n"
  by (simp add: base_name_def path_join_def path_parts_def split_on_append split_on_no_sep)

lemma parent_dir_join: "CHR ''/'' \<notin> set n \<Longrightarrow> parent_dir (path_join d n) = d"
  by (simp add: parent_dir_def path_join_def path_parts_def split_on_append split_on_no_sep
      butlast_append join_split)

lemma py_endswith_append [simp]: "py_endswith (s @ t) t"
  by (simp add: py_endswith_def)

lemma py_startswith_append [simp]: "py_startswith (t @ s) t"
  by (simp add: py_startswith_def)

subsection \<open>Aggregates over lists\<close>

definition agg_min :: "'a::linorder list \<Rightarrow> 'a option" where
  \<comment> \<open>SQL's \<open>MIN\<close>: NULL over no rows.\<close>
  "agg_min xs = (case xs of [] \<Rightarrow> None | y # ys \<Rightarrow> Some (fold min ys y))"

definition agg_max :: "'a::linorder list \<Rightarrow> 'a option" where
  "agg_max xs = (case xs of [] \<Rightarrow> None | y # ys \<Rightarrow> Some (fold max ys y))"

lemma agg_min_eq: "agg_min xs = (if xs = [] then None else Some (Min (set xs)))"
  by (cases xs) (simp_all add: agg_min_def Min.set_eq_fold [symmetric] del: list.set)

lemma agg_max_eq: "agg_max xs = (if xs = [] then None else Some (Max (set xs)))"
  by (cases xs) (simp_all add: agg_max_def Max.set_eq_fold [symmetric] del: list.set)

lemma sum_list_map_filter_split:
  fixes f :: "'a \<Rightarrow> int"
  shows "sum_list (map f xs) = sum_list (map f (filter P xs)) + sum_list (map f (filter (\<lambda>x. \<not> P x) xs))"
  by (induction xs) auto

lemma sum_list_map_sort_key [simp]:
  fixes f :: "'a \<Rightarrow> int"
  shows "sum_list (map f (sort_key k xs)) = sum_list (map f xs)"
proof -
  have "mset (map f (sort_key k xs)) = mset (map f xs)" by (simp only: mset_map mset_sort)
  then show ?thesis by (metis sum_mset_sum_list)
qed

lemma sum_list_map_nonneg:
  fixes f :: "'a \<Rightarrow> int"
  shows "(\<And>x. x \<in> set xs \<Longrightarrow> 0 \<le> f x) \<Longrightarrow> 0 \<le> sum_list (map f xs)"
  by (induction xs) auto

lemma distinct_map_filter_key: "distinct (map f xs) \<Longrightarrow> distinct (map f (filter P xs))"
  by (induction xs) auto

lemma in_map_filter: "y \<in> set (List.map_filter f xs) \<longleftrightarrow> (\<exists>x \<in> set xs. f x = Some y)"
  by (auto simp: List.map_filter_def intro: rev_image_eqI)

subsection \<open>The file system\<close>

record file_info =
  fi_size :: int
  fi_mtime :: epoch

record fs =
  fs_files :: "(path, file_info) dict"
  fs_dirs :: "path list"
  fs_unlink_err :: "path \<Rightarrow> bool"
  fs_stat_err :: "path \<Rightarrow> bool"

definition unlink :: "path \<Rightarrow> fs \<Rightarrow> fs option" where
  \<comment> \<open>\<open>Path.unlink(missing_ok=True)\<close>; \<^term>\<open>None\<close> is the \<open>OSError\<close>.\<close>
  "unlink p w = (if fs_unlink_err w p then None
                 else Some (w\<lparr>fs_files := AList.delete p (fs_files w)\<rparr>))"

definition fs_bytes :: "fs \<Rightarrow> int" where
  "fs_bytes w = sum_list (map (\<lambda>(p, i). fi_size i) (fs_files w))"

definition fs_ok :: "fs \<Rightarrow> bool" where
  "fs_ok w \<longleftrightarrow> distinct (dict_keys (fs_files w)) \<and> (\<forall>(p, i) \<in> set (fs_files w). 0 \<le> fi_size i)"

lemma unlink_Some:
  "unlink p w = Some w' \<Longrightarrow> w' = w\<lparr>fs_files := AList.delete p (fs_files w)\<rparr> \<and> \<not> fs_unlink_err w p"
  by (auto simp: unlink_def split: if_splits)

lemma unlink_frame [frame_simps]:
  "unlink p w = Some w' \<Longrightarrow> fs_unlink_err w' = fs_unlink_err w"
  "unlink p w = Some w' \<Longrightarrow> fs_stat_err w' = fs_stat_err w"
  "unlink p w = Some w' \<Longrightarrow> fs_dirs w' = fs_dirs w"
  by (auto dest: unlink_Some)

lemma unlink_keys:
  "unlink p w = Some w' \<Longrightarrow> set (dict_keys (fs_files w')) = set (dict_keys (fs_files w)) - {p}"
  by (drule unlink_Some) (simp add: AList.delete_keys)

lemma fs_ok_unlink [inv_intros]: "fs_ok w \<Longrightarrow> unlink p w = Some w' \<Longrightarrow> fs_ok w'"
  by (auto dest!: unlink_Some simp: fs_ok_def AList.delete_eq distinct_map_filter_key)

subsection \<open>Layered dictionaries\<close>

text \<open>
  Several components build a dictionary in layers (index, YAML, runtime provider), a later layer
  overwriting an earlier one where its entry counts as set.
\<close>

definition overlay :: "('v \<Rightarrow> 'w option) \<Rightarrow> ('k \<times> 'v) list \<Rightarrow> ('k, 'w) dict \<Rightarrow> ('k, 'w) dict" where
  "overlay f m d = fold (\<lambda>(k, v) d. case f v of Some x \<Rightarrow> AList.update k x d | None \<Rightarrow> d) m d"

lemma overlay_simps [simp]:
  "overlay f [] d = d"
  "overlay f ((k, v) # m) d = overlay f m (case f v of Some x \<Rightarrow> AList.update k x d | None \<Rightarrow> d)"
  by (simp_all add: overlay_def)

lemma map_of_overlay:
  "distinct (map fst m) \<Longrightarrow> map_of (overlay f m d) k =
     (case map_of m k of Some v \<Rightarrow> (case f v of Some x \<Rightarrow> Some x | None \<Rightarrow> map_of d k) | None \<Rightarrow> map_of d k)"
proof (induction m arbitrary: d)
  case (Cons kv m)
  obtain k' v where kv: "kv = (k', v)" by (cases kv)
  with Cons.prems have "map_of m k' = None" by (simp add: map_of_eq_None_iff)
  with kv Cons show ?case
    by (auto simp: update_conv' split: option.splits)
qed simp

lemma distinct_overlay: "distinct (map fst d) \<Longrightarrow> distinct (map fst (overlay f m d))"
  by (induction m arbitrary: d) (auto simp: distinct_update split: option.splits)

lemma dom_overlay: "dom (map_of d) \<subseteq> dom (map_of (overlay f m d))"
proof (induction m arbitrary: d)
  case (Cons kv m)
  obtain k v where kv: "kv = (k, v)" by (cases kv)
  have "dom (map_of d) \<subseteq> dom (map_of (case f v of Some x \<Rightarrow> AList.update k x d | None \<Rightarrow> d))"
    by (auto simp: update_conv' split: option.splits)
  also have "\<dots> \<subseteq> dom (map_of (overlay f (kv # m) d))"
    unfolding kv overlay_simps by (rule Cons)
  finally show ?case .
qed simp

subsection \<open>Systems with an invariant\<close>

text \<open>
  The interface of a component seen as a transition system: whatever satisfies it keeps its
  invariant in every reachable state.
\<close>

locale invariant_system =
  fixes init :: "'s \<Rightarrow> bool"
    and step :: "'s \<Rightarrow> 's \<Rightarrow> bool"
    and inv :: "'s \<Rightarrow> bool"
  assumes init_inv: "init s \<Longrightarrow> inv s"
    and step_inv: "inv s \<Longrightarrow> step s t \<Longrightarrow> inv t"
begin

lemma steps_inv: "rtranclp step s t \<Longrightarrow> inv s \<Longrightarrow> inv t"
  by (induction rule: rtranclp_induct) (auto intro: step_inv)

lemma reachable_inv: "init s \<Longrightarrow> rtranclp step s t \<Longrightarrow> inv t"
  by (blast intro: steps_inv init_inv)

end

subsection \<open>Parsing integers\<close>

definition is_space :: "char \<Rightarrow> bool" where
  \<comment> \<open>ASCII whitespace of \<open>str.strip\<close>: tab to carriage return, the separators 28 to 31, blank\<close>
  "is_space c = (let n = of_char c :: nat in (9 \<le> n \<and> n \<le> 13) \<or> (28 \<le> n \<and> n \<le> 32))"

definition py_strip :: "string \<Rightarrow> string" where
  "py_strip s = rev (dropWhile is_space (rev (dropWhile is_space s)))"

definition digit_value :: "char \<Rightarrow> int option" where
  "digit_value c = (let n = of_char c :: nat in if 48 \<le> n \<and> n \<le> 57 then Some (int n - 48) else None)"

fun parse_digits :: "bool \<Rightarrow> int \<Rightarrow> string \<Rightarrow> int option" where
  \<comment> \<open>digits, with single underscores allowed between them; the flag says a digit was just read\<close>
  "parse_digits prev acc [] = (if prev then Some acc else None)"
| "parse_digits prev acc (c # cs) =
     (case digit_value c of
        Some d \<Rightarrow> parse_digits True (acc * 10 + d) cs
      | None \<Rightarrow> if c = CHR ''_'' \<and> prev then parse_digits False acc cs else None)"

definition py_parse_int :: "string \<Rightarrow> int option" where
  \<comment> \<open>\<open>int(s)\<close> on ASCII text; \<^term>\<open>None\<close> is \<open>ValueError\<close>\<close>
  "py_parse_int s =
     (case py_strip s of
        [] \<Rightarrow> None
      | c # cs \<Rightarrow> if c = CHR ''-'' then map_option uminus (parse_digits False 0 cs)
                  else if c = CHR ''+'' then parse_digits False 0 cs
                  else parse_digits False 0 (c # cs))"


subsection \<open>Parsing floats, and JSON\<close>

definition strip_sign :: "string \<Rightarrow> int \<times> string" where
  "strip_sign s = (case s of
      [] \<Rightarrow> (1, [])
    | c # cs \<Rightarrow> if c = CHR ''-'' then (-1, cs) else if c = CHR ''+'' then (1, cs) else (1, c # cs))"

definition digits_opt :: "string \<Rightarrow> int option" where
  \<comment> \<open>the digits on one side of the point: possibly none\<close>
  "digits_opt s = (if s = [] then Some 0 else parse_digits False 0 s)"

definition parse_mantissa :: "string \<Rightarrow> rat option" where
  "parse_mantissa s =
     (case split_on CHR ''.'' s of
        [a] \<Rightarrow> map_option of_int (parse_digits False 0 a)
      | [a, b] \<Rightarrow>
          if a = [] \<and> b = [] then None
          else (case (digits_opt a, digits_opt b) of
                  (Some x, Some y) \<Rightarrow> Some (of_int x + of_int y / 10 ^ length (filter (\<lambda>c. c \<noteq> CHR ''_'') b))
                | _ \<Rightarrow> None)
      | _ \<Rightarrow> None)"

definition scale10 :: "int \<Rightarrow> rat \<Rightarrow> rat" where
  "scale10 k x = (if 0 \<le> k then x * 10 ^ nat k else x / 10 ^ nat (- k))"

definition py_parse_float :: "string \<Rightarrow> rat option" where
  \<comment> \<open>\<open>float(s)\<close> on ASCII text; \<^term>\<open>None\<close> is \<open>ValueError\<close>. The words \<open>inf\<close> and \<open>nan\<close> are not read.\<close>
  "py_parse_float s =
     (case strip_sign (py_strip s) of (sign, body) \<Rightarrow>
        (case split_on CHR ''e'' (map (\<lambda>c. if c = CHR ''E'' then CHR ''e'' else c) body) of
           [m] \<Rightarrow> map_option (\<lambda>x. of_int sign * x) (parse_mantissa m)
         | [m, e] \<Rightarrow>
             (case (parse_mantissa m, strip_sign e) of
                (Some x, (esign, ds)) \<Rightarrow>
                  map_option (\<lambda>k. of_int sign * scale10 (esign * k) x) (parse_digits False 0 ds)
              | _ \<Rightarrow> None)
         | _ \<Rightarrow> None))"

datatype json =
    JNull
  | JBool bool
  | JNum rat
  | JStr string
  | JArr "json list"
  | JObj "(string \<times> json) list"

fun json_float :: "json \<Rightarrow> rat option" where
  \<comment> \<open>\<open>float(v)\<close> of a decoded JSON value; \<^term>\<open>None\<close> is \<open>TypeError\<close> or \<open>ValueError\<close>\<close>
  "json_float (JNum x) = Some x"
| "json_float (JBool b) = Some (if b then 1 else 0)"
| "json_float (JStr s) = py_parse_float s"
| "json_float _ = None"

fun json_items :: "json \<Rightarrow> json list option" where
  \<comment> \<open>what iterating over a decoded JSON value yields; \<^term>\<open>None\<close> is \<open>TypeError\<close>\<close>
  "json_items (JArr xs) = Some xs"
| "json_items (JStr s) = Some (map (\<lambda>c. JStr [c]) s)"
| "json_items (JObj kvs) = Some (map (\<lambda>kv. JStr (fst kv)) kvs)"
| "json_items _ = None"

subsection \<open>Printing integers\<close>

definition digit_char :: "nat \<Rightarrow> char" where
  "digit_char d = char_of (48 + d)"

fun show_nat :: "nat \<Rightarrow> string" where
  "show_nat n = (if n < 10 then [digit_char n] else show_nat (n div 10) @ [digit_char (n mod 10)])"

declare show_nat.simps [simp del]

definition show_int :: "int \<Rightarrow> string" where
  "show_int k = (if k < 0 then ''-'' @ show_nat (nat (- k)) else show_nat (nat k))"

fun pad_digits :: "nat \<Rightarrow> nat \<Rightarrow> string" where
  \<comment> \<open>exactly so many decimal digits, leading zeros included\<close>
  "pad_digits 0 n = []"
| "pad_digits (Suc w) n = pad_digits w (n div 10) @ [digit_char (n mod 10)]"

lemma length_pad_digits [simp]: "length (pad_digits w n) = w"
  by (induction w arbitrary: n) auto

lemma digit_value_digit_char [simp]: "d < 10 \<Longrightarrow> digit_value (digit_char d) = Some (int d)"
  by (simp add: digit_value_def digit_char_def)

lemma list_less_append_same_length:
  fixes a c b d :: "'a::linorder list"
  assumes "length a = length c"
  shows "a @ b < c @ d \<longleftrightarrow> a < c \<or> a = c \<and> b < d"
  using assms by (induction a c rule: list_induct2) auto

lemma digit_char_less: "a < 10 \<Longrightarrow> b < 10 \<Longrightarrow> digit_char a < digit_char b \<longleftrightarrow> a < b"
proof -
  assume "a < 10" and "b < 10"
  then have "of_char (digit_char a) = 48 + a" and "of_char (digit_char b) = 48 + b"
    unfolding digit_char_def of_char_of by simp_all
  then show ?thesis by (simp add: less_char_def)
qed

lemma digit_char_inj: "a < 10 \<Longrightarrow> b < 10 \<Longrightarrow> digit_char a = digit_char b \<longleftrightarrow> a = b"
  by (metis digit_value_digit_char of_nat_eq_iff option.inject)

lemma pad_digits_inj:
  "m < 10 ^ w \<Longrightarrow> n < 10 ^ w \<Longrightarrow> pad_digits w m = pad_digits w n \<longleftrightarrow> m = n"
proof (induction w arbitrary: m n)
  case (Suc w)
  have "m div 10 < 10 ^ w" "n div 10 < 10 ^ w" using Suc.prems by auto
  then have "pad_digits (Suc w) m = pad_digits (Suc w) n \<longleftrightarrow> m div 10 = n div 10 \<and> m mod 10 = n mod 10"
    using Suc.IH by (simp add: digit_char_inj)
  also have "\<dots> \<longleftrightarrow> m = n" by (metis div_mult_mod_eq)
  finally show ?case .
qed auto

lemma base10_less:
  fixes a b c d :: nat
  assumes "b < 10" and "d < 10"
  shows "(a < c \<or> a = c \<and> b < d) = (a * 10 + b < c * 10 + d)"
proof (cases a c rule: linorder_cases)
  case less
  then have "a * 10 + 10 \<le> c * 10" by linarith
  with less assms show ?thesis by linarith
next
  case greater
  then have "c * 10 + 10 \<le> a * 10" by linarith
  with greater assms show ?thesis by linarith
qed simp

lemma pad_digits_less:
  "m < 10 ^ w \<Longrightarrow> n < 10 ^ w \<Longrightarrow> pad_digits w m < pad_digits w n \<longleftrightarrow> m < n"
proof (induction w arbitrary: m n)
  case (Suc w)
  have b: "m div 10 < 10 ^ w" "n div 10 < 10 ^ w" using Suc.prems by auto
  then have "pad_digits (Suc w) m < pad_digits (Suc w) n \<longleftrightarrow>
      m div 10 < n div 10 \<or> m div 10 = n div 10 \<and> m mod 10 < n mod 10"
    using Suc.IH by (simp add: list_less_append_same_length pad_digits_inj digit_char_less)
  also have "\<dots> = (m div 10 * 10 + m mod 10 < n div 10 * 10 + n mod 10)"
    by (rule base10_less) simp_all
  also have "\<dots> \<longleftrightarrow> m < n" by simp
  finally show ?case .
qed auto

lemma digit_char_not: "d < 10 \<Longrightarrow> digit_value c = None \<Longrightarrow> digit_char d \<noteq> c"
  by auto

lemma show_nat_not_Nil [simp]: "show_nat n \<noteq> []" "[] \<noteq> show_nat n"
  by (simp_all add: show_nat.simps)

lemma show_nat_digits: "c \<in> set (show_nat n) \<Longrightarrow> digit_value c \<noteq> None"
proof (induction n rule: show_nat.induct)
  case (1 n)
  then show ?case by (subst (asm) (2) show_nat.simps) (auto split: if_splits)
qed

lemma show_nat_inj: "show_nat m = show_nat n \<longleftrightarrow> m = n"
proof
  assume "show_nat m = show_nat n"
  then show "m = n"
  proof (induction m arbitrary: n rule: show_nat.induct)
    case (1 m)
    show ?case
    proof (cases "m < 10 \<or> n < 10")
      case True
      with "1.prems" show ?thesis
        by (subst (asm) (1 2) show_nat.simps) (auto simp: digit_char_inj append_eq_Cons_conv split: if_splits)
    next
      case False
      with "1.prems" have "show_nat (m div 10) = show_nat (n div 10)" "digit_char (m mod 10) = digit_char (n mod 10)"
        by (subst (asm) (1 2) show_nat.simps; simp)+
      with "1.IH" False have "m div 10 = n div 10" "m mod 10 = n mod 10" by (auto simp: digit_char_inj)
      then show ?thesis by (metis div_mult_mod_eq)
    qed
  qed
qed simp

lemma show_int_no: "digit_value c = None \<Longrightarrow> c \<noteq> CHR ''-'' \<Longrightarrow> c \<notin> set (show_int k)"
  by (auto simp: show_int_def dest: show_nat_digits)

lemma show_int_inj: "show_int j = show_int k \<longleftrightarrow> j = k"
proof -
  have "CHR ''-'' # s \<noteq> show_nat n" for s n
  proof
    assume "CHR ''-'' # s = show_nat n"
    then have "CHR ''-'' \<in> set (show_nat n)" by (metis list.set_intros(1))
    from show_nat_digits [OF this] show False by (simp add: digit_value_def)
  qed
  note neq = this this [symmetric]
  show ?thesis by (auto simp: show_int_def show_nat_inj neq)
qed

subsection \<open>Distances\<close>

definition hypot_ge :: "rat \<Rightarrow> rat \<Rightarrow> rat \<Rightarrow> bool" where
  \<comment> \<open>\<open>math.hypot(x, y) >= d\<close>, without the square root\<close>
  "hypot_ge x y d \<longleftrightarrow> d \<le> 0 \<or> d * d \<le> x * x + y * y"

lemma hypot_ge_sqrt: "hypot_ge x y d \<longleftrightarrow> of_rat d \<le> sqrt (of_rat (x * x + y * y))"
proof (cases "d \<le> 0")
  case True
  then have "(of_rat d :: real) \<le> 0" by simp
  also have "0 \<le> sqrt (of_rat (x * x + y * y) :: real)" by (simp add: of_rat_add of_rat_mult)
  finally show ?thesis using True by (simp add: hypot_ge_def)
next
  case False
  then have d: "0 \<le> (of_rat d :: real)" by simp
  have "of_rat d \<le> sqrt (of_rat (x * x + y * y)) \<longleftrightarrow> (of_rat d)\<^sup>2 \<le> (of_rat (x * x + y * y) :: real)"
    using d real_le_rsqrt real_le_lsqrt
    by (metis real_sqrt_le_iff real_sqrt_abs abs_of_nonneg)
  also have "\<dots> \<longleftrightarrow> d * d \<le> x * x + y * y"
    by (simp add: power2_eq_square of_rat_mult [symmetric] of_rat_less_eq)
  finally show ?thesis using False by (simp add: hypot_ge_def)
qed

end
