(* ===== verification/Segment_Index.thy ===== *)
theory Segment_Index
  imports Prelude
begin

text \<open>
  The recorder's segment index, \<open>services/nvr/storage/index.py\<close>: the SQLite table \<open>segments\<close>
  as a record of rows in rowid order plus the AUTOINCREMENT sequence, and one function per
  method of \<open>SegmentIndex\<close>. SQL is translated clause by clause: \<open>WHERE\<close> is \<^const>\<open>filter\<close>,
  \<open>ORDER BY\<close> a stable sort (ties in rowid order), \<open>LIMIT\<close> a \<^const>\<open>take\<close>, the UNIQUE
  constraint with \<open>INSERT OR REPLACE\<close> a delete followed by an insert under a fresh id. The column
  \<open>created_at\<close> is never read and is left out; the connection handling has no state of its own.
\<close>

subsection \<open>State\<close>

record segment =
  seg_camera :: string
  seg_start :: epoch
  seg_duration :: epoch
  seg_filepath :: path
  seg_size :: int

definition end_epoch :: "segment \<Rightarrow> epoch" where
  "end_epoch s = seg_start s + seg_duration s"

record row =
  r_id :: int
  r_camera :: string
  r_start :: epoch
  r_duration :: epoch
  r_path :: path
  r_size :: int
  r_groomed :: bool

record index_db =
  db_rows :: "row list"
  db_seq :: int

definition r_end :: "row \<Rightarrow> epoch" where
  "r_end r = r_start r + r_duration r"

definition empty_db :: index_db where
  "empty_db = \<lparr>db_rows = [], db_seq = 0\<rparr>"

definition segment_of_row :: "row \<Rightarrow> segment" where
  "segment_of_row r = \<lparr>seg_camera = r_camera r, seg_start = r_start r, seg_duration = r_duration r,
     seg_filepath = r_path r, seg_size = r_size r\<rparr>"

subsection \<open>Operations\<close>

definition add_segment :: "segment \<Rightarrow> index_db \<Rightarrow> index_db" where
  "add_segment s db =
     (let i = db_seq db + 1;
          kept = filter (\<lambda>r. r_path r \<noteq> seg_filepath s) (db_rows db);
          new = \<lparr>r_id = i, r_camera = seg_camera s, r_start = seg_start s, r_duration = seg_duration s,
                 r_path = seg_filepath s, r_size = seg_size s, r_groomed = False\<rparr>
      in \<lparr>db_rows = kept @ [new], db_seq = i\<rparr>)"

definition overlapping_rows :: "string \<Rightarrow> epoch \<Rightarrow> epoch \<Rightarrow> index_db \<Rightarrow> row list" where
  "overlapping_rows camera from_epoch to_epoch db =
     sort_key r_start (filter (\<lambda>r. r_camera r = camera \<and> r_start r \<le> to_epoch \<and> r_end r \<ge> from_epoch)
       (db_rows db))"

definition find_segments :: "string \<Rightarrow> epoch \<Rightarrow> epoch \<Rightarrow> index_db \<Rightarrow> segment list" where
  "find_segments camera from_epoch to_epoch db =
     map segment_of_row (overlapping_rows camera from_epoch to_epoch db)"

definition select_overlapping ::
  "string \<Rightarrow> epoch \<Rightarrow> epoch \<Rightarrow> index_db \<Rightarrow> (int \<times> epoch \<times> epoch \<times> path \<times> int) list" where
  "select_overlapping camera from_epoch to_epoch db =
     map (\<lambda>r. (r_id r, r_start r, r_duration r, r_path r, r_size r))
       (overlapping_rows camera from_epoch to_epoch db)"

fun sql_like :: "string \<Rightarrow> string \<Rightarrow> bool" where
  \<comment> \<open>\<open>text LIKE pattern\<close>, pattern first: \<open>%\<close> matches any run, \<open>_\<close> any one character.\<close>
  "sql_like [] [] = True"
| "sql_like [] (_ # _) = False"
| "sql_like (p # ps) [] = (p = CHR ''%'' \<and> sql_like ps [])"
| "sql_like (p # ps) (c # cs) =
     (if p = CHR ''%'' then sql_like ps (c # cs) \<or> sql_like (p # ps) cs
      else (p = CHR ''_'' \<or> ascii_fold p = ascii_fold c) \<and> sql_like ps cs)"

definition find_by_filename :: "string \<Rightarrow> string \<Rightarrow> index_db \<Rightarrow> segment option" where
  "find_by_filename camera filename db =
     (case rev (sort_key r_start
              (filter (\<lambda>r. r_camera r = camera \<and> sql_like (''%/'' @ filename) (r_path r)) (db_rows db))) of
        [] \<Rightarrow> None
      | r # _ \<Rightarrow> Some (segment_of_row r))"

definition recording_range :: "row list \<Rightarrow> (epoch \<times> epoch) option" where
  \<comment> \<open>\<open>MIN(start_epoch), MAX(start_epoch + duration)\<close> over a set of rows.\<close>
  "recording_range rs =
     (case (agg_min (map r_start rs), agg_max (map r_end rs)) of
        (Some a, Some b) \<Rightarrow> Some (a, b)
      | _ \<Rightarrow> None)"

definition get_recording_range :: "string \<Rightarrow> index_db \<Rightarrow> (epoch \<times> epoch) option" where
  "get_recording_range camera db = recording_range (filter (\<lambda>r. r_camera r = camera) (db_rows db))"

definition get_cameras :: "index_db \<Rightarrow> string list" where
  "get_cameras db = sort (remdups (map r_camera (db_rows db)))"

definition get_indexed_filepaths_since :: "string \<Rightarrow> epoch \<Rightarrow> index_db \<Rightarrow> path list" where
  "get_indexed_filepaths_since camera since db =
     remdups (map r_path (filter (\<lambda>r. r_camera r = camera \<and> r_start r \<ge> since) (db_rows db)))"

definition expired :: "string \<Rightarrow> epoch \<Rightarrow> row \<Rightarrow> bool" where
  "expired camera before r \<longleftrightarrow> r_camera r = camera \<and> r_end r < before"

definition delete_before :: "string \<Rightarrow> epoch \<Rightarrow> index_db \<Rightarrow> path list \<times> index_db" where
  "delete_before camera before db =
     (let paths = map r_path (filter (expired camera before) (db_rows db))
      in (paths, if paths \<noteq> [] then db\<lparr>db_rows := filter (\<lambda>r. \<not> expired camera before r) (db_rows db)\<rparr>
                 else db))"

definition camera_rows :: "string option \<Rightarrow> index_db \<Rightarrow> row list" where
  \<comment> \<open>\<open>if camera: WHERE camera = ?\<close>: neither \<open>None\<close> nor the empty string filters.\<close>
  "camera_rows camera db =
     (case camera of None \<Rightarrow> db_rows db
      | Some c \<Rightarrow> if c = [] then db_rows db else filter (\<lambda>r. r_camera r = c) (db_rows db))"

definition rows_size :: "row list \<Rightarrow> int" where
  "rows_size rs = sum_list (map r_size rs)"

definition total_size :: "string option \<Rightarrow> index_db \<Rightarrow> int" where
  "total_size camera db = rows_size (camera_rows camera db)"

fun gather_oldest :: "int \<Rightarrow> int \<Rightarrow> row list \<Rightarrow> (int \<times> path \<times> int) list" where
  "gather_oldest to_free freed [] = []"
| "gather_oldest to_free freed (r # rs) =
     (if freed \<ge> to_free then []
      else (r_id r, r_path r, r_size r) # gather_oldest to_free (freed + r_size r) rs)"

definition select_oldest_until_under :: "int \<Rightarrow> index_db \<Rightarrow> (int \<times> path \<times> int) list" where
  "select_oldest_until_under target_bytes db =
     (let current = total_size None db
      in if current \<le> target_bytes then []
         else gather_oldest (current - target_bytes) 0 (sort_key r_start (db_rows db)))"

function delete_chunks :: "int list \<Rightarrow> row list \<Rightarrow> row list" where
  \<comment> \<open>\<open>DELETE ... WHERE id IN (chunk)\<close> over consecutive chunks of 500 ids.\<close>
  "delete_chunks ids rs =
     (if ids = [] then rs
      else delete_chunks (drop 500 ids) (filter (\<lambda>r. r_id r \<notin> set (take 500 ids)) rs))"
  by pat_completeness auto
termination
  by (relation "measure (\<lambda>(ids, rs). length ids)") auto

declare delete_chunks.simps [simp del]

definition delete_by_ids :: "int list \<Rightarrow> index_db \<Rightarrow> index_db" where
  "delete_by_ids ids db = (if ids = [] then db else db\<lparr>db_rows := delete_chunks ids (db_rows db)\<rparr>)"

definition groomable :: "epoch \<Rightarrow> row \<Rightarrow> bool" where
  "groomable before r \<longleftrightarrow> \<not> r_groomed r \<and> r_end r < before"

definition select_groomable ::
  "epoch \<Rightarrow> int \<Rightarrow> string option \<Rightarrow> index_db \<Rightarrow> (int \<times> string \<times> path \<times> int) list" where
  \<comment> \<open>a negative \<open>LIMIT\<close> is no limit in SQLite\<close>
  "select_groomable before limit camera db =
     (let rs = sort_key r_start (filter (groomable before) (camera_rows camera db))
      in map (\<lambda>r. (r_id r, r_camera r, r_path r, r_size r))
           (if limit < 0 then rs else take (nat limit) rs))"

definition mark_groomed :: "int \<Rightarrow> int \<Rightarrow> index_db \<Rightarrow> index_db" where
  "mark_groomed seg_id new_size db =
     db\<lparr>db_rows := map (\<lambda>r. if r_id r = seg_id then r\<lparr>r_groomed := True, r_size := new_size\<rparr> else r)
                     (db_rows db)\<rparr>"

definition size_split :: "string option \<Rightarrow> index_db \<Rightarrow> int \<times> int" where
  "size_split camera db =
     (rows_size (filter (\<lambda>r. \<not> r_groomed r) (camera_rows camera db)),
      rows_size (filter r_groomed (camera_rows camera db)))"

definition range_split ::
  "string option \<Rightarrow> index_db \<Rightarrow> (epoch \<times> epoch) option \<times> (epoch \<times> epoch) option" where
  "range_split camera db =
     (recording_range (filter (\<lambda>r. \<not> r_groomed r) (camera_rows camera db)),
      recording_range (filter r_groomed (camera_rows camera db)))"

definition files_below :: "path \<Rightarrow> fs \<Rightarrow> path list" where
  \<comment> \<open>\<open>sorted(storage_path.rglob("*.ts"))\<close>: paths compare by their parts\<close>
  "files_below storage w =
     sort_key path_parts
       (filter (\<lambda>p. py_startswith p (storage @ ''/'') \<and> py_endswith p ''.ts'') (dict_keys (fs_files w)))"

fun rebuild_loop ::
  "(path \<Rightarrow> (epoch \<times> epoch) option) \<Rightarrow> fs \<Rightarrow> path list \<Rightarrow> index_db \<Rightarrow> nat \<Rightarrow> index_db \<times> nat" where
  "rebuild_loop probe w [] db n = (db, n)"
| "rebuild_loop probe w (p # ps) db n =
     (case probe p of
        None \<Rightarrow> rebuild_loop probe w ps db n
      | Some (start, dur) \<Rightarrow>
          let s = \<lparr>seg_camera = base_name (parent_dir p), seg_start = start, seg_duration = dur,
                   seg_filepath = p,
                   seg_size = (case map_of (fs_files w) p of Some i \<Rightarrow> fi_size i | None \<Rightarrow> 0)\<rparr>
          in rebuild_loop probe w ps (add_segment s db) (n + 1))"

definition rebuild_from_filesystem ::
  "path \<Rightarrow> (path \<Rightarrow> (epoch \<times> epoch) option) \<Rightarrow> fs \<Rightarrow> index_db \<Rightarrow> index_db \<times> nat" where
  "rebuild_from_filesystem storage probe w db = rebuild_loop probe w (files_below storage w) db 0"

subsection \<open>Well-formedness, and that every write keeps it\<close>

definition db_ok :: "index_db \<Rightarrow> bool" where
  "db_ok db \<longleftrightarrow> distinct (map r_id (db_rows db)) \<and> distinct (map r_path (db_rows db)) \<and>
     (\<forall>r \<in> set (db_rows db). r_id r \<le> db_seq db)"

datatype db_op =
    Add_segment segment
  | Delete_before string epoch
  | Delete_by_ids "int list"
  | Mark_groomed int int

fun run_op :: "db_op \<Rightarrow> index_db \<Rightarrow> index_db" where
  "run_op (Add_segment s) db = add_segment s db"
| "run_op (Delete_before c t) db = snd (delete_before c t db)"
| "run_op (Delete_by_ids ids) db = delete_by_ids ids db"
| "run_op (Mark_groomed i n) db = mark_groomed i n db"

lemma recording_range_bounds:
  assumes "g \<in> set (db_rows db)" "r_camera g = c"
  shows "\<exists>e l. get_recording_range c db = Some (e, l) \<and> e \<le> r_start g \<and> r_end g \<le> l"
proof -
  let ?rs = "filter (\<lambda>r. r_camera r = c) (db_rows db)"
  have g: "g \<in> set ?rs" using assms by simp
  then have "?rs \<noteq> []" by (metis empty_iff empty_set)
  then have "get_recording_range c db = Some (Min (set (map r_start ?rs)), Max (set (map r_end ?rs)))"
    unfolding get_recording_range_def recording_range_def agg_min_eq agg_max_eq by (simp only: list.map_disc_iff if_False option.case prod.case)
  moreover have "Min (set (map r_start ?rs)) \<le> r_start g" "r_end g \<le> Max (set (map r_end ?rs))" using g by (auto intro!: Min_le Max_ge)
  ultimately show ?thesis by blast
qed

lemma delete_chunks_eq: "delete_chunks ids rs = filter (\<lambda>r. r_id r \<notin> set ids) rs"
proof (induction ids rs rule: delete_chunks.induct)
  case (1 ids rs)
  have "set ids = set (take 500 ids) \<union> set (drop 500 ids)"
    by (metis append_take_drop_id set_append)
  with 1 show ?case
    by (subst delete_chunks.simps) (auto simp: conj_commute intro!: filter_cong)
qed

lemma delete_by_ids_rows [simp]:
  "db_rows (delete_by_ids ids db) = filter (\<lambda>r. r_id r \<notin> set ids) (db_rows db)"
  by (simp add: delete_by_ids_def delete_chunks_eq)

lemma delete_by_ids_seq [frame_simps, simp]: "db_seq (delete_by_ids ids db) = db_seq db"
  by (simp add: delete_by_ids_def)

lemma delete_before_paths:
  "fst (delete_before c t db) = map r_path (filter (expired c t) (db_rows db))"
  by (simp add: delete_before_def Let_def)

lemma delete_before_rows [simp]:
  "db_rows (snd (delete_before c t db)) = filter (\<lambda>r. \<not> expired c t r) (db_rows db)"
  by (auto simp: delete_before_def Let_def filter_empty_conv intro!: filter_True [symmetric])

lemma delete_before_seq [frame_simps, simp]: "db_seq (snd (delete_before c t db)) = db_seq db"
  by (simp add: delete_before_def Let_def)

lemma mark_groomed_maps:
  "map r_id (db_rows (mark_groomed i n db)) = map r_id (db_rows db)"
  "map r_path (db_rows (mark_groomed i n db)) = map r_path (db_rows db)"
  "map r_camera (db_rows (mark_groomed i n db)) = map r_camera (db_rows db)"
  "map r_start (db_rows (mark_groomed i n db)) = map r_start (db_rows db)"
  "map r_end (db_rows (mark_groomed i n db)) = map r_end (db_rows db)"
  by (simp_all add: mark_groomed_def r_end_def)

lemma mark_groomed_seq [frame_simps, simp]: "db_seq (mark_groomed i n db) = db_seq db"
  by (simp add: mark_groomed_def)

lemma db_ok_empty [inv_intros]: "db_ok empty_db"
  by (simp add: db_ok_def empty_db_def)

lemma db_ok_add [inv_intros]: "db_ok db \<Longrightarrow> db_ok (add_segment s db)"
  by (fastforce simp: db_ok_def add_segment_def Let_def distinct_map_filter_key)

lemma db_ok_filter:
  "db_ok db \<Longrightarrow> db_rows db' = filter P (db_rows db) \<Longrightarrow> db_seq db' = db_seq db \<Longrightarrow> db_ok db'"
  by (simp add: db_ok_def distinct_map_filter_key)

lemma db_ok_delete_before [inv_intros]: "db_ok db \<Longrightarrow> db_ok (snd (delete_before c t db))"
  by (erule db_ok_filter) simp_all

lemma db_ok_delete_by_ids [inv_intros]: "db_ok db \<Longrightarrow> db_ok (delete_by_ids ids db)"
  by (erule db_ok_filter) simp_all

lemma db_ok_mark_groomed [inv_intros]: "db_ok db \<Longrightarrow> db_ok (mark_groomed i n db)"
  by (auto simp: db_ok_def mark_groomed_maps) (auto simp: mark_groomed_def split: if_splits)

lemma db_ok_run_op [inv_intros]: "db_ok db \<Longrightarrow> db_ok (run_op op db)"
  by (cases op) (auto intro: inv_intros)

lemma run_op_seq_mono: "db_seq db \<le> db_seq (run_op op db)"
  by (cases op) (auto simp: add_segment_def Let_def)

text \<open>
  C14. Whatever sequence of inserts, age deletions, deletions by id and groom marks the recorder
  issues from an empty database, no two rows share an id or a file path, and every id is at most
  the AUTOINCREMENT sequence, so the next insert's id is fresh.
\<close>

theorem index_always_well_formed: "db_ok (fold run_op ops empty_db)"
proof -
  have "db_ok db \<Longrightarrow> db_ok (fold run_op ops db)" for db
    by (induction ops arbitrary: db) (auto intro: inv_intros)
  then show ?thesis by (simp add: db_ok_empty)
qed

subsection \<open>Lookups\<close>

lemma set_overlapping_rows [simp]:
  "set (overlapping_rows c a b db) =
     {r \<in> set (db_rows db). r_camera r = c \<and> r_start r \<le> b \<and> a \<le> r_end r}"
  by (auto simp: overlapping_rows_def)

lemma sorted_overlapping_rows: "sorted (map r_start (overlapping_rows c a b db))"
  by (simp add: overlapping_rows_def)

lemma add_segment_rows:
  "set (db_rows (add_segment s db)) =
     insert \<lparr>r_id = db_seq db + 1, r_camera = seg_camera s, r_start = seg_start s,
             r_duration = seg_duration s, r_path = seg_filepath s, r_size = seg_size s, r_groomed = False\<rparr>
       {r \<in> set (db_rows db). r_path r \<noteq> seg_filepath s}"
  by (auto simp: add_segment_def Let_def)

text \<open>
  \<open>find_segments\<close> returns exactly the stored segments of the camera whose closed time range meets
  the closed query range, in order of start time; touching the boundary counts.
\<close>

theorem find_segments_exact:
  "set (find_segments c a b db) =
     {segment_of_row r | r. r \<in> set (db_rows db) \<and> r_camera r = c \<and> r_start r \<le> b \<and> a \<le> r_end r} \<and>
   sorted (map seg_start (find_segments c a b db))"
proof -
  have "sorted (map seg_start (find_segments c a b db))"
    by (simp add: find_segments_def segment_of_row_def comp_def sorted_overlapping_rows)
  then show ?thesis
    by (auto simp: find_segments_def)
qed

text \<open>
  Insert then look up: a segment of non-negative duration that was just indexed is found by a
  query over its own start and by one over its own end, it is the only entry for its path, and
  the entries of every other path are untouched.
\<close>

theorem add_then_find:
  assumes "0 \<le> seg_duration s"
  shows "s \<in> set (find_segments (seg_camera s) (seg_start s) (seg_start s) (add_segment s db)) \<and>
    s \<in> set (find_segments (seg_camera s) (end_epoch s) (end_epoch s) (add_segment s db)) \<and>
    filter (\<lambda>r. r_path r \<noteq> seg_filepath s) (db_rows (add_segment s db)) =
      filter (\<lambda>r. r_path r \<noteq> seg_filepath s) (db_rows db) \<and>
    length (filter (\<lambda>r. r_path r = seg_filepath s) (db_rows (add_segment s db))) = 1"
proof -
  let ?r = "\<lparr>r_id = db_seq db + 1, r_camera = seg_camera s, r_start = seg_start s,
             r_duration = seg_duration s, r_path = seg_filepath s, r_size = seg_size s, r_groomed = False\<rparr>"
  have s: "segment_of_row ?r = s" by (simp add: segment_of_row_def)
  have "?r \<in> set (db_rows (add_segment s db))" by (simp add: add_segment_rows)
  then have "?r \<in> set (overlapping_rows (seg_camera s) t t (add_segment s db))"
    if "seg_start s \<le> t" "t \<le> end_epoch s" for t
    using that by (simp add: r_end_def end_epoch_def)
  then have "s \<in> set (find_segments (seg_camera s) t t (add_segment s db))"
    if "seg_start s \<le> t" "t \<le> end_epoch s" for t
    using that s unfolding find_segments_def by (metis image_eqI set_map)
  then show ?thesis
    using assms by (simp add: end_epoch_def add_segment_def Let_def filter_empty_conv)
qed

theorem add_then_find_witness:
  "let s = \<lparr>seg_camera = ''gate'', seg_start = 100, seg_duration = 60, seg_filepath = ''/d/gate/a.ts'', seg_size = 5\<rparr>
   in s \<in> set (find_segments ''gate'' 160 160 (add_segment s empty_db))"
  using add_then_find [of "\<lparr>seg_camera = ''gate'', seg_start = 100, seg_duration = 60,
    seg_filepath = ''/d/gate/a.ts'', seg_size = 5\<rparr>" empty_db]
  by (simp add: end_epoch_def)

subsection \<open>Eviction: the contract the retention manager relies on\<close>

text \<open>
  What a client of the index needs in order to evict by size, as an interface: the total,
  the selection of the oldest candidates and the deletion by id. \<open>select_covers\<close> promises that the
  candidates are enough, \<open>total_drop\<close> that deleting those whose file was really removed accounts
  for exactly their sizes.
\<close>

definition cand_bytes :: "(int \<times> path \<times> int) list \<Rightarrow> int" where
  "cand_bytes cs = sum_list (map (\<lambda>(i, p, n). n) cs)"

locale evictable_store =
  fixes total :: "'s \<Rightarrow> int"
    and select :: "int \<Rightarrow> 's \<Rightarrow> (int \<times> path \<times> int) list"
    and drop_ids :: "int list \<Rightarrow> 's \<Rightarrow> 's"
    and inv :: "'s \<Rightarrow> bool"
  assumes inv_drop: "inv s \<Longrightarrow> inv (drop_ids ids s)"
    and total_drop: "inv s \<Longrightarrow>
      total (drop_ids (map fst (filter P (select t s))) s) = total s - cand_bytes (filter P (select t s))"
    and select_covers: "inv s \<Longrightarrow> 0 \<le> t \<Longrightarrow> total s - cand_bytes (select t s) \<le> t"
    and select_under: "total s \<le> t \<Longrightarrow> select t s = []"
    and drop_none: "drop_ids [] s = s"
begin

lemma evict_all: "inv s \<Longrightarrow> 0 \<le> t \<Longrightarrow> total (drop_ids (map fst (select t s)) s) \<le> t"
  using total_drop [of s "\<lambda>_. True" t] select_covers [of s t] by simp

lemma evict_some:
  "inv s \<Longrightarrow> total (drop_ids (map fst (filter P (select t s))) s) = total s - cand_bytes (filter P (select t s))"
  by (rule total_drop)

lemma evict_under: "total s \<le> t \<Longrightarrow> drop_ids (map fst (select t s)) s = s"
  by (simp add: select_under drop_none)

end

definition cand :: "row \<Rightarrow> int \<times> path \<times> int" where
  "cand r = (r_id r, r_path r, r_size r)"

lemma gather_oldest_take:
  "\<exists>n \<le> length rs. gather_oldest tf fr rs = map cand (take n rs) \<and>
     (n < length rs \<longrightarrow> tf \<le> fr + rows_size (take n rs)) \<and>
     (\<forall>m < n. fr + rows_size (take m rs) < tf)"
proof (induction rs arbitrary: fr)
  case Nil
  then show ?case by simp
next
  case (Cons r rs)
  show ?case
  proof (cases "tf \<le> fr")
    case True
    then show ?thesis by (intro exI [of _ 0]) (simp add: rows_size_def)
  next
    case False
    from Cons [of "fr + r_size r"] obtain n where
      n: "n \<le> length rs" "gather_oldest tf (fr + r_size r) rs = map cand (take n rs)"
      "n < length rs \<longrightarrow> tf \<le> fr + r_size r + rows_size (take n rs)"
      "\<forall>m < n. fr + r_size r + rows_size (take m rs) < tf" by blast
    have "fr + rows_size (take m (r # rs)) < tf" if "m < Suc n" for m
      using that n(4) False by (cases m) (auto simp: rows_size_def algebra_simps)
    then show ?thesis
      using n False by (intro exI [of _ "Suc n"]) (auto simp: cand_def rows_size_def algebra_simps)
  qed
qed

lemma rows_size_split:
  "rows_size rs = rows_size (filter P rs) + rows_size (filter (\<lambda>r. \<not> P r) rs)"
  by (simp add: rows_size_def sum_list_map_filter_split [of r_size rs P])

lemma cand_bytes_map [simp]: "cand_bytes (map cand rs) = rows_size rs"
  by (simp add: cand_bytes_def rows_size_def cand_def comp_def)

lemma total_size_None: "total_size None db = rows_size (db_rows db)"
  by (simp add: total_size_def camera_rows_def)

lemma select_oldest_take:
  "\<exists>n. select_oldest_until_under t db = map cand (take n (sort_key r_start (db_rows db))) \<and>
     (0 \<le> t \<longrightarrow> total_size None db - rows_size (take n (sort_key r_start (db_rows db))) \<le> t) \<and>
     (\<forall>m < n. t < total_size None db - rows_size (take m (sort_key r_start (db_rows db))))"
proof (cases "total_size None db \<le> t")
  case True
  then show ?thesis
    by (intro exI [of _ 0]) (simp add: select_oldest_until_under_def rows_size_def)
next
  case False
  let ?rs = "sort_key r_start (db_rows db)"
  have tot: "rows_size ?rs = total_size None db" by (simp add: total_size_None rows_size_def)
  obtain n where n: "n \<le> length ?rs"
    "gather_oldest (total_size None db - t) 0 ?rs = map cand (take n ?rs)"
    "n < length ?rs \<longrightarrow> total_size None db - t \<le> rows_size (take n ?rs)"
    "\<forall>m < n. rows_size (take m ?rs) < total_size None db - t"
    using gather_oldest_take [of ?rs "total_size None db - t" 0] by auto
  have "total_size None db - rows_size (take n ?rs) \<le> t" if "0 \<le> t"
  proof (cases "n < length ?rs")
    case True
    with n(3) show ?thesis by linarith
  next
    case False
    then have "take n ?rs = ?rs" by simp
    with tot that show ?thesis by simp
  qed
  with n False show ?thesis
    by (intro exI [of _ n]) (auto simp: select_oldest_until_under_def)
qed

lemma filter_cand: "filter P (map cand rs) = map cand (filter (P \<circ> cand) rs)"
  by (simp add: filter_map)

lemma distinct_sub_mset:
  assumes "distinct ys" and "mset xs \<subseteq># mset ys"
  shows "distinct xs"
proof -
  have "count (mset xs) a = (if a \<in> set xs then 1 else 0)" for a
  proof (cases "a \<in> set xs")
    case True
    then have "count (mset xs) a \<noteq> 0" by (simp add: count_mset_0_iff)
    moreover have "count (mset xs) a \<le> 1"
    proof -
      have "count (mset ys) a \<le> 1" using assms(1) by (simp add: distinct_count_atmost_1)
      with mset_subset_eq_count [OF assms(2), of a] show ?thesis by linarith
    qed
    ultimately have "count (mset xs) a = 1" by linarith
    with True show ?thesis by simp
  next
    case False
    then show ?thesis by (simp add: count_mset_0_iff)
  qed
  then show ?thesis by (simp add: distinct_count_atmost_1)
qed

lemma rows_size_drop_ids:
  assumes "distinct (map r_id (db_rows db))" and "mset sel \<subseteq># mset (db_rows db)"
  shows "rows_size (filter (\<lambda>r. r_id r \<notin> set (map r_id sel)) (db_rows db)) =
    rows_size (db_rows db) - rows_size sel"
proof -
  have sub: "set sel \<subseteq> set (db_rows db)" using set_mset_mono [OF assms(2)] by simp
  have dr: "distinct (db_rows db)" using assms(1) by (simp add: distinct_map)
  then have ds: "distinct sel" using assms(2) by (rule distinct_sub_mset)
  have inj: "inj_on r_id (set (db_rows db))" using assms(1) by (simp add: distinct_map)
  have "r_id r \<in> set (map r_id sel) \<longleftrightarrow> r \<in> set sel" if "r \<in> set (db_rows db)" for r
    using that sub inj by (auto dest: inj_onD)
  then have eq: "filter (\<lambda>r. r_id r \<in> set (map r_id sel)) (db_rows db) = filter (\<lambda>r. r \<in> set sel) (db_rows db)"
    by (intro filter_cong) auto
  have "mset (filter (\<lambda>r. r \<in> set sel) (db_rows db)) = mset sel"
    using dr ds sub by (intro set_eq_iff_mset_eq_distinct [THEN iffD1]) auto
  then have "rows_size (filter (\<lambda>r. r_id r \<in> set (map r_id sel)) (db_rows db)) = rows_size sel"
    unfolding eq rows_size_def by (metis mset_map sum_mset_sum_list)
  then show ?thesis using rows_size_split [of "db_rows db" "\<lambda>r. r_id r \<in> set (map r_id sel)"] by simp
qed

lemma mset_filter_take_sub:
  "mset (filter P (take n (sort_key f xs))) \<subseteq># mset xs"
proof -
  have "mset (filter P (take n (sort_key f xs))) \<subseteq># mset (take n (sort_key f xs))"
    by (simp add: mset_filter)
  also have "\<dots> \<subseteq># mset (take n (sort_key f xs) @ drop n (sort_key f xs))"
    unfolding mset_append by (rule mset_subset_eq_add_left)
  finally show ?thesis by (simp only: append_take_drop_id mset_sort)
qed

lemma map_fst_cand: "map fst (map cand rs) = map r_id rs"
  by (simp add: cand_def)

interpretation idx: evictable_store "total_size None" select_oldest_until_under delete_by_ids db_ok
proof unfold_locales
  fix db P t
  assume ok: "db_ok db"
  let ?rs = "sort_key r_start (db_rows db)"
  from select_oldest_take obtain n where
    n: "select_oldest_until_under t db = map cand (take n ?rs)" by blast
  show "total_size None (delete_by_ids (map fst (filter P (select_oldest_until_under t db))) db) =
    total_size None db - cand_bytes (filter P (select_oldest_until_under t db))"
    using rows_size_drop_ids [OF _ mset_filter_take_sub, of db "P \<circ> cand" n r_start] ok
    by (simp only: n filter_cand map_fst_cand total_size_None delete_by_ids_rows cand_bytes_map db_ok_def simp_thms)
next
  fix db t assume "db_ok db" "(0::int) \<le> t"
  then show "total_size None db - cand_bytes (select_oldest_until_under t db) \<le> t"
    using select_oldest_take [of t db] by auto
next
  fix db ids assume "db_ok db"
  then show "db_ok (delete_by_ids ids db)" by (rule db_ok_delete_by_ids)
qed (simp_all add: select_oldest_until_under_def delete_by_ids_def)

lemma butlast_take_prefix:
  assumes "take n xs \<noteq> []"
  shows "\<exists>m < n. butlast (take n xs) = take m xs"
proof (intro exI conjI)
  show "min n (length xs) - 1 < n" using assms by (cases n) auto
  show "butlast (take n xs) = take (min n (length xs) - 1) xs"
    by (auto simp: butlast_conv_take min_def)
qed

text \<open>
  C15. Size eviction is exact. With a non-negative target, deleting the selected rows brings the
  indexed total to the target or below, leaving out the last candidate would not, and no
  surviving row is older than a deleted one.
\<close>

theorem select_oldest_exact:
  assumes "db_ok db" and "0 \<le> t" and "cs = select_oldest_until_under t db"
  shows "total_size None (delete_by_ids (map fst cs) db) \<le> t \<and>
    (cs \<noteq> [] \<longrightarrow> t < total_size None (delete_by_ids (map fst (butlast cs)) db)) \<and>
    (\<forall>r \<in> set (db_rows db). \<forall>q \<in> set (db_rows db).
       r_id r \<in> set (map fst cs) \<and> r_id q \<notin> set (map fst cs) \<longrightarrow> r_start r \<le> r_start q)"
proof -
  let ?rs = "sort_key r_start (db_rows db)"
  from select_oldest_take obtain n where
    n: "cs = map cand (take n ?rs)"
    and early: "\<forall>m < n. t < total_size None db - rows_size (take m ?rs)"
    using assms(3) by blast
  have min: "t < total_size None (delete_by_ids (map fst (butlast cs)) db)" if "cs \<noteq> []"
  proof -
    from that n have "take n ?rs \<noteq> []" by auto
    then obtain m where m: "m < n" "butlast cs = map cand (take m ?rs)"
      using butlast_take_prefix [of n ?rs] by (auto simp: n map_butlast [symmetric])
    have "mset (take m ?rs) \<subseteq># mset (db_rows db)"
      using mset_filter_take_sub [of "\<lambda>_. True" m r_start "db_rows db"] by simp
    then show ?thesis
      using early m assms(1) rows_size_drop_ids [of db "take m ?rs"]
      by (simp only: m map_fst_cand total_size_None delete_by_ids_rows db_ok_def simp_thms)
  qed
  have "r_start r \<le> r_start q"
    if "r \<in> set (db_rows db)" "q \<in> set (db_rows db)" "r_id r \<in> set (map fst cs)" "r_id q \<notin> set (map fst cs)"
    for r q
  proof -
    note h = that
    have inj: "inj_on r_id (set (db_rows db))" using assms(1) by (simp add: db_ok_def distinct_map)
    have sub: "set (take n ?rs) \<subseteq> set (db_rows db)" by (metis set_sort set_take_subset)
    obtain x where x: "x \<in> set (take n ?rs)" "r_id r = r_id x"
      using h(3) unfolding n map_fst_cand by auto
    with inj h(1) sub have "r = x" by (auto dest: inj_onD)
    with x have "r \<in> set (take n ?rs)" by simp
    moreover have "q \<in> set (drop n ?rs)"
    proof -
      have "q \<in> set (take n ?rs) \<union> set (drop n ?rs)"
        using h(2) by (simp only: set_append [symmetric] append_take_drop_id set_sort)
      then show ?thesis using h(4) unfolding n map_fst_cand by auto
    qed
    moreover have "sorted (map r_start (take n ?rs @ drop n ?rs))"
      unfolding append_take_drop_id by simp
    ultimately show ?thesis by (auto simp only: map_append sorted_append set_map)
  qed
  then show ?thesis
    using min idx.evict_all [OF assms(1,2)] unfolding assms(3) by (intro conjI impI ballI) blast+
qed

theorem select_oldest_exact_witness:
  "let db = fold add_segment
       [\<lparr>seg_camera = ''a'', seg_start = 20, seg_duration = 10, seg_filepath = ''/n/a/2.ts'', seg_size = 40\<rparr>,
        \<lparr>seg_camera = ''b'', seg_start = 10, seg_duration = 10, seg_filepath = ''/n/b/1.ts'', seg_size = 30\<rparr>,
        \<lparr>seg_camera = ''a'', seg_start = 30, seg_duration = 10, seg_filepath = ''/n/a/3.ts'', seg_size = 50\<rparr>] empty_db
   in map fst (select_oldest_until_under 60 db) = [2, 1] \<and>
      total_size None (delete_by_ids (map fst (select_oldest_until_under 60 db)) db) \<le> 60"
proof -
  let ?db = "fold add_segment
       [\<lparr>seg_camera = ''a'', seg_start = 20, seg_duration = 10, seg_filepath = ''/n/a/2.ts'', seg_size = 40\<rparr>,
        \<lparr>seg_camera = ''b'', seg_start = 10, seg_duration = 10, seg_filepath = ''/n/b/1.ts'', seg_size = 30\<rparr>,
        \<lparr>seg_camera = ''a'', seg_start = 30, seg_duration = 10, seg_filepath = ''/n/a/3.ts'', seg_size = 50\<rparr>] empty_db"
  have "db_ok ?db" by (auto intro!: inv_intros)
  from select_oldest_exact [OF this, of 60, OF _ refl]
  have "total_size None (delete_by_ids (map fst (select_oldest_until_under 60 ?db)) ?db) \<le> 60" by simp
  then show ?thesis
    by (simp add: Let_def add_segment_def empty_db_def select_oldest_until_under_def total_size_def
        camera_rows_def rows_size_def)
qed

text \<open>
  Age deletion is exact: \<open>delete_before\<close> reports and removes precisely the camera's segments
  that end before the cutoff, a segment that still covers the cutoff stays, and no other camera's
  rows change.
\<close>

theorem delete_before_exact:
  "delete_before c t db = (ps, db') \<Longrightarrow>
     ps = map r_path (filter (\<lambda>r. r_camera r = c \<and> r_end r < t) (db_rows db)) \<and>
     db_rows db' = filter (\<lambda>r. r_camera r = c \<longrightarrow> t \<le> r_end r) (db_rows db) \<and> db_seq db' = db_seq db"
  using delete_before_paths [of c t db] delete_before_rows [of c t db] delete_before_seq [of c t db]
  by (auto simp: expired_def [abs_def] not_less intro!: filter_cong)

theorem delete_before_exact_witness:
  "delete_before ''a'' 50 (add_segment \<lparr>seg_camera = ''a'', seg_start = 20, seg_duration = 10,
      seg_filepath = ''p'', seg_size = 40\<rparr> empty_db) = ([''p''], \<lparr>db_rows = [], db_seq = 1\<rparr>)"
proof -
  let ?db = "add_segment \<lparr>seg_camera = ''a'', seg_start = 20, seg_duration = 10,
      seg_filepath = ''p'', seg_size = 40\<rparr> empty_db"
  obtain ps db' where d: "delete_before ''a'' 50 ?db = (ps, db')" by fastforce
  from delete_before_exact [OF d] have "ps = [''p''] \<and> db_rows db' = [] \<and> db_seq db' = 1"
    by (simp add: add_segment_def empty_db_def r_end_def)
  with d show ?thesis by (cases db') simp
qed

subsection \<open>Per-camera policies over the index\<close>

text \<open>
  Retention and grooming each compute a dictionary from camera to a number of days. What their
  passes need of it: keys are distinct, and every camera with indexed footage has an entry.
\<close>

locale camera_policy =
  fixes policy :: "'e \<Rightarrow> index_db \<Rightarrow> (string, int) dict"
  assumes policy_distinct: "distinct (dict_keys (policy e db))"
    and policy_covers: "r \<in> set (db_rows db) \<Longrightarrow> r_camera r \<in> dom (map_of (policy e db))"
begin

lemma policy_entry: "(n, d) \<in> set (policy e db) \<longleftrightarrow> map_of (policy e db) n = Some d"
  using policy_distinct by (metis map_of_SomeD map_of_is_SomeI)

lemma policy_all:
  assumes "r \<in> set (db_rows db)"
  shows "(\<forall>(n, d) \<in> set (policy e db). n = r_camera r \<longrightarrow> P d) \<longleftrightarrow>
    P (the (map_of (policy e db) (r_camera r)))"
proof -
  obtain d where d: "map_of (policy e db) (r_camera r) = Some d"
    using policy_covers [OF assms, of e] by auto
  have "(\<forall>(n, d) \<in> set (policy e db). n = r_camera r \<longrightarrow> P d) \<longleftrightarrow>
      (\<forall>x. map_of (policy e db) (r_camera r) = Some x \<longrightarrow> P x)"
    unfolding policy_entry [symmetric] by blast
  with d show ?thesis by simp
qed

end

end
