(* ===== verification/Retention.thy ===== *)
theory Retention
  imports Segment_Index
begin

text \<open>
  The retention manager, \<open>services/nvr/storage/retention.py\<close>: age deletion per camera behind the
  clock-jump guard, orphan cleaning, the size cap, the emergency disk floor, and the clip and HLS
  cache cleaners. The state a pass reads and writes is the record \<open>nvr\<close> (segment index, file system,
  the manager's own counters); a pass gets its clock readings, the providers' answers and the volume
  probe \<open>shutil.disk_usage\<close> in a record \<open>pass_env\<close>. An \<open>OSError\<close> of unlink or stat is decided by the
  file system's predicates; one that the code does not catch makes the result \<^term>\<open>None\<close>. SQLite
  errors and log lines are not modelled.
\<close>

subsection \<open>State and environment\<close>

record retention_cfg =
  rc_cameras :: "(string, int option) dict"  \<comment> \<open>the YAML cameras, with \<open>retention_days\<close> where set\<close>
  rc_clips_path :: path
  rc_clip_ttl :: epoch
  rc_hls_ttl :: epoch
  rc_hls_path :: path
  rc_storage_path :: "path option"
  rc_max_storage_bytes :: "int option"
  rc_default_days :: int
  rc_clock_jump_threshold :: epoch

record retention_state =
  rs_prev_wall :: "epoch option"
  rs_prev_mono :: "epoch option"
  rs_size_cap_events :: int
  rs_size_cap_last_at :: "epoch option"
  rs_size_cap_last_freed :: int
  rs_disk_floor_events :: int
  rs_disk_floor_last_at :: "epoch option"
  rs_disk_floor_locked :: bool

record disk_usage =
  du_total :: int
  du_used :: int
  du_free :: int

datatype 'a provider =
    No_provider
  | Raises
  | Answers 'a

record pass_env =
  pe_now :: epoch        \<comment> \<open>\<open>time.time()\<close> at the start of the pass\<close>
  pe_mono :: epoch       \<comment> \<open>\<open>time.monotonic()\<close>\<close>
  pe_stamp :: epoch      \<comment> \<open>\<open>time.time()\<close> when an eviction is recorded\<close>
  pe_retention :: "(string, int option) dict option provider"
  pe_cap :: "int option provider"
  pe_usage :: "fs \<Rightarrow> disk_usage option"  \<comment> \<open>\<open>shutil.disk_usage\<close>; \<^term>\<open>None\<close> is \<open>OSError\<close>\<close>

record nvr =
  nv_db :: index_db
  nv_fs :: fs
  nv_ret :: retention_state

definition initial_retention_state :: retention_state where
  "initial_retention_state = \<lparr>rs_prev_wall = None, rs_prev_mono = None, rs_size_cap_events = 0,
     rs_size_cap_last_at = None, rs_size_cap_last_freed = 0, rs_disk_floor_events = 0,
     rs_disk_floor_last_at = None, rs_disk_floor_locked = False\<rparr>"

definition disk_floor_free_pct :: rat where "disk_floor_free_pct = 5"
definition disk_target_free_pct :: rat where "disk_target_free_pct = 8"
definition disk_floor_max_passes :: nat where "disk_floor_max_passes = 20"

subsection \<open>Which camera keeps how long\<close>

definition camera_retention_map :: "retention_cfg \<Rightarrow> pass_env \<Rightarrow> index_db \<Rightarrow> (string, int) dict" where
  "camera_retention_map cfg env db =
     (let indexed = overlay Some (map (\<lambda>n. (n, rc_default_days cfg)) (get_cameras db)) [];
          yaml = overlay (\<lambda>r. Some (case r of Some k \<Rightarrow> k | None \<Rightarrow> rc_default_days cfg)) (rc_cameras cfg) indexed
      in case pe_retention env of
           Answers (Some m) \<Rightarrow> overlay (\<lambda>v. if v = None \<or> v = Some 0 then None else v) m yaml
         | _ \<Rightarrow> yaml)"

definition configured_retention_days :: "retention_cfg \<Rightarrow> pass_env \<Rightarrow> index_db \<Rightarrow> int option" where
  "configured_retention_days cfg env db =
     agg_max (filter (\<lambda>d. d \<noteq> 0) (map snd (camera_retention_map cfg env db)))"

definition size_limit :: "retention_cfg \<Rightarrow> pass_env \<Rightarrow> int option" where
  "size_limit cfg env =
     (case pe_cap env of Answers v \<Rightarrow> v | _ \<Rightarrow> rc_max_storage_bytes cfg)"

subsection \<open>Deleting files\<close>

definition try_unlink :: "path \<Rightarrow> fs \<Rightarrow> fs" where
  \<comment> \<open>unlink; an \<open>OSError\<close> is logged and swallowed\<close>
  "try_unlink p w = (case unlink p w of Some w' \<Rightarrow> w' | None \<Rightarrow> w)"

definition files_in :: "path \<Rightarrow> string \<Rightarrow> fs \<Rightarrow> path list" where
  \<comment> \<open>\<open>dir.glob("*" + ext)\<close>\<close>
  "files_in d ext w =
     filter (\<lambda>p. parent_dir p = d \<and> py_endswith (base_name p) ext) (dict_keys (fs_files w))"

definition older_than :: "epoch \<Rightarrow> path \<Rightarrow> fs \<Rightarrow> bool" where
  \<comment> \<open>the stat succeeds and the mtime is below the cutoff\<close>
  "older_than cutoff p w =
     (\<not> fs_stat_err w p \<and> (case map_of (fs_files w) p of Some i \<Rightarrow> fi_mtime i < cutoff | None \<Rightarrow> False))"

fun sweep :: "(path \<Rightarrow> fs \<Rightarrow> bool) \<Rightarrow> path list \<Rightarrow> fs \<Rightarrow> int \<times> fs" where
  \<comment> \<open>the shape shared by the cleaners: unlink the files a test selects, count the unlinks that worked\<close>
  "sweep P [] w = (0, w)"
| "sweep P (p # ps) w =
     (if P p w then
        (case unlink p w of
           Some w' \<Rightarrow> let (n, w'') = sweep P ps w' in (n + 1, w'')
         | None \<Rightarrow> sweep P ps w)
      else sweep P ps w)"

definition clean_orphans :: "retention_cfg \<Rightarrow> string \<Rightarrow> epoch \<Rightarrow> index_db \<Rightarrow> fs \<Rightarrow> int \<times> fs" where
  "clean_orphans cfg camera cutoff db w =
     (case rc_storage_path cfg of
        None \<Rightarrow> (0, w)
      | Some storage \<Rightarrow>
          let cam_dir = path_join storage camera
          in if cam_dir \<notin> set (fs_dirs w) then (0, w)
             else let indexed = get_indexed_filepaths_since camera 0 db
                  in sweep (\<lambda>p w. p \<notin> set indexed \<and> older_than cutoff p w)
                       (files_in cam_dir ''.ts'' w) w)"

definition clean_clips :: "retention_cfg \<Rightarrow> epoch \<Rightarrow> fs \<Rightarrow> int \<times> fs" where
  "clean_clips cfg now w =
     (if rc_clips_path cfg \<notin> set (fs_dirs w) then (0, w)
      else sweep (older_than (now - rc_clip_ttl cfg)) (files_in (rc_clips_path cfg) ''.mp4'' w) w)"

definition children :: "path \<Rightarrow> fs \<Rightarrow> path list" where
  "children d w = filter (\<lambda>p. parent_dir p = d) (dict_keys (fs_files w) @ fs_dirs w)"

definition rmdir_if_empty :: "path \<Rightarrow> fs \<Rightarrow> fs" where
  "rmdir_if_empty d w =
     (if children d w = [] \<and> \<not> fs_unlink_err w d then w\<lparr>fs_dirs := removeAll d (fs_dirs w)\<rparr> else w)"

fun clean_hls_dirs :: "epoch \<Rightarrow> path list \<Rightarrow> fs \<Rightarrow> int \<times> fs" where
  "clean_hls_dirs cutoff [] w = (0, w)"
| "clean_hls_dirs cutoff (d # ds) w =
     (let (n, w1) = sweep (older_than cutoff) (files_in d '''' w) w;
          (m, w2) = clean_hls_dirs cutoff ds (rmdir_if_empty d w1)
      in (n + m, w2))"

definition clean_hls_cache :: "retention_cfg \<Rightarrow> epoch \<Rightarrow> fs \<Rightarrow> int \<times> fs" where
  "clean_hls_cache cfg now w =
     (if rc_hls_path cfg \<notin> set (fs_dirs w) then (0, w)
      else clean_hls_dirs (now - rc_hls_ttl cfg)
             (filter (\<lambda>d. parent_dir d = rc_hls_path cfg) (fs_dirs w)) w)"

fun purge_files :: "path list \<Rightarrow> fs \<Rightarrow> int \<times> fs" where
  \<comment> \<open>\<open>freed += st_size\<close> comes before the unlink, so a refused unlink is counted too\<close>
  "purge_files [] w = (0, w)"
| "purge_files (p # ps) w =
     (if fs_stat_err w p then purge_files ps w
      else let sz = (case map_of (fs_files w) p of Some i \<Rightarrow> fi_size i | None \<Rightarrow> 0);
               (freed, w') = purge_files ps (try_unlink p w)
           in (sz + freed, w'))"

definition purge_hls_cache :: "retention_cfg \<Rightarrow> fs \<Rightarrow> int \<times> fs" where
  "purge_hls_cache cfg w =
     (if rc_hls_path cfg \<notin> set (fs_dirs w) then (0, w)
      else purge_files (filter (\<lambda>p. py_startswith p (rc_hls_path cfg @ ''/'')) (dict_keys (fs_files w))) w)"

subsection \<open>Two-phase eviction\<close>

fun unlink_candidates :: "(int \<times> path \<times> int) list \<Rightarrow> fs \<Rightarrow> int list \<times> int \<times> fs" where
  "unlink_candidates [] w = ([], 0, w)"
| "unlink_candidates ((i, p, sz) # cs) w =
     (case unlink p w of
        None \<Rightarrow> unlink_candidates cs w
      | Some w1 \<Rightarrow> let (ids, freed, w2) = unlink_candidates cs w1 in (i # ids, sz + freed, w2))"

definition delete_candidates :: "(int \<times> path \<times> int) list \<Rightarrow> nvr \<Rightarrow> int \<times> nvr" where
  "delete_candidates cs s =
     (let (ids, freed, w) = unlink_candidates cs (nv_fs s)
      in (freed, s\<lparr>nv_db := delete_by_ids ids (nv_db s), nv_fs := w\<rparr>))"

definition enforce_size_cap :: "pass_env \<Rightarrow> int \<Rightarrow> nvr \<Rightarrow> nvr" where
  "enforce_size_cap env limit s =
     (let candidates = select_oldest_until_under limit (nv_db s);
          (freed, s1) = delete_candidates candidates s;
          r = nv_ret s1
      in s1\<lparr>nv_ret := r\<lparr>rs_size_cap_events := rs_size_cap_events r + 1,
                        rs_size_cap_last_at := Some (pe_stamp env),
                        rs_size_cap_last_freed := freed\<rparr>\<rparr>)"

subsection \<open>The emergency disk floor\<close>

definition want_bytes :: "int \<Rightarrow> rat \<Rightarrow> int" where
  \<comment> \<open>\<open>min(indexed, int(deficit * 1.1))\<close>\<close>
  "want_bytes indexed deficit = min indexed (py_int (deficit * (11 / 10)))"

fun floor_loop :: "nat \<Rightarrow> pass_env \<Rightarrow> rat \<Rightarrow> int \<Rightarrow> nvr \<Rightarrow> int option \<times> nvr" where
  "floor_loop 0 env target total_freed s = (Some total_freed, s)"
| "floor_loop (Suc n) env target total_freed s =
     (case pe_usage env (nv_fs s) of
        None \<Rightarrow> (None, s)
      | Some usage \<Rightarrow>
          if of_int (du_free usage) \<ge> target then (Some total_freed, s)
          else
            let deficit = target - of_int (du_free usage);
                indexed = total_size None (nv_db s)
            in if indexed \<le> 0 then (Some total_freed, s)
               else
                 let want = want_bytes indexed deficit;
                     candidates = select_oldest_until_under (indexed - want) (nv_db s)
                 in if candidates = [] then (Some total_freed, s)
                    else
                      let (freed, s') = delete_candidates candidates s
                      in if freed = 0 then (Some (total_freed + freed), s')
                         else floor_loop n env target (total_freed + freed) s')"

definition note_disk_floor :: "pass_env \<Rightarrow> nvr \<Rightarrow> nvr" where
  "note_disk_floor env s =
     (let r = nv_ret s
      in s\<lparr>nv_ret := r\<lparr>rs_disk_floor_events := rs_disk_floor_events r + 1,
                       rs_disk_floor_last_at := Some (pe_stamp env)\<rparr>\<rparr>)"

definition evict_to_target :: "pass_env \<Rightarrow> rat \<Rightarrow> nvr \<Rightarrow> int option \<times> nvr" where
  "evict_to_target env target s =
     (case floor_loop disk_floor_max_passes env target 0 (note_disk_floor env s) of
        (None, s') \<Rightarrow> (None, s')
      | (Some freed, s') \<Rightarrow> (if pe_usage env (nv_fs s') = None then None else Some freed, s'))"

definition enforce_disk_floor :: "retention_cfg \<Rightarrow> pass_env \<Rightarrow> nvr \<Rightarrow> int option \<times> nvr" where
  "enforce_disk_floor cfg env s =
     (if rc_storage_path cfg = None then (Some 0, s)
      else if rs_disk_floor_locked (nv_ret s) then (Some 0, s)
      else case pe_usage env (nv_fs s) of
             None \<Rightarrow> (Some 0, s)
           | Some usage \<Rightarrow>
               let floor_bytes = of_int (du_total usage) * disk_floor_free_pct / 100;
                   target = of_int (du_total usage) * disk_target_free_pct / 100
               in if of_int (du_free usage) \<ge> floor_bytes then (Some 0, s)
                  else
                    let (purged, w) = purge_hls_cache cfg (nv_fs s);
                        s1 = s\<lparr>nv_fs := w\<rparr>;
                        recovered = (purged \<noteq> 0 \<and>
                          of_int (du_free (case pe_usage env w of Some u \<Rightarrow> u | None \<Rightarrow> usage)) \<ge> target)
                    in if recovered then (Some 0, s1) else evict_to_target env target s1)"

subsection \<open>One pass\<close>

definition age_cleanup_ok :: "retention_cfg \<Rightarrow> pass_env \<Rightarrow> retention_state \<Rightarrow> bool" where
  "age_cleanup_ok cfg env r =
     (case (rs_prev_mono r, rs_prev_wall r) of
        (Some pm, Some pw) \<Rightarrow>
          \<not> \<bar>(pe_now env - pw) - (pe_mono env - pm)\<bar> > rc_clock_jump_threshold cfg
      | _ \<Rightarrow> False)"

definition age_out_camera :: "retention_cfg \<Rightarrow> pass_env \<Rightarrow> string \<Rightarrow> int \<Rightarrow> nvr \<Rightarrow> int \<times> nvr" where
  "age_out_camera cfg env name days s =
     (let cutoff = pe_now env - of_int (days * 86400);
          (deleted_paths, db) = delete_before name cutoff (nv_db s);
          w1 = fold try_unlink deleted_paths (nv_fs s);
          (orphans, w2) = clean_orphans cfg name cutoff db w1
      in (int (length deleted_paths) + orphans, s\<lparr>nv_db := db, nv_fs := w2\<rparr>))"

fun age_out :: "retention_cfg \<Rightarrow> pass_env \<Rightarrow> (string, int) dict \<Rightarrow> nvr \<Rightarrow> (string, int) dict \<times> nvr" where
  "age_out cfg env [] s = ([], s)"
| "age_out cfg env ((name, days) # m) s =
     (let (n, s1) = age_out_camera cfg env name days s;
          (results, s2) = age_out cfg env m s1
      in ((name, n) # results, s2))"

definition cap_phase :: "retention_cfg \<Rightarrow> pass_env \<Rightarrow> nvr \<Rightarrow> nvr" where
  "cap_phase cfg env s =
     (case size_limit cfg env of
        None \<Rightarrow> s
      | Some limit \<Rightarrow> if total_size None (nv_db s) > limit then enforce_size_cap env limit s else s)"

definition clean_phase :: "retention_cfg \<Rightarrow> pass_env \<Rightarrow> nvr \<Rightarrow> nvr" where
  "clean_phase cfg env s =
     s\<lparr>nv_fs := snd (clean_hls_cache cfg (pe_now env) (snd (clean_clips cfg (pe_now env) (nv_fs s))))\<rparr>"

definition run_once :: "retention_cfg \<Rightarrow> pass_env \<Rightarrow> nvr \<Rightarrow> (string, int) dict option \<times> nvr" where
  "run_once cfg env s =
     (let ok = age_cleanup_ok cfg env (nv_ret s);
          s0 = s\<lparr>nv_ret := (nv_ret s)\<lparr>rs_prev_wall := Some (pe_now env), rs_prev_mono := Some (pe_mono env)\<rparr>\<rparr>;
          (results, s1) = (if ok then age_out cfg env (camera_retention_map cfg env (nv_db s0)) s0 else ([], s0));
          s2 = cap_phase cfg env s1
      in case enforce_disk_floor cfg env s2 of
           (None, s3) \<Rightarrow> (None, s3)
         | (Some _, s3) \<Rightarrow> (Some results, if ok then clean_phase cfg env s3 else s3))"

subsection \<open>What a cleaner may touch\<close>

text \<open>
  Every cleaner only removes files. \<open>shrinks A w w'\<close> says that \<open>w'\<close> is \<open>w\<close> less some files whose
  paths lie in \<open>A\<close>; it composes, so each operation needs one lemma saying what it may touch.
\<close>

definition shrinks :: "path set \<Rightarrow> fs \<Rightarrow> fs \<Rightarrow> bool" where
  "shrinks A w w' \<longleftrightarrow> (\<exists>D \<subseteq> A. fs_files w' = filter (\<lambda>(p, i). p \<notin> D) (fs_files w)) \<and>
     fs_unlink_err w' = fs_unlink_err w \<and> fs_stat_err w' = fs_stat_err w"

named_theorems shrink_intros

lemma shrinks_refl [shrink_intros]: "shrinks A w w"
  unfolding shrinks_def by (intro conjI exI [of _ "{}"]) auto

lemma shrinks_trans:
  assumes "shrinks A w w1" "shrinks A w1 w2"
  shows "shrinks A w w2"
proof -
  from assms obtain D E where d: "D \<subseteq> A" "fs_files w1 = filter (\<lambda>(p, i). p \<notin> D) (fs_files w)"
    and e: "E \<subseteq> A" "fs_files w2 = filter (\<lambda>(p, i). p \<notin> E) (fs_files w1)"
    by (auto simp: shrinks_def)
  have "fs_files w2 = filter (\<lambda>(p, i). p \<notin> D \<union> E) (fs_files w)"
    unfolding e(2) d(2) filter_filter by (rule filter_cong) auto
  moreover have "D \<union> E \<subseteq> A" using d(1) e(1) by simp
  moreover have "fs_unlink_err w2 = fs_unlink_err w \<and> fs_stat_err w2 = fs_stat_err w"
    using assms by (simp add: shrinks_def)
  ultimately show ?thesis unfolding shrinks_def by blast
qed

lemma shrinks_mono: "shrinks A w w' \<Longrightarrow> A \<subseteq> B \<Longrightarrow> shrinks B w w'"
  unfolding shrinks_def by blast

lemma map_of_filter_key: "p \<notin> D \<Longrightarrow> map_of (filter (\<lambda>(q, i). q \<notin> D) xs) p = map_of xs p"
  by (induction xs) auto

lemma shrinks_map_of:
  assumes "shrinks A w w'" and "p \<notin> A"
  shows "map_of (fs_files w') p = map_of (fs_files w) p"
proof -
  from assms(1) obtain D where "D \<subseteq> A" "fs_files w' = filter (\<lambda>(p, i). p \<notin> D) (fs_files w)"
    by (auto simp: shrinks_def)
  moreover from this assms(2) have "p \<notin> D" by blast
  ultimately show ?thesis by (simp add: map_of_filter_key)
qed

lemma shrinks_keys: "shrinks A w w' \<Longrightarrow> set (dict_keys (fs_files w')) \<subseteq> set (dict_keys (fs_files w))"
  by (auto simp: shrinks_def)

lemma shrinks_unlink: "unlink p w = Some w' \<Longrightarrow> shrinks {p} w w'"
  by (drule unlink_Some) (auto simp: shrinks_def AList.delete_eq intro!: exI [of _ "{p}"] filter_cong)

lemma shrinks_try_unlink: "p \<in> A \<Longrightarrow> shrinks A w (try_unlink p w)"
  by (auto simp: try_unlink_def shrinks_refl dest!: shrinks_unlink elim: shrinks_mono split: option.split)

lemma shrinks_unlink_in: "unlink p w = Some w' \<Longrightarrow> p \<in> A \<Longrightarrow> shrinks A w w'"
  by (auto dest: shrinks_unlink elim: shrinks_mono)

lemma shrinks_fold_unlink: "set ps \<subseteq> A \<Longrightarrow> shrinks A w (fold try_unlink ps w)"
  by (induction ps arbitrary: w) (auto intro: shrinks_refl shrinks_trans shrinks_try_unlink)

lemma shrinks_sweep:
  assumes "\<And>p w. p \<in> set ps \<Longrightarrow> P p w \<Longrightarrow> p \<in> A"
  shows "shrinks A w (snd (sweep P ps w))"
  using assms
proof (induction P ps w rule: sweep.induct)
  case (2 P p ps w)
  show ?case
  proof (cases "P p w")
    case True
    then show ?thesis
    proof (cases "unlink p w")
      case None
      with 2 True show ?thesis by simp
    next
      case (Some w1)
      from Some True 2 have "shrinks A w w1" by (intro shrinks_unlink_in) auto
      moreover from Some True 2 have "shrinks A w1 (snd (sweep P ps w1))" by simp
      ultimately show ?thesis using Some True by (simp add: split_beta shrinks_trans)
    qed
  next
    case False
    with 2 show ?thesis by simp
  qed
qed (simp add: shrinks_refl)

lemma shrinks_purge_files: "set ps \<subseteq> A \<Longrightarrow> shrinks A w (snd (purge_files ps w))"
  by (induction ps w rule: purge_files.induct)
    (auto simp: Let_def split_beta intro: shrinks_refl shrinks_trans shrinks_try_unlink)

lemma unlink_candidates_spec:
  "unlink_candidates cs w =
     (let ok = filter (\<lambda>(i, p, n). \<not> fs_unlink_err w p) cs
      in (map fst ok, cand_bytes ok,
          w\<lparr>fs_files := filter (\<lambda>(q, i). q \<notin> (fst \<circ> snd) ` set ok) (fs_files w)\<rparr>))"
proof (induction cs w rule: unlink_candidates.induct)
  case (1 w)
  then show ?case by (simp add: cand_bytes_def)
next
  case (2 i p sz cs w)
  show ?case
  proof (cases "fs_unlink_err w p")
    case True
    with 2(1) show ?thesis by (simp add: unlink_def)
  next
    case False
    let ?w1 = "w\<lparr>fs_files := AList.delete p (fs_files w)\<rparr>"
    from False have u: "unlink p w = Some ?w1" by (simp add: unlink_def)
    have f: "filter (\<lambda>(q, i). q \<notin> D) (AList.delete p xs) = filter (\<lambda>(q, i). q \<noteq> p \<and> q \<notin> D) xs"
      for D and xs :: "(path \<times> file_info) list"
      by (auto simp: AList.delete_eq intro!: filter_cong)
    from 2(2) [OF u] False show ?thesis
      by (simp add: u Let_def cand_bytes_def f)
  qed
qed

lemma shrinks_unlink_candidates:
  "shrinks ((fst \<circ> snd) ` {c \<in> set cs. fst c \<in> set (fst (unlink_candidates cs w))}) w
     (snd (snd (unlink_candidates cs w)))"
  unfolding unlink_candidates_spec shrinks_def Let_def
  by (auto intro!: exI [of _ "(fst \<circ> snd) ` set (filter (\<lambda>(i, p, n). \<not> fs_unlink_err w p) cs)"] rev_image_eqI)

subsection \<open>The index mirrors the disk\<close>

definition mirrored :: "index_db \<Rightarrow> fs \<Rightarrow> bool" where
  "mirrored db w \<longleftrightarrow> (\<forall>r \<in> set (db_rows db). \<exists>i. map_of (fs_files w) (r_path r) = Some i \<and> fi_size i = r_size r)"

lemma mirrored_shrinks:
  assumes "mirrored db w" "shrinks A w w'" "set (db_rows db') \<subseteq> set (db_rows db)"
    and "\<And>r. r \<in> set (db_rows db') \<Longrightarrow> r_path r \<notin> A"
  shows "mirrored db' w'"
  unfolding mirrored_def
proof
  fix r assume r: "r \<in> set (db_rows db')"
  then have "map_of (fs_files w') (r_path r) = map_of (fs_files w) (r_path r)"
    using assms(2,4) by (blast intro: shrinks_map_of)
  with assms(1,3) r show "\<exists>i. map_of (fs_files w') (r_path r) = Some i \<and> fi_size i = r_size r"
    by (auto simp: mirrored_def)
qed

lemma db_ok_path_inj:
  "db_ok db \<Longrightarrow> r \<in> set (db_rows db) \<Longrightarrow> q \<in> set (db_rows db) \<Longrightarrow> r_path r = r_path q \<Longrightarrow> r = q"
  by (auto simp: db_ok_def distinct_map dest: inj_onD)

lemma db_ok_id_inj:
  "db_ok db \<Longrightarrow> r \<in> set (db_rows db) \<Longrightarrow> q \<in> set (db_rows db) \<Longrightarrow> r_id r = r_id q \<Longrightarrow> r = q"
  by (auto simp: db_ok_def distinct_map dest: inj_onD)

lemma selection_rows:
  obtains rs where "select_oldest_until_under t db = map cand rs" "set rs \<subseteq> set (db_rows db)"
  using select_oldest_take [of t db] by (metis set_sort set_take_subset)

lemma cand_in_selection:
  "db_ok db \<Longrightarrow> set rs \<subseteq> set (db_rows db) \<Longrightarrow> r \<in> set (db_rows db) \<Longrightarrow>
    cand r \<in> cand ` set rs \<longleftrightarrow> r \<in> set rs"
  by (auto simp: cand_def image_iff) (metis db_ok_id_inj subsetD)

definition unlinkable :: "fs \<Rightarrow> int \<times> path \<times> int \<Rightarrow> bool" where
  "unlinkable w c \<longleftrightarrow> \<not> fs_unlink_err w (fst (snd c))"

lemma delete_candidates_spec:
  "delete_candidates cs s =
     (cand_bytes (filter (unlinkable (nv_fs s)) cs),
      s\<lparr>nv_db := delete_by_ids (map fst (filter (unlinkable (nv_fs s)) cs)) (nv_db s),
        nv_fs := (nv_fs s)\<lparr>fs_files := filter (\<lambda>(q, i). q \<notin> (fst \<circ> snd) ` {c \<in> set cs. unlinkable (nv_fs s) c})
                                     (fs_files (nv_fs s))\<rparr>\<rparr>)"
proof -
  have "(\<lambda>(i, p, n). \<not> fs_unlink_err w p) = unlinkable w" for w
    by (auto simp: unlinkable_def fun_eq_iff)
  then show ?thesis by (simp add: delete_candidates_def unlink_candidates_spec Let_def)
qed

lemma delete_candidates_frame [frame_simps, simp]:
  "nv_ret (snd (delete_candidates cs s)) = nv_ret s"
  "fs_unlink_err (nv_fs (snd (delete_candidates cs s))) = fs_unlink_err (nv_fs s)"
  "fs_stat_err (nv_fs (snd (delete_candidates cs s))) = fs_stat_err (nv_fs s)"
  "fs_dirs (nv_fs (snd (delete_candidates cs s))) = fs_dirs (nv_fs s)"
  by (simp_all add: delete_candidates_spec)

lemma db_ok_delete_candidates [inv_intros]:
  "db_ok (nv_db s) \<Longrightarrow> db_ok (nv_db (snd (delete_candidates cs s)))"
  by (simp add: delete_candidates_spec db_ok_delete_by_ids)

lemma delete_candidates_total:
  assumes "db_ok (nv_db s)" and "cs = select_oldest_until_under t (nv_db s)"
  shows "fst (delete_candidates cs s) = total_size None (nv_db s) - total_size None (nv_db (snd (delete_candidates cs s)))"
  using idx.evict_some [OF assms(1), of "unlinkable (nv_fs s)" t] by (simp add: delete_candidates_spec assms(2))

definition dropped :: "fs \<Rightarrow> row list \<Rightarrow> row set" where
  "dropped w rs = {r \<in> set rs. \<not> fs_unlink_err w (r_path r)}"

lemma filter_unlinkable_cand:
  "filter (unlinkable w) (map cand rs) = map cand (filter (\<lambda>r. \<not> fs_unlink_err w (r_path r)) rs)"
  by (simp add: filter_map unlinkable_def cand_def comp_def)

lemma delete_selected_rows:
  assumes "db_ok (nv_db s)" and "set rs \<subseteq> set (db_rows (nv_db s))"
  shows "set (db_rows (nv_db (snd (delete_candidates (map cand rs) s)))) =
    set (db_rows (nv_db s)) - dropped (nv_fs s) rs"
proof -
  have "r_id r \<in> r_id ` dropped (nv_fs s) rs \<longleftrightarrow> r \<in> dropped (nv_fs s) rs" if "r \<in> set (db_rows (nv_db s))" for r
    using that assms by (auto simp: dropped_def dest: db_ok_id_inj)
  moreover have "set (map fst (filter (unlinkable (nv_fs s)) (map cand rs))) = r_id ` dropped (nv_fs s) rs"
    unfolding filter_unlinkable_cand map_fst_cand by (auto simp: dropped_def)
  moreover have "set (db_rows (nv_db (snd (delete_candidates (map cand rs) s)))) =
      {r \<in> set (db_rows (nv_db s)). r_id r \<notin> set (map fst (filter (unlinkable (nv_fs s)) (map cand rs)))}"
    unfolding delete_candidates_spec by auto
  ultimately show ?thesis by (simp only:) blast
qed

lemma delete_selected_files:
  "fs_files (nv_fs (snd (delete_candidates (map cand rs) s))) =
    filter (\<lambda>(q, i). q \<notin> r_path ` dropped (nv_fs s) rs) (fs_files (nv_fs s))"
proof -
  have "(fst \<circ> snd) ` {c \<in> set (map cand rs). unlinkable (nv_fs s) c} = r_path ` dropped (nv_fs s) rs"
    by (force simp: dropped_def unlinkable_def cand_def image_iff)
  then show ?thesis by (simp add: delete_candidates_spec)
qed

lemma mirrored_delete_candidates:
  assumes "db_ok (nv_db s)" and "cs = select_oldest_until_under t (nv_db s)" and "mirrored (nv_db s) (nv_fs s)"
  shows "mirrored (nv_db (snd (delete_candidates cs s))) (nv_fs (snd (delete_candidates cs s)))"
proof -
  obtain rs where rs: "cs = map cand rs" "set rs \<subseteq> set (db_rows (nv_db s))"
    using assms(2) selection_rows by metis
  note rows = delete_selected_rows [OF assms(1) rs(2)]
  show ?thesis unfolding rs(1)
  proof (rule mirrored_shrinks [OF assms(3)])
    show "shrinks (r_path ` dropped (nv_fs s) rs) (nv_fs s) (nv_fs (snd (delete_candidates (map cand rs) s)))"
      unfolding shrinks_def delete_selected_files by auto
    show "set (db_rows (nv_db (snd (delete_candidates (map cand rs) s)))) \<subseteq> set (db_rows (nv_db s))"
      by (simp add: rows)
    fix r assume "r \<in> set (db_rows (nv_db (snd (delete_candidates (map cand rs) s))))"
    with rows rs(2) show "r_path r \<notin> r_path ` dropped (nv_fs s) rs"
      by (auto simp: dropped_def dest: db_ok_path_inj [OF assms(1)])
  qed
qed

text \<open>
  C10. Two-phase eviction keeps the index and the disk in step under IO faults. Deleting the
  candidates the index selected removes exactly the rows whose file could be unlinked and exactly
  those files, reports as freed precisely the drop of the indexed total, and leaves every
  remaining row with its file on disk.
\<close>

theorem two_phase_delete:
  assumes "db_ok (nv_db s)" and "mirrored (nv_db s) (nv_fs s)"
    and "delete_candidates (select_oldest_until_under t (nv_db s)) s = (freed, s')"
  shows "freed = total_size None (nv_db s) - total_size None (nv_db s') \<and>
    mirrored (nv_db s') (nv_fs s') \<and>
    set (db_rows (nv_db s')) = {r \<in> set (db_rows (nv_db s)).
      cand r \<in> set (select_oldest_until_under t (nv_db s)) \<longrightarrow> fs_unlink_err (nv_fs s) (r_path r)} \<and>
    set (dict_keys (fs_files (nv_fs s'))) = set (dict_keys (fs_files (nv_fs s))) -
      r_path ` (set (db_rows (nv_db s)) - set (db_rows (nv_db s')))"
proof -
  obtain rs where rs: "select_oldest_until_under t (nv_db s) = map cand rs" "set rs \<subseteq> set (db_rows (nv_db s))"
    by (rule selection_rows)
  have s': "s' = snd (delete_candidates (map cand rs) s)" "freed = fst (delete_candidates (map cand rs) s)"
    using assms(3) by (simp_all add: rs)
  have rows: "set (db_rows (nv_db s')) = set (db_rows (nv_db s)) - dropped (nv_fs s) rs"
    unfolding s' by (rule delete_selected_rows [OF assms(1) rs(2)])
  have gone: "set (db_rows (nv_db s)) - set (db_rows (nv_db s')) = dropped (nv_fs s) rs"
    using rs(2) unfolding rows dropped_def by blast
  have "set (db_rows (nv_db s')) = {r \<in> set (db_rows (nv_db s)).
      cand r \<in> set (map cand rs) \<longrightarrow> fs_unlink_err (nv_fs s) (r_path r)}"
    unfolding rows set_map using cand_in_selection [OF assms(1) rs(2)] by (auto simp: dropped_def)
  moreover have "set (dict_keys (fs_files (nv_fs s'))) =
      set (dict_keys (fs_files (nv_fs s))) - r_path ` dropped (nv_fs s) rs"
    unfolding s' delete_selected_files by force
  ultimately show ?thesis
    using delete_candidates_total [OF assms(1) refl, of t] mirrored_delete_candidates [OF assms(1) refl assms(2), of t]
    unfolding gone rs(1) by (simp add: s')
qed

subsection \<open>The invariant of the recorder's storage\<close>

text \<open>
  Where the recorder writes a segment: in \<open>storage/<camera>\<close>, which is neither the clips directory
  nor below the HLS cache; its start is a real epoch.
\<close>

definition segment_home :: "retention_cfg \<Rightarrow> row \<Rightarrow> bool" where
  "segment_home cfg r \<longleftrightarrow>
     (\<forall>st. rc_storage_path cfg = Some st \<longrightarrow> parent_dir (r_path r) = path_join st (r_camera r)) \<and>
     0 \<le> r_start r \<and> parent_dir (r_path r) \<noteq> rc_clips_path cfg \<and>
     parent_dir (parent_dir (r_path r)) \<noteq> rc_hls_path cfg \<and>
     \<not> py_startswith (r_path r) (rc_hls_path cfg @ ''/'')"

definition nvr_ok :: "retention_cfg \<Rightarrow> nvr \<Rightarrow> bool" where
  "nvr_ok cfg s \<longleftrightarrow> db_ok (nv_db s) \<and> mirrored (nv_db s) (nv_fs s) \<and>
     (\<forall>r \<in> set (db_rows (nv_db s)). segment_home cfg r)"

lemma nvr_okI:
  assumes "nvr_ok cfg s" "db_ok (nv_db s')" "shrinks A (nv_fs s) (nv_fs s')"
    and "set (db_rows (nv_db s')) \<subseteq> set (db_rows (nv_db s))"
    and "\<And>r. r \<in> set (db_rows (nv_db s')) \<Longrightarrow> segment_home cfg r \<Longrightarrow> r_path r \<notin> A"
  shows "nvr_ok cfg s'"
proof -
  have home: "segment_home cfg r" if "r \<in> set (db_rows (nv_db s'))" for r
    using that assms(1,4) by (auto simp: nvr_ok_def)
  have "mirrored (nv_db s') (nv_fs s')"
    using assms(1,5) home by (intro mirrored_shrinks [OF _ assms(3,4)]) (auto simp: nvr_ok_def)
  with home assms(2) show ?thesis by (simp add: nvr_ok_def)
qed

lemma nvr_ok_ret_irrelevant [simp]: "nvr_ok cfg (s\<lparr>nv_ret := r\<rparr>) = nvr_ok cfg s"
  by (simp add: nvr_ok_def)

lemma shrinks_clean_orphans:
  "shrinks {p. \<exists>st. rc_storage_path cfg = Some st \<and> parent_dir p = path_join st camera \<and>
       p \<notin> set (get_indexed_filepaths_since camera 0 db)} w (snd (clean_orphans cfg camera cutoff db w))"
  unfolding clean_orphans_def
  by (auto simp: Let_def files_in_def intro!: shrinks_refl shrinks_sweep split: option.split)

lemma path_join_inj: "path_join d a = path_join d b \<longleftrightarrow> a = b"
  by (simp add: path_join_def)

lemma nvr_ok_age_out_camera [inv_intros]:
  assumes ok: "nvr_ok cfg s"
  shows "nvr_ok cfg (snd (age_out_camera cfg env name days s))"
proof -
  let ?cut = "pe_now env - of_int (days * 86400)"
  let ?paths = "fst (delete_before name ?cut (nv_db s))"
  let ?db = "snd (delete_before name ?cut (nv_db s))"
  let ?w1 = "fold try_unlink ?paths (nv_fs s)"
  let ?w2 = "snd (clean_orphans cfg name ?cut ?db ?w1)"
  let ?orph = "{p. \<exists>st. rc_storage_path cfg = Some st \<and> parent_dir p = path_join st name \<and>
       p \<notin> set (get_indexed_filepaths_since name 0 ?db)}"
  have s': "snd (age_out_camera cfg env name days s) = s\<lparr>nv_db := ?db, nv_fs := ?w2\<rparr>"
    by (simp add: age_out_camera_def Let_def split_beta)
  have db: "db_ok (nv_db s)" using ok by (simp add: nvr_ok_def)
  have "shrinks (set ?paths \<union> ?orph) (nv_fs s) ?w1" by (rule shrinks_fold_unlink) simp
  moreover have "shrinks (set ?paths \<union> ?orph) ?w1 ?w2"
    by (rule shrinks_mono [OF shrinks_clean_orphans]) simp
  ultimately have sh: "shrinks (set ?paths \<union> ?orph) (nv_fs s) ?w2" by (rule shrinks_trans)
  show ?thesis unfolding s'
  proof (rule nvr_okI [OF ok, of _ "set ?paths \<union> ?orph"])
    fix r assume r: "r \<in> set (db_rows (nv_db (s\<lparr>nv_db := ?db, nv_fs := ?w2\<rparr>)))" and home: "segment_home cfg r"
    have "r_path r \<notin> set ?paths"
      using r by (auto simp: delete_before_paths dest: db_ok_path_inj [OF db])
    moreover have "r_path r \<notin> ?orph"
      using r home by (auto simp: segment_home_def path_join_inj get_indexed_filepaths_since_def)
    ultimately show "r_path r \<notin> set ?paths \<union> ?orph" by simp
  qed (use db sh in \<open>auto intro: inv_intros\<close>)
qed

lemma nvr_ok_age_out [inv_intros]: "nvr_ok cfg s \<Longrightarrow> nvr_ok cfg (snd (age_out cfg env m s))"
proof (induction m arbitrary: s)
  case (Cons x m)
  then show ?case by (cases x) (simp add: split_beta nvr_ok_age_out_camera)
qed simp

lemma nvr_ok_delete_candidates [inv_intros]:
  assumes "nvr_ok cfg s"
  shows "nvr_ok cfg (snd (delete_candidates (select_oldest_until_under t (nv_db s)) s))"
  using assms mirrored_delete_candidates [OF _ refl, of s t] db_ok_delete_candidates [of s]
  by (auto simp: nvr_ok_def delete_candidates_spec)

lemma nvr_ok_cap_phase [inv_intros]: "nvr_ok cfg s \<Longrightarrow> nvr_ok cfg (cap_phase cfg env s)"
  by (auto simp: cap_phase_def enforce_size_cap_def Let_def split_beta nvr_ok_delete_candidates split: option.split)

lemma nvr_ok_floor_loop [inv_intros]: "nvr_ok cfg s \<Longrightarrow> nvr_ok cfg (snd (floor_loop n env target tot s))"
proof (induction n arbitrary: s tot)
  case (Suc n)
  from Suc.prems have "nvr_ok cfg (snd (delete_candidates (select_oldest_until_under t (nv_db s)) s))" for t
    by (rule nvr_ok_delete_candidates)
  with Suc show ?case by (auto simp: Let_def split_beta split: option.split)
qed simp

lemma shrinks_purge_hls_cache:
  "shrinks {p. py_startswith p (rc_hls_path cfg @ ''/'')} w (snd (purge_hls_cache cfg w))"
  by (auto simp: purge_hls_cache_def intro!: shrinks_refl shrinks_purge_files)

lemma nvr_ok_purge: "nvr_ok cfg s \<Longrightarrow> nvr_ok cfg (s\<lparr>nv_fs := snd (purge_hls_cache cfg (nv_fs s))\<rparr>)"
  by (rule nvr_okI [of _ _ _ "{p. py_startswith p (rc_hls_path cfg @ ''/'')}"])
    (auto simp: shrinks_purge_hls_cache nvr_ok_def segment_home_def)

lemma nvr_ok_evict_to_target [inv_intros]: "nvr_ok cfg s \<Longrightarrow> nvr_ok cfg (snd (evict_to_target env target s))"
  using nvr_ok_floor_loop [of cfg "note_disk_floor env s" disk_floor_max_passes env target 0]
  by (auto simp: evict_to_target_def note_disk_floor_def Let_def split: prod.splits option.splits)

lemma nvr_ok_disk_floor [inv_intros]: "nvr_ok cfg s \<Longrightarrow> nvr_ok cfg (snd (enforce_disk_floor cfg env s))"
  by (auto simp: enforce_disk_floor_def Let_def split_beta nvr_ok_purge nvr_ok_evict_to_target split: option.split)

lemma shrinks_rmdir [shrink_intros]: "shrinks A w (rmdir_if_empty d w)"
  by (auto simp: rmdir_if_empty_def shrinks_def intro!: exI [of _ "{}"])

lemma shrinks_clean_hls_dirs: "shrinks {p. parent_dir p \<in> set ds} w (snd (clean_hls_dirs cutoff ds w))"
proof (induction cutoff ds w rule: clean_hls_dirs.induct)
  case (2 cutoff d ds w)
  let ?A = "{p. parent_dir p \<in> set (d # ds)}"
  let ?s = "sweep (older_than cutoff) (files_in d '''' w) w"
  let ?w2 = "rmdir_if_empty d (snd ?s)"
  have "shrinks ?A w (snd ?s)" by (rule shrinks_sweep) (simp add: files_in_def)
  moreover have "shrinks ?A (snd ?s) ?w2" by (rule shrinks_rmdir)
  moreover have "shrinks ?A ?w2 (snd (clean_hls_dirs cutoff ds ?w2))"
    by (rule shrinks_mono [OF 2]) (auto simp: prod_eq_iff)
  ultimately show ?case by (auto simp: split_beta Let_def intro: shrinks_trans)
qed (simp add: shrinks_refl)

lemma shrinks_clean_phase:
  "shrinks {p. parent_dir p = rc_clips_path cfg \<or> parent_dir (parent_dir p) = rc_hls_path cfg}
     (nv_fs s) (nv_fs (clean_phase cfg env s))"
proof -
  let ?A = "{p. parent_dir p = rc_clips_path cfg \<or> parent_dir (parent_dir p) = rc_hls_path cfg}"
  have "shrinks ?A w (snd (clean_clips cfg now w))" for now w
    by (auto simp: clean_clips_def files_in_def intro!: shrinks_refl shrinks_sweep)
  moreover have "shrinks ?A w (snd (clean_hls_cache cfg now w))" for now w
    by (auto simp: clean_hls_cache_def intro!: shrinks_refl shrinks_mono [OF shrinks_clean_hls_dirs])
  ultimately show ?thesis unfolding clean_phase_def by simp (rule shrinks_trans)
qed

lemma nvr_ok_clean_phase [inv_intros]: "nvr_ok cfg s \<Longrightarrow> nvr_ok cfg (clean_phase cfg env s)"
  by (rule nvr_okI [OF _ _ shrinks_clean_phase])
    (auto simp: clean_phase_def nvr_ok_def segment_home_def)

lemma nvr_ok_run_once [inv_intros]:
  assumes "nvr_ok cfg s"
  shows "nvr_ok cfg (snd (run_once cfg env s))"
proof -
  let ?s0 = "s\<lparr>nv_ret := (nv_ret s)\<lparr>rs_prev_wall := Some (pe_now env), rs_prev_mono := Some (pe_mono env)\<rparr>\<rparr>"
  let ?s1 = "snd (if age_cleanup_ok cfg env (nv_ret s)
    then age_out cfg env (camera_retention_map cfg env (nv_db ?s0)) ?s0 else ([], ?s0))"
  have "nvr_ok cfg ?s1" using assms by (auto intro: inv_intros)
  then have "nvr_ok cfg (snd (enforce_disk_floor cfg env (cap_phase cfg env ?s1)))" by (intro inv_intros)
  then show ?thesis
    unfolding run_once_def Let_def split_beta
    by (auto intro: inv_intros split: option.split)
qed

subsection \<open>Properties of a pass\<close>

lemma set_get_cameras [simp]: "set (get_cameras db) = r_camera ` set (db_rows db)"
  by (simp add: get_cameras_def)

lemma distinct_get_cameras: "distinct (get_cameras db)"
  by (simp add: get_cameras_def)

lemma map_of_const: "map_of (map (\<lambda>n. (n, v)) ns) k = (if k \<in> set ns then Some v else None)"
  by (induction ns) auto




text \<open>
  Whose retention wins. For dictionaries with distinct keys the effective retention of a camera
  is the runtime provider's when it names the camera with a non-zero number of days, else the
  YAML entry (the default where it sets none), else the default for any camera that still has
  indexed footage, and the camera is absent otherwise; a provider that raises changes nothing.
\<close>

theorem camera_retention_map_precedence:
  assumes "distinct (map fst (rc_cameras cfg))"
    and "\<And>m. pe_retention env = Answers (Some m) \<Longrightarrow> distinct (map fst m)"
  shows "map_of (camera_retention_map cfg env db) c =
    (case (case pe_retention env of Answers (Some m) \<Rightarrow> map_of m c | _ \<Rightarrow> None) of
       Some (Some d) \<Rightarrow> if d \<noteq> 0 then Some d else
         (case map_of (rc_cameras cfg) c of Some (Some k) \<Rightarrow> Some k | Some None \<Rightarrow> Some (rc_default_days cfg)
          | None \<Rightarrow> if c \<in> r_camera ` set (db_rows db) then Some (rc_default_days cfg) else None)
     | _ \<Rightarrow>
         (case map_of (rc_cameras cfg) c of Some (Some k) \<Rightarrow> Some k | Some None \<Rightarrow> Some (rc_default_days cfg)
          | None \<Rightarrow> if c \<in> r_camera ` set (db_rows db) then Some (rc_default_days cfg) else None))"
proof -
  have base: "map_of (overlay Some (map (\<lambda>n. (n, rc_default_days cfg)) (get_cameras db)) []) c =
      (if c \<in> r_camera ` set (db_rows db) then Some (rc_default_days cfg) else None)"
    by (subst map_of_overlay) (auto simp: map_of_const comp_def distinct_get_cameras)
  show ?thesis
    using assms unfolding camera_retention_map_def Let_def
    by (simp add: map_of_overlay base split: provider.split option.split
        del: map_of_eq_Some_iff Some_eq_map_of_iff)
qed

theorem camera_retention_map_precedence_witness:
  "map_of (camera_retention_map
     \<lparr>rc_cameras = [(''gate'', Some 7), (''yard'', None)], rc_clips_path = ''/c'', rc_clip_ttl = 1800,
      rc_hls_ttl = 21600, rc_hls_path = ''/c/hls'', rc_storage_path = Some ''/n'', rc_max_storage_bytes = None,
      rc_default_days = 30, rc_clock_jump_threshold = 300\<rparr>
     \<lparr>pe_now = 0, pe_mono = 0, pe_stamp = 0, pe_retention = Answers (Some [(''gate'', Some 14), (''yard'', Some 0)]),
      pe_cap = No_provider, pe_usage = (\<lambda>_. None)\<rparr> empty_db) ''yard'' = Some 30"
  by (subst camera_retention_map_precedence) simp_all


definition healthy :: "pass_env \<Rightarrow> fs \<Rightarrow> bool" where
  "healthy env w \<longleftrightarrow> (\<exists>u. pe_usage env w = Some u \<and> of_int (du_free u) \<ge> of_int (du_total u) * disk_floor_free_pct / 100)"

definition under_cap :: "retention_cfg \<Rightarrow> pass_env \<Rightarrow> nvr \<Rightarrow> bool" where
  "under_cap cfg env s \<longleftrightarrow> (\<forall>l. size_limit cfg env = Some l \<longrightarrow> total_size None (nv_db s) \<le> l)"

lemma disk_floor_healthy: "healthy env (nv_fs s) \<Longrightarrow> enforce_disk_floor cfg env s = (Some 0, s)"
  by (auto simp: healthy_def enforce_disk_floor_def Let_def)

lemma cap_phase_under: "under_cap cfg env s \<Longrightarrow> cap_phase cfg env s = s"
  by (auto simp: under_cap_def cap_phase_def split: option.split)

text \<open>
  The clock-jump guard. On the first pass after start-up, or when the wall clock moved against
  the monotonic clock by more than the threshold, a pass with the index under its cap and the
  disk healthy deletes nothing at all: index and file system are unchanged, and only the clock
  baseline is updated, so that the next pass compares against this one.
\<close>

theorem untrusted_clock_deletes_nothing:
  assumes "rs_prev_mono (nv_ret s) = None \<or>
      (\<exists>pm pw. rs_prev_mono (nv_ret s) = Some pm \<and> rs_prev_wall (nv_ret s) = Some pw \<and>
         rc_clock_jump_threshold cfg < \<bar>(pe_now env - pw) - (pe_mono env - pm)\<bar>)"
    and "under_cap cfg env s" and "healthy env (nv_fs s)"
  shows "run_once cfg env s = (Some [], s\<lparr>nv_ret := (nv_ret s)\<lparr>rs_prev_wall := Some (pe_now env),
    rs_prev_mono := Some (pe_mono env)\<rparr>\<rparr>)"
proof -
  let ?s0 = "s\<lparr>nv_ret := (nv_ret s)\<lparr>rs_prev_wall := Some (pe_now env), rs_prev_mono := Some (pe_mono env)\<rparr>\<rparr>"
  have "\<not> age_cleanup_ok cfg env (nv_ret s)"
    using assms(1) by (auto simp: age_cleanup_ok_def split: option.split)
  moreover have "cap_phase cfg env ?s0 = ?s0"
    by (rule cap_phase_under) (use assms(2) in \<open>simp add: under_cap_def\<close>)
  moreover have "enforce_disk_floor cfg env ?s0 = (Some 0, ?s0)"
    by (rule disk_floor_healthy) (use assms(3) in simp)
  ultimately show ?thesis by (simp add: run_once_def)
qed


lemma cap_phase_total:
  assumes "db_ok (nv_db s)" and "size_limit cfg env = Some limit" and "0 \<le> limit"
    and "\<forall>r \<in> set (db_rows (nv_db s)). \<not> fs_unlink_err (nv_fs s) (r_path r)"
  shows "total_size None (nv_db (cap_phase cfg env s)) \<le> limit \<and>
    (total_size None (nv_db s) \<le> limit \<longrightarrow> cap_phase cfg env s = s)"
proof -
  let ?cs = "select_oldest_until_under limit (nv_db s)"
  obtain rs where rs: "?cs = map cand rs" "set rs \<subseteq> set (db_rows (nv_db s))" by (rule selection_rows)
  have "filter (unlinkable (nv_fs s)) ?cs = ?cs"
  proof (rule filter_True, rule ballI)
    fix c assume "c \<in> set ?cs"
    then obtain r where "r \<in> set (db_rows (nv_db s))" "c = cand r"
      using rs by auto
    with assms(4) show "unlinkable (nv_fs s) c" by (simp add: unlinkable_def cand_def)
  qed
  then have "nv_db (snd (delete_candidates ?cs s)) = delete_by_ids (map fst ?cs) (nv_db s)"
    by (simp add: delete_candidates_spec)
  with idx.evict_all [OF assms(1,3)] show ?thesis
    by (auto simp: cap_phase_def assms(2) enforce_size_cap_def Let_def split_beta)
qed

text \<open>
  The size cap holds. When no indexed file refuses to be unlinked, the cap phase brings the
  indexed total to the configured limit or below; an index already under the limit is left alone.
\<close>

theorem cap_phase_enforces_limit:
  assumes "db_ok (nv_db s)" and "size_limit cfg env = Some limit" and "0 \<le> limit"
    and "\<forall>r \<in> set (db_rows (nv_db s)). \<not> fs_unlink_err (nv_fs s) (r_path r)"
  shows "total_size None (nv_db (cap_phase cfg env s)) \<le> limit \<and>
    (total_size None (nv_db s) \<le> limit \<longrightarrow> cap_phase cfg env s = s)"
  using assms by (rule cap_phase_total)

subsection \<open>The disk floor recovers\<close>






lemma fs_ok_delete_candidates [inv_intros]:
  "fs_ok (nv_fs s) \<Longrightarrow> fs_ok (nv_fs (snd (delete_candidates cs s)))"
  by (auto simp: fs_ok_def delete_candidates_spec distinct_map_filter_key)


definition recovered :: "rat \<Rightarrow> int \<Rightarrow> nvr \<Rightarrow> bool" where
  "recovered target room s \<longleftrightarrow> target < of_int (room - fs_bytes (nv_fs s)) + 1 \<or> total_size None (nv_db s) \<le> 0"






text \<open>
  The floor is an emergency measure only. Whatever the providers answer, \<open>enforce_disk_floor\<close>
  changes nothing while at least 5 percent of the volume is free, while another invocation
  holds the lock, when the volume cannot be measured, or when no storage path is configured; and
  when it does act without recovering from the cache alone, it counts one event.
\<close>

theorem disk_floor_only_in_emergency:
  "(if rc_storage_path cfg = None \<or> rs_disk_floor_locked (nv_ret s) \<or> pe_usage env (nv_fs s) = None \<or>
       healthy env (nv_fs s)
    then enforce_disk_floor cfg env s = (Some 0, s)
    else rs_disk_floor_events (nv_ret (snd (enforce_disk_floor cfg env s)))
         \<in> {rs_disk_floor_events (nv_ret s), rs_disk_floor_events (nv_ret s) + 1} \<and>
       (nv_db (snd (enforce_disk_floor cfg env s)) \<noteq> nv_db s \<longrightarrow>
        rs_disk_floor_events (nv_ret (snd (enforce_disk_floor cfg env s))) = rs_disk_floor_events (nv_ret s) + 1))"
proof -
  have loop: "nv_ret (snd (floor_loop n env target tot s)) = nv_ret s" for n target tot s
    by (induction n arbitrary: tot s) (auto simp: Let_def split_beta split: option.split)
  have ev: "rs_disk_floor_events (nv_ret (snd (evict_to_target env target s))) = rs_disk_floor_events (nv_ret s) + 1"
    for target s
    using loop [of disk_floor_max_passes target 0 "note_disk_floor env s"]
    by (auto simp: evict_to_target_def note_disk_floor_def Let_def split: prod.splits option.splits)
  show ?thesis
    by (auto simp: healthy_def enforce_disk_floor_def Let_def split_beta ev split: option.splits)
qed

subsection \<open>A concrete recorder, for the witnesses\<close>

definition demo_cfg :: retention_cfg where
  "demo_cfg = \<lparr>rc_cameras = [], rc_clips_path = ''/c'', rc_clip_ttl = 1800, rc_hls_ttl = 21600,
     rc_hls_path = ''/c/h'', rc_storage_path = Some ''/n'', rc_max_storage_bytes = None,
     rc_default_days = 30, rc_clock_jump_threshold = 300\<rparr>"

definition demo_db :: index_db where
  "demo_db = \<lparr>db_rows =
     [\<lparr>r_id = 1, r_camera = ''g'', r_start = 100, r_duration = 60, r_path = ''/n/g/a.ts'', r_size = 40, r_groomed = False\<rparr>,
      \<lparr>r_id = 2, r_camera = ''g'', r_start = 160, r_duration = 60, r_path = ''/n/g/b.ts'', r_size = 30, r_groomed = False\<rparr>],
     db_seq = 2\<rparr>"

definition demo_fs :: fs where
  "demo_fs = \<lparr>fs_files = [(''/n/g/a.ts'', \<lparr>fi_size = 40, fi_mtime = 160\<rparr>), (''/n/g/b.ts'', \<lparr>fi_size = 30, fi_mtime = 220\<rparr>)],
     fs_dirs = [''/n'', ''/n/g'', ''/c''], fs_unlink_err = (\<lambda>_. False), fs_stat_err = (\<lambda>_. False)\<rparr>"

definition demo_env :: pass_env where
  "demo_env = \<lparr>pe_now = 3000000, pe_mono = 3600, pe_stamp = 3000000, pe_retention = No_provider, pe_cap = No_provider,
     pe_usage = (\<lambda>w. Some \<lparr>du_total = 1000, du_used = fs_bytes w, du_free = 1000 - fs_bytes w\<rparr>)\<rparr>"

definition demo_state :: nvr where
  "demo_state = \<lparr>nv_db = demo_db, nv_fs = demo_fs, nv_ret = initial_retention_state\<rparr>"

lemmas demo_defs = demo_cfg_def demo_db_def demo_fs_def demo_env_def demo_state_def initial_retention_state_def

lemma demo_ok: "nvr_ok demo_cfg demo_state"
  by (simp add: nvr_ok_def demo_defs db_ok_def mirrored_def segment_home_def parent_dir_def path_parts_def
      path_join_def py_startswith_def)



theorem two_phase_delete_witness:
  "fst (delete_candidates (select_oldest_until_under 50 demo_db) demo_state) = 40 \<and>
   mirrored (nv_db (snd (delete_candidates (select_oldest_until_under 50 demo_db) demo_state)))
     (nv_fs (snd (delete_candidates (select_oldest_until_under 50 demo_db) demo_state)))"
proof -
  have nv: "nv_db demo_state = demo_db" by (simp add: demo_state_def)
  obtain f s' where d: "delete_candidates (select_oldest_until_under 50 demo_db) demo_state = (f, s')" by fastforce
  then have "f = 40"
    by (simp add: delete_candidates_def select_oldest_until_under_def demo_defs total_size_def camera_rows_def
        rows_size_def unlink_def Let_def)
  moreover have "mirrored (nv_db s') (nv_fs s')"
    using two_phase_delete [of demo_state 50 f s'] d demo_ok by (simp add: nvr_ok_def nv)
  ultimately show ?thesis by (simp add: d)
qed

theorem untrusted_clock_deletes_nothing_witness:
  "fst (run_once demo_cfg demo_env demo_state) = Some [] \<and>
   nv_db (snd (run_once demo_cfg demo_env demo_state)) = demo_db"
proof -
  have "run_once demo_cfg demo_env demo_state = (Some [], demo_state\<lparr>nv_ret := (nv_ret demo_state)
      \<lparr>rs_prev_wall := Some (pe_now demo_env), rs_prev_mono := Some (pe_mono demo_env)\<rparr>\<rparr>)"
    by (rule untrusted_clock_deletes_nothing)
      (simp_all add: demo_defs under_cap_def size_limit_def healthy_def disk_floor_free_pct_def fs_bytes_def)
  then show ?thesis by (simp add: demo_state_def)
qed




theorem cap_phase_enforces_limit_witness:
  "total_size None (nv_db (cap_phase (demo_cfg\<lparr>rc_max_storage_bytes := Some 50\<rparr>) demo_env demo_state)) \<le> 50"
  using cap_phase_enforces_limit [of demo_state "demo_cfg\<lparr>rc_max_storage_bytes := Some 50\<rparr>" demo_env 50] demo_ok
  by (simp add: size_limit_def nvr_ok_def demo_defs)


subsection \<open>What the HLS purge reports\<close>

text \<open>
  \<open>_purge_hls_cache\<close> adds a file's size before the unlink, so a file that cannot be removed is
  reported as reclaimed.
\<close>

lemma purge_counts_refused_unlinks:
  "purge_files [''/c/h/x''] (demo_fs\<lparr>fs_files := [(''/c/h/x'', \<lparr>fi_size = 7, fi_mtime = 0\<rparr>)], fs_unlink_err := (\<lambda>_. True)\<rparr>) =
    (7, demo_fs\<lparr>fs_files := [(''/c/h/x'', \<lparr>fi_size = 7, fi_mtime = 0\<rparr>)], fs_unlink_err := (\<lambda>_. True)\<rparr>)"
  by (simp add: demo_fs_def try_unlink_def unlink_def)

definition tight_env :: pass_env where
  "tight_env = demo_env\<lparr>pe_usage := (\<lambda>w. Some \<lparr>du_total = 1000, du_used = 0, du_free = 100 - fs_bytes w\<rparr>)\<rparr>"

theorem disk_floor_only_in_emergency_witness:
  "nv_db (snd (enforce_disk_floor demo_cfg tight_env demo_state)) \<noteq> demo_db \<and>
   rs_disk_floor_events (nv_ret (snd (enforce_disk_floor demo_cfg tight_env demo_state))) = 1"
proof -
  have db: "nv_db (snd (enforce_disk_floor demo_cfg tight_env demo_state)) = \<lparr>db_rows = [], db_seq = 2\<rparr>"
    by (simp add: enforce_disk_floor_def tight_env_def demo_defs disk_floor_free_pct_def disk_target_free_pct_def
        fs_bytes_def purge_hls_cache_def evict_to_target_def note_disk_floor_def disk_floor_max_passes_def
        numeral_eq_Suc want_bytes_def py_int_def total_size_def camera_rows_def rows_size_def
        select_oldest_until_under_def delete_candidates_def unlink_def delete_by_ids_def delete_chunks_eq
        AList.delete_eq Let_def)
  show ?thesis
    using disk_floor_only_in_emergency [of demo_cfg demo_state tight_env] db
    by (simp add: tight_env_def demo_defs healthy_def fs_bytes_def disk_floor_free_pct_def split: if_splits)
qed

end
