(* ===== verification/Stream_Worker.thy ===== *)
theory Stream_Worker
  imports Retention
begin

text \<open>
  One camera's recorder, \<open>services/nvr/recorder/stream_worker.py\<close> and \<open>masking.py\<close>: the ffmpeg
  command, the segment names, the CSV watcher with its filename watermark, the reconciliation of
  directory and index, the reconnect backoff and the segment-roll watchdog. ffmpeg and ffprobe are
  parameters (the CSV lines that were written, the probed durations and resolution); so is the
  local time zone, a function from calendar fields to epochs. The rasterizing of the mask image
  (Pillow) and the stderr thread are not modelled.
\<close>

subsection \<open>Credentials in log lines\<close>

definition is_word :: "char \<Rightarrow> bool" where
  \<comment> \<open>\<open>\w\<close> on ASCII\<close>
  "is_word c = (let n = of_char c :: nat in
     (48 \<le> n \<and> n \<le> 57) \<or> (65 \<le> n \<and> n \<le> 90) \<or> (97 \<le> n \<and> n \<le> 122) \<or> n = 95)"

definition is_user_char :: "char \<Rightarrow> bool" where
  "is_user_char c \<longleftrightarrow> c \<noteq> CHR '':'' \<and> c \<noteq> CHR ''/'' \<and> c \<noteq> CHR ''@'' \<and> \<not> is_space c"

definition split_last_at :: "string \<Rightarrow> (string \<times> string) option" where
  \<comment> \<open>greedy \<open>(\S+)@\<close> within one token: the text before and after the last \<open>@\<close> that has a text before it\<close>
  "split_last_at tok =
     (let r = rev tok; tail = rev (takeWhile (\<lambda>c. c \<noteq> CHR ''@'') r)
      in case dropWhile (\<lambda>c. c \<noteq> CHR ''@'') r of
           [] \<Rightarrow> None
         | _ # pw \<Rightarrow> if pw = [] then None else Some (rev pw, tail))"

definition cred_match :: "string \<Rightarrow> (string \<times> string) option" where
  \<comment> \<open>a match of \<open>_CRED_RE\<close> at the start of the text: group 1, and what follows the match\<close>
  "cred_match s =
     (let w = takeWhile is_word s; r = dropWhile is_word s; r3 = drop 3 r; u = takeWhile is_user_char r3
      in if w = [] \<or> take 3 r \<noteq> ''://'' then None
         else case dropWhile is_user_char r3 of
                [] \<Rightarrow> None
              | c # t \<Rightarrow>
                  if c \<noteq> CHR '':'' then None
                  else (case split_last_at (takeWhile (\<lambda>x. \<not> is_space x) t) of
                          None \<Rightarrow> None
                        | Some (pw, tail) \<Rightarrow>
                            Some (w @ ''://'' @ u, tail @ dropWhile (\<lambda>x. \<not> is_space x) t)))"

lemma length_split_while: "length (takeWhile P xs) + length (dropWhile P xs) = length xs"
  by (metis length_append takeWhile_dropWhile_id)

lemma split_last_at_length:
  assumes "split_last_at tok = Some (pw, tail)"
  shows "length tail < length tok"
proof -
  let ?P = "\<lambda>c. c \<noteq> CHR ''@''"
  obtain x xs where "dropWhile ?P (rev tok) = x # xs" and "tail = rev (takeWhile ?P (rev tok))"
    using assms unfolding split_last_at_def Let_def by (cases "dropWhile ?P (rev tok)") (auto split: if_splits)
  then show ?thesis using length_split_while [of ?P "rev tok"] by simp
qed

lemma cred_match_length:
  assumes "cred_match s = Some (kept, rest)"
  shows "length rest < length s"
proof -
  let ?r3 = "drop 3 (dropWhile is_word s)"
  obtain c t pw tail where t: "dropWhile is_user_char ?r3 = c # t"
    "split_last_at (takeWhile (\<lambda>x. \<not> is_space x) t) = Some (pw, tail)"
    "rest = tail @ dropWhile (\<lambda>x. \<not> is_space x) t"
    using assms by (auto simp: cred_match_def Let_def split: if_splits list.splits option.splits)
  have "length rest < length t"
    using split_last_at_length [OF t(2)] t(3) length_split_while [of "\<lambda>x. \<not> is_space x" t] by simp
  moreover have "length (c # t) \<le> length ?r3" by (metis t(1) length_dropWhile_le)
  moreover have "length ?r3 \<le> length s"
    by (metis length_drop diff_le_self le_trans length_dropWhile_le)
  ultimately show ?thesis by simp
qed

function redact_credentials :: "string \<Rightarrow> string" where
  "redact_credentials s =
     (case s of
        [] \<Rightarrow> []
      | c # cs \<Rightarrow>
          (case cred_match s of
             Some (kept, rest) \<Rightarrow> kept @ '':***@'' @ redact_credentials rest
           | None \<Rightarrow> c # redact_credentials cs))"
  by pat_completeness auto
termination
  by (relation "measure length") (auto dest: cred_match_length)

declare redact_credentials.simps [simp del]


subsection \<open>Segment names\<close>

type_synonym civil = "nat \<times> nat \<times> nat \<times> nat \<times> nat \<times> nat"
  \<comment> \<open>year, month, day, hour, minute, second\<close>

definition leap_year :: "nat \<Rightarrow> bool" where
  "leap_year y \<longleftrightarrow> y mod 4 = 0 \<and> (y mod 100 \<noteq> 0 \<or> y mod 400 = 0)"

definition days_in_month :: "nat \<Rightarrow> nat \<Rightarrow> nat" where
  "days_in_month y m =
     (if m = 2 then (if leap_year y then 29 else 28) else if m = 4 \<or> m = 6 \<or> m = 9 \<or> m = 11 then 30 else 31)"

fun civil_ok :: "civil \<Rightarrow> bool" where
  \<comment> \<open>what \<open>strptime\<close> and the \<open>datetime\<close> constructor accept from 14 digits\<close>
  "civil_ok (y, mo, d, h, mi, s) \<longleftrightarrow>
     1 \<le> y \<and> y \<le> 9999 \<and> 1 \<le> mo \<and> mo \<le> 12 \<and> 1 \<le> d \<and> d \<le> days_in_month y mo \<and> h < 24 \<and> mi < 60 \<and> s < 60"

fun segment_name :: "string \<Rightarrow> civil \<Rightarrow> string" where
  \<comment> \<open>ffmpeg's expansion of \<open>{camera}_%Y%m%d_%H%M%S.ts\<close>\<close>
  "segment_name camera (y, mo, d, h, mi, s) =
     camera @ ''_'' @ pad_digits 4 y @ pad_digits 2 mo @ pad_digits 2 d @ ''_'' @
     pad_digits 2 h @ pad_digits 2 mi @ pad_digits 2 s @ ''.ts''"

definition is_digit :: "char \<Rightarrow> bool" where
  "is_digit c \<longleftrightarrow> digit_value c \<noteq> None"

definition digits_nat :: "string \<Rightarrow> nat" where
  "digits_nat ds = foldl (\<lambda>a c. a * 10 + nat (the (digit_value c))) 0 ds"

definition parse_stamp :: "string \<Rightarrow> string \<Rightarrow> civil" where
  "parse_stamp ymd hms =
     (digits_nat (take 4 ymd), digits_nat (take 2 (drop 4 ymd)), digits_nat (drop 6 ymd),
      digits_nat (take 2 hms), digits_nat (take 2 (drop 2 hms)), digits_nat (drop 4 hms))"

definition match_stamp :: "string \<Rightarrow> (string \<times> string) option" where
  \<comment> \<open>\<open>re.search(r"(\d{8})_(\d{6})\.ts$")\<close>; the \<open>$\<close> also matches before a final newline\<close>
  "match_stamp filename =
     (let n = (if filename \<noteq> [] \<and> last filename = CHR 0x0A then butlast filename else filename);
          t = drop (length n - 18) n
      in if length n \<ge> 18 \<and> list_all is_digit (take 8 t) \<and> t ! 8 = CHR ''_'' \<and>
            list_all is_digit (take 6 (drop 9 t)) \<and> drop 15 t = ''.ts''
         then Some (take 8 t, take 6 (drop 9 t)) else None)"

definition parse_filename_time :: "(civil \<Rightarrow> epoch) \<Rightarrow> string \<Rightarrow> epoch option" where
  "parse_filename_time local_epoch filename =
     (case match_stamp filename of
        None \<Rightarrow> None
      | Some (ymd, hms) \<Rightarrow>
          let c = parse_stamp ymd hms in if civil_ok c then Some (local_epoch c) else None)"

subsection \<open>The worker\<close>

record worker =
  wk_camera :: string
  wk_url :: string
  wk_dir :: path
  wk_duration :: int
  wk_transport :: string
  wk_base_delay :: rat
  wk_loglevel :: string
  wk_masks :: "json list"
  wk_process :: "bool option"    \<comment> \<open>\<open>_process\<close>: whether it still runs\<close>
  wk_thread_alive :: bool
  wk_stop :: bool                \<comment> \<open>\<open>_stop_event\<close>\<close>
  wk_running :: bool
  wk_watermark :: string
  wk_last_indexed_at :: "epoch option"
  wk_segments_indexed :: int
  wk_backoff :: rat

definition new_worker ::
  "string \<Rightarrow> string \<Rightarrow> path \<Rightarrow> int \<Rightarrow> string \<Rightarrow> rat \<Rightarrow> string \<Rightarrow> json list \<Rightarrow> worker" where
  "new_worker camera url storage duration transport delay loglevel masks =
     \<lparr>wk_camera = camera, wk_url = url, wk_dir = path_join storage camera, wk_duration = duration,
      wk_transport = transport, wk_base_delay = delay, wk_loglevel = loglevel, wk_masks = masks,
      wk_process = None, wk_thread_alive = False, wk_stop = False, wk_running = False, wk_watermark = [],
      wk_last_indexed_at = None, wk_segments_indexed = 0, wk_backoff = delay\<rparr>"

definition worker_start :: "worker \<Rightarrow> worker" where
  "worker_start w =
     (if wk_running w then w else w\<lparr>wk_stop := False, wk_running := True, wk_thread_alive := True\<rparr>)"

definition worker_stop :: "worker \<Rightarrow> worker" where
  \<comment> \<open>the recording thread is taken to end within the join's timeout\<close>
  "worker_stop w =
     (if \<not> wk_running w then w
      else w\<lparr>wk_stop := True, wk_process := None, wk_thread_alive := False, wk_running := False\<rparr>)"

definition worker_alive :: "worker \<Rightarrow> bool" where
  "worker_alive w \<longleftrightarrow> wk_running w \<and> wk_thread_alive w"

definition index_lag :: "epoch \<Rightarrow> worker \<Rightarrow> epoch option" where
  \<comment> \<open>the \<open>index_lag_seconds\<close> of \<open>get_metrics\<close>; a timestamp of 0 counts as unset\<close>
  "index_lag now w =
     (case wk_last_indexed_at w of Some t \<Rightarrow> if t \<noteq> 0 then Some (now - t) else None | None \<Rightarrow> None)"

subsection \<open>The segment-roll watchdog\<close>

definition is_wedged :: "rat option \<Rightarrow> rat option \<Rightarrow> int \<Rightarrow> bool" where
  "is_wedged open_for since_write duration =
     (case (open_for, since_write) of
        (Some a, Some b) \<Rightarrow> a > 3 * of_int duration \<and> b < 1 * of_int duration
      | _ \<Rightarrow> False)"

definition newest_segment_stat :: "(civil \<Rightarrow> epoch) \<Rightarrow> epoch \<Rightarrow> fs \<Rightarrow> worker \<Rightarrow> (rat \<times> rat) option" where
  \<comment> \<open>a directory that cannot be listed has no files here\<close>
  "newest_segment_stat local_epoch now f w =
     (case agg_max (map base_name (files_in (wk_dir w) ''.ts'' f)) of
        None \<Rightarrow> None
      | Some newest \<Rightarrow>
          (case parse_filename_time local_epoch newest of
             None \<Rightarrow> None
           | Some start_epoch \<Rightarrow>
               let p = path_join (wk_dir w) newest
               in if fs_stat_err f p then None
                  else case map_of (fs_files f) p of
                         None \<Rightarrow> None
                       | Some i \<Rightarrow> Some (now - start_epoch, now - fi_mtime i)))"

definition is_segment_stalled :: "(civil \<Rightarrow> epoch) \<Rightarrow> epoch \<Rightarrow> fs \<Rightarrow> worker \<Rightarrow> bool" where
  "is_segment_stalled local_epoch now f w =
     (if \<not> wk_running w \<or> wk_process w \<noteq> Some True then False
      else case newest_segment_stat local_epoch now f w of
             None \<Rightarrow> False
           | Some (open_for, since_write) \<Rightarrow> is_wedged (Some open_for) (Some since_write) (wk_duration w))"

subsection \<open>Indexing\<close>

record worker_env =
  we_now :: epoch
  we_local :: "civil \<Rightarrow> epoch"
  we_probe :: "path \<Rightarrow> rat option"   \<comment> \<open>\<open>_probe_duration\<close>: ffprobe's answer\<close>

definition mark_indexed :: "epoch \<Rightarrow> string \<Rightarrow> worker \<Rightarrow> worker" where
  "mark_indexed now filename w =
     w\<lparr>wk_watermark := (if filename > wk_watermark w then filename else wk_watermark w),
       wk_last_indexed_at := Some now, wk_segments_indexed := wk_segments_indexed w + 1,
       wk_backoff := wk_base_delay w\<rparr>"

definition csv_duration :: "worker_env \<Rightarrow> path \<Rightarrow> string list \<Rightarrow> rat option" where
  "csv_duration env p parts =
     (case (py_parse_float (py_strip (parts ! 1)), py_parse_float (py_strip (parts ! 2))) of
        (Some start_pts, Some end_pts) \<Rightarrow>
          if end_pts - start_pts \<le> 0 then we_probe env p else Some (end_pts - start_pts)
      | _ \<Rightarrow> we_probe env p)"

definition index_segment_line ::
  "worker_env \<Rightarrow> fs \<Rightarrow> string \<Rightarrow> worker \<times> index_db \<Rightarrow> (worker \<times> index_db) option" where
  \<comment> \<open>\<^term>\<open>None\<close>: an \<open>OSError\<close> of stat leaves the method\<close>
  "index_segment_line env f line st =
     (case st of (w, db) \<Rightarrow>
        let parts = split_on CHR '','' line; filename = py_strip (hd parts)
        in if length parts < 3 then Some (w, db)
           else if filename = [] \<or> \<not> py_endswith filename ''.ts'' then Some (w, db)
           else let p = (if py_startswith filename ''/'' then filename else path_join (wk_dir w) (base_name filename))
                in if fs_stat_err f p then None
                   else case map_of (fs_files f) p of
                          None \<Rightarrow> Some (w, db)
                        | Some i \<Rightarrow>
                            (case parse_filename_time (we_local env) (base_name p) of
                               None \<Rightarrow> Some (w, db)
                             | Some start_epoch \<Rightarrow>
                                 (case csv_duration env p parts of
                                    None \<Rightarrow> Some (w, db)
                                  | Some d \<Rightarrow>
                                      if d \<le> 0 then Some (w, db)
                                      else Some (mark_indexed (we_now env) (base_name p) w,
                                             add_segment \<lparr>seg_camera = wk_camera w, seg_start = start_epoch,
                                               seg_duration = d, seg_filepath = p, seg_size = fi_size i\<rparr> db))))"

fun watch_lines :: "worker_env \<Rightarrow> fs \<Rightarrow> string list \<Rightarrow> worker \<times> index_db \<Rightarrow> worker \<times> index_db" where
  \<comment> \<open>one poll of the watcher over the lines of the CSV; an exception ends the poll\<close>
  "watch_lines env f [] st = st"
| "watch_lines env f (line # rest) st =
     (let stripped = py_strip line; filename = py_strip (hd (split_on CHR '','' stripped))
      in if stripped = [] \<or> filename = [] \<or> base_name filename \<le> wk_watermark (fst st)
         then watch_lines env f rest st
         else case index_segment_line env f stripped st of
                None \<Rightarrow> st
              | Some st' \<Rightarrow> watch_lines env f rest st')"

definition watch_poll ::
  "worker_env \<Rightarrow> fs \<Rightarrow> string list option \<Rightarrow> worker \<times> index_db \<Rightarrow> worker \<times> index_db" where
  \<comment> \<open>one turn of the watcher's loop; \<^term>\<open>None\<close>: the CSV file does not exist\<close>
  "watch_poll env f csv st =
     (if wk_process (fst st) \<noteq> Some True \<or> wk_stop (fst st) then st
      else case csv of None \<Rightarrow> st | Some ls \<Rightarrow> watch_lines env f ls st)"

definition reconcile_file ::
  "worker_env \<Rightarrow> fs \<Rightarrow> int option \<Rightarrow> path list \<Rightarrow> path \<Rightarrow> worker \<Rightarrow> segment option" where
  \<comment> \<open>the body of the loop up to the insert; an \<open>OSError\<close> skips the file\<close>
  "reconcile_file env f lookback indexed p w =
     (if p \<in> set indexed then None
      else case parse_filename_time (we_local env) (base_name p) of
             None \<Rightarrow> None
           | Some start_epoch \<Rightarrow>
               if (case lookback of Some l \<Rightarrow> start_epoch < we_now env - of_int l | None \<Rightarrow> False) then None
               else if fs_stat_err f p then None
               else case map_of (fs_files f) p of
                      None \<Rightarrow> None
                    | Some i \<Rightarrow>
                        if we_now env - fi_mtime i < 5 then None
                        else case we_probe env p of
                               None \<Rightarrow> None
                             | Some d \<Rightarrow>
                                 if d \<le> 0 then None
                                 else Some \<lparr>seg_camera = wk_camera w, seg_start = start_epoch, seg_duration = d,
                                        seg_filepath = p, seg_size = fi_size i\<rparr>)"

fun reconcile_loop ::
  "worker_env \<Rightarrow> fs \<Rightarrow> int option \<Rightarrow> path list \<Rightarrow> path list \<Rightarrow> nat \<Rightarrow> worker \<times> index_db
    \<Rightarrow> nat \<times> worker \<times> index_db" where
  "reconcile_loop env f lookback indexed [] n st = (n, st)"
| "reconcile_loop env f lookback indexed (p # ps) n (w, db) =
     (case reconcile_file env f lookback indexed p w of
        None \<Rightarrow> reconcile_loop env f lookback indexed ps n (w, db)
      | Some s \<Rightarrow> reconcile_loop env f lookback indexed ps (n + 1)
                   (mark_indexed (we_now env) (base_name p) w, add_segment s db))"

definition reconcile ::
  "worker_env \<Rightarrow> fs \<Rightarrow> int option \<Rightarrow> worker \<times> index_db \<Rightarrow> nat \<times> worker \<times> index_db" where
  "reconcile env f lookback st =
     (if wk_dir (fst st) \<notin> set (fs_dirs f) then (0, st)
      else let cutoff = (case lookback of Some l \<Rightarrow> we_now env - of_int l | None \<Rightarrow> 0);
               indexed = get_indexed_filepaths_since (wk_camera (fst st)) cutoff (snd st)
           in reconcile_loop env f lookback indexed (files_in (wk_dir (fst st)) ''.ts'' f) 0 st)"

subsection \<open>The reconnect loop\<close>

definition max_backoff_seconds :: rat where "max_backoff_seconds = 60"
definition jitter_fraction :: rat where "jitter_fraction = 1 / 4"

definition compute_backoff_delay :: "rat \<Rightarrow> worker \<Rightarrow> rat" where
  \<comment> \<open>\<open>u\<close> is the random fraction in [0, 1] of \<open>random.uniform\<close>\<close>
  "compute_backoff_delay u w = wk_backoff w + u * (jitter_fraction * wk_backoff w)"

definition after_exit :: "worker \<Rightarrow> worker" where
  \<comment> \<open>the tail of one turn of \<open>_run_loop\<close>, after ffmpeg has exited\<close>
  "after_exit w =
     (if wk_stop w then w else w\<lparr>wk_backoff := min (wk_backoff w * 2) max_backoff_seconds\<rparr>)"

subsection \<open>The ffmpeg command and the privacy masks\<close>

definition mask_point_ok :: "json \<Rightarrow> bool" where
  "mask_point_ok pt =
     (case json_items pt of
        None \<Rightarrow> False
      | Some vs \<Rightarrow> length vs = 2 \<and>
          list_all (\<lambda>v. case json_float v of Some x \<Rightarrow> 0 \<le> x \<and> x \<le> 1 | None \<Rightarrow> False) vs)"

definition mask_ok :: "json \<Rightarrow> bool" where
  "mask_ok poly =
     (case poly of JArr pts \<Rightarrow> length pts \<ge> 3 \<and> list_all mask_point_ok pts | _ \<Rightarrow> False)"

definition parse_masks :: "json option option \<Rightarrow> json list" where
  \<comment> \<open>\<^term>\<open>None\<close>: no payload; \<^term>\<open>Some None\<close>: a text that is not JSON\<close>
  "parse_masks raw =
     (case raw of
        Some (Some (JArr masks)) \<Rightarrow> if list_all mask_ok masks then masks else []
      | _ \<Rightarrow> [])"




definition probe_resolution :: "int \<Rightarrow> string \<Rightarrow> (int \<times> int) option" where
  \<comment> \<open>from ffprobe's return code and standard output; \<^term>\<open>None\<close> is the raised error\<close>
  "probe_resolution returncode stdout =
     (case split_on CHR '','' (py_strip stdout) of
        a # b # _ \<Rightarrow>
          if returncode \<noteq> 0 then None
          else (case (py_parse_int a, py_parse_int b) of
                  (Some width, Some height) \<Rightarrow> if width \<le> 0 \<or> height \<le> 0 then None else Some (width, height)
                | _ \<Rightarrow> None)
      | _ \<Rightarrow> None)"

subsection \<open>Redaction hides the password\<close>

lemma takeWhile_stop: "(\<And>x. x \<in> set xs \<Longrightarrow> P x) \<Longrightarrow> ys = [] \<or> \<not> P (hd ys) \<Longrightarrow> takeWhile P (xs @ ys) = xs"
  by (cases ys) (simp_all add: takeWhile_append takeWhile_eq_all_conv [THEN iffD2])

lemma dropWhile_stop: "(\<And>x. x \<in> set xs \<Longrightarrow> P x) \<Longrightarrow> ys = [] \<or> \<not> P (hd ys) \<Longrightarrow> dropWhile P (xs @ ys) = ys"
  by (cases ys) (simp_all add: dropWhile_append)

lemma split_last_at_credential:
  assumes "pw \<noteq> []" and "CHR ''@'' \<notin> set host"
  shows "split_last_at (pw @ ''@'' @ host) = Some (pw, host)"
proof -
  let ?P = "\<lambda>c. c \<noteq> CHR ''@''"
  have "takeWhile ?P (rev host @ CHR ''@'' # rev pw) = rev host"
    and "dropWhile ?P (rev host @ CHR ''@'' # rev pw) = CHR ''@'' # rev pw"
    using assms(2) by (auto intro!: takeWhile_stop dropWhile_stop)
  then show ?thesis using assms(1) by (simp add: split_last_at_def)
qed

lemma cred_match_credential:
  assumes "scheme \<noteq> []" and "\<And>c. c \<in> set scheme \<Longrightarrow> is_word c" and "\<And>c. c \<in> set user \<Longrightarrow> is_user_char c"
    and "pw \<noteq> []" and "\<And>c. c \<in> set pw \<Longrightarrow> \<not> is_space c"
    and "CHR ''@'' \<notin> set host" and "\<And>c. c \<in> set host \<Longrightarrow> \<not> is_space c"
    and "rest = [] \<or> is_space (hd rest)"
  shows "cred_match (scheme @ ''://'' @ user @ '':'' @ pw @ ''@'' @ host @ rest) = Some (scheme @ ''://'' @ user, host @ rest)"
proof -
  let ?t = "pw @ ''@'' @ host @ rest"
  have w: "takeWhile is_word (scheme @ ''://'' @ user @ '':'' @ ?t) = scheme"
    "dropWhile is_word (scheme @ ''://'' @ user @ '':'' @ ?t) = ''://'' @ user @ '':'' @ ?t"
    using assms(2) by (auto intro!: takeWhile_stop dropWhile_stop simp: is_word_def)
  have u: "takeWhile is_user_char (user @ '':'' @ ?t) = user"
    "dropWhile is_user_char (user @ '':'' @ ?t) = '':'' @ ?t"
    using assms(3) by (auto intro!: takeWhile_stop dropWhile_stop simp: is_user_char_def)
  have ns: "\<not> is_space c" if "c \<in> set (pw @ ''@'' @ host)" for c
    using that assms(5,7) by (auto simp: is_space_def)
  have p: "takeWhile (\<lambda>x. \<not> is_space x) ((pw @ ''@'' @ host) @ rest) = pw @ ''@'' @ host"
    "dropWhile (\<lambda>x. \<not> is_space x) ((pw @ ''@'' @ host) @ rest) = rest"
    using ns assms(8) by (blast intro!: takeWhile_stop dropWhile_stop)+
  have "split_last_at (takeWhile (\<lambda>x. \<not> is_space x) ?t) = Some (pw, host)"
    using p(1) split_last_at_credential [OF assms(4,6)] by simp
  then show ?thesis
    unfolding cred_match_def Let_def w using u p(2) assms(1) by simp
qed

lemma cred_match_before:
  assumes "pre \<noteq> []" and "CHR '':'' \<notin> set pre" and "\<not> is_word (last pre)"
  shows "cred_match (pre @ s) = None"
proof -
  have "last pre \<in> set pre" using assms(1) by simp
  with assms(3) have "dropWhile is_word pre \<noteq> []" by (auto simp: dropWhile_eq_Nil_conv)
  then obtain x xs where d: "dropWhile is_word pre = x # xs" by (cases "dropWhile is_word pre") auto
  then have "dropWhile is_word (pre @ s) = x # xs @ s"
    by (metis append_Cons dropWhile_append dropWhile_eq_Nil_conv list.discI)
  moreover have "x \<in> set pre" by (metis d list.set_intros(1) set_dropWhileD)
  ultimately show ?thesis using assms(2) by (auto simp: cred_match_def Let_def)
qed

lemma redact_before:
  "CHR '':'' \<notin> set pre \<Longrightarrow> pre = [] \<or> \<not> is_word (last pre) \<Longrightarrow>
    redact_credentials (pre @ s) = pre @ redact_credentials s"
proof (induction pre)
  case (Cons c cs)
  have "redact_credentials ((c # cs) @ s) = c # redact_credentials (cs @ s)"
    using cred_match_before [of "c # cs" s] Cons.prems by (subst redact_credentials.simps) simp
  with Cons show ?case by (auto split: if_splits)
qed simp

lemma redact_match:
  assumes "cred_match s = Some (kept, rest)"
  shows "redact_credentials s = kept @ '':***@'' @ redact_credentials rest"
proof (cases s)
  case Nil
  with assms show ?thesis by (simp add: cred_match_def)
next
  case (Cons c cs)
  with assms show ?thesis by (subst redact_credentials.simps) simp
qed

text \<open>
  C19. The log line does not depend on the password. For a URL with inline credentials in a log line, after
  any text without a colon that does not end in a word character, the redacted line is the
  same whatever the password is, even one with slashes, colons or at-signs: user and host remain,
  the password is three stars.
\<close>

theorem redaction_hides_password:
  assumes "CHR '':'' \<notin> set pre" and "pre = [] \<or> \<not> is_word (last pre)"
    and "scheme \<noteq> []" and "\<forall>c \<in> set scheme. is_word c" and "\<forall>c \<in> set user. is_user_char c"
    and "pw \<noteq> []" and "\<forall>c \<in> set pw. \<not> is_space c"
    and "CHR ''@'' \<notin> set host" and "\<forall>c \<in> set host. \<not> is_space c"
    and "rest = [] \<or> is_space (hd rest)"
  shows "redact_credentials (pre @ scheme @ ''://'' @ user @ '':'' @ pw @ ''@'' @ host @ rest) =
    pre @ scheme @ ''://'' @ user @ '':***@'' @ redact_credentials (host @ rest)"
proof -
  let ?s = "scheme @ ''://'' @ user @ '':'' @ pw @ ''@'' @ host @ rest"
  have "cred_match ?s = Some (scheme @ ''://'' @ user, host @ rest)"
    by (rule cred_match_credential) (use assms in auto)
  then have "redact_credentials ?s = (scheme @ ''://'' @ user) @ '':***@'' @ redact_credentials (host @ rest)"
    by (rule redact_match)
  with redact_before [OF assms(1,2), of ?s] show ?thesis by simp
qed

theorem redaction_hides_password_witness:
  "redact_credentials ''-i rtsp://admin:p@ss/w@cam'' = ''-i rtsp://admin:***@'' @ redact_credentials ''cam''"
  using redaction_hides_password [of "''-i ''" "''rtsp''" "''admin''" "''p@ss/w''" "''cam''" "[]"]
  by (simp add: is_word_def is_user_char_def is_space_def)


subsection \<open>Segment names are chronological and parse back\<close>

lemma is_digit_pad: "list_all is_digit (pad_digits w n)"
  by (induction w arbitrary: n) (auto simp: is_digit_def)

lemma digits_nat_snoc: "d < 10 \<Longrightarrow> digits_nat (ds @ [digit_char d]) = digits_nat ds * 10 + d"
  by (simp add: digits_nat_def)

lemma digits_nat_pad: "n < 10 ^ w \<Longrightarrow> digits_nat (pad_digits w n) = n"
proof (induction w arbitrary: n)
  case (Suc w)
  then have "n div 10 < 10 ^ w" by auto
  with Suc.IH show ?case by (simp add: digits_nat_snoc)
qed (simp add: digits_nat_def)

lemma days_in_month_le: "days_in_month y m \<le> 31"
  by (simp add: days_in_month_def)

lemma civil_bounds:
  "civil_ok (y, mo, d, h, mi, s) \<Longrightarrow>
    y < 10 ^ 4 \<and> mo < 10 ^ 2 \<and> d < 10 ^ 2 \<and> h < 10 ^ 2 \<and> mi < 10 ^ 2 \<and> s < 10 ^ 2"
  using days_in_month_le [of y mo] by simp

definition stamp_of :: "civil \<Rightarrow> string" where
  "stamp_of c = (case c of (y, mo, d, h, mi, s) \<Rightarrow>
     pad_digits 4 y @ pad_digits 2 mo @ pad_digits 2 d @ ''_'' @ pad_digits 2 h @ pad_digits 2 mi @ pad_digits 2 s)"

lemma segment_name_stamp: "segment_name camera c = camera @ ''_'' @ stamp_of c @ ''.ts''"
  by (cases c) (simp add: stamp_of_def)

lemma match_stamp_name:
  assumes "list_all is_digit ymd" and "length ymd = 8" and "list_all is_digit hms" and "length hms = 6"
  shows "match_stamp (pre @ ymd @ ''_'' @ hms @ ''.ts'') = Some (ymd, hms)"
  using assms by (simp add: match_stamp_def Let_def nth_append)

lemma parse_segment_name:
  assumes "civil_ok c"
  shows "parse_filename_time local_epoch (segment_name camera c) = Some (local_epoch c)"
proof -
  obtain y mo d h mi s where c: "c = (y, mo, d, h, mi, s)" by (cases c)
  let ?ymd = "pad_digits 4 y @ pad_digits 2 mo @ pad_digits 2 d"
  let ?hms = "pad_digits 2 h @ pad_digits 2 mi @ pad_digits 2 s"
  have "match_stamp (segment_name camera c) = Some (?ymd, ?hms)"
    using match_stamp_name [of ?ymd ?hms "camera @ ''_''"] is_digit_pad by (simp add: c)
  moreover have "parse_stamp ?ymd ?hms = c"
    using civil_bounds [OF assms [unfolded c]] by (simp add: parse_stamp_def c digits_nat_pad del: civil_ok.simps)
  ultimately show ?thesis using assms by (simp add: parse_filename_time_def)
qed

lemma stamp_less:
  assumes "civil_ok a" and "civil_ok b"
  shows "stamp_of a < stamp_of b \<longleftrightarrow>
    (case (a, b) of ((y, mo, d, h, mi, s), (y', mo', d', h', mi', s')) \<Rightarrow> [y, mo, d, h, mi, s] < [y', mo', d', h', mi', s'])"
proof -
  obtain y mo d h mi s y' mo' d' h' mi' s' where c: "a = (y, mo, d, h, mi, s)" "b = (y', mo', d', h', mi', s')"
    by (cases a; cases b) auto
  show ?thesis
    using civil_bounds [OF assms(1) [unfolded c]] civil_bounds [OF assms(2) [unfolded c]]
    by (simp add: c stamp_of_def list_less_append_same_length pad_digits_less pad_digits_inj)
qed

fun civil_fields :: "civil \<Rightarrow> nat list" where
  "civil_fields (y, mo, d, h, mi, s) = [y, mo, d, h, mi, s]"

lemma segment_name_less:
  assumes "civil_ok a" and "civil_ok b"
  shows "segment_name camera a < segment_name camera b \<longleftrightarrow> civil_fields a < civil_fields b"
proof -
  have "length (stamp_of a) = length (stamp_of b)" by (simp add: stamp_of_def split: prod.split)
  then have "segment_name camera a < segment_name camera b \<longleftrightarrow> stamp_of a < stamp_of b"
    by (simp add: segment_name_stamp list_less_append_same_length)
  with stamp_less [OF assms] show ?thesis by (cases a; cases b) simp
qed

text \<open>
  C18. Segment names encode time. The start parsed back from the name ffmpeg gives a segment
  is the local epoch of the calendar time in it, and for two segments of one camera
  the lexical order of the names, which the watermark and the watchdog use, is
  the chronological order of their calendar times.
\<close>

theorem segment_names_chronological:
  assumes "civil_ok a" and "civil_ok b"
  shows "parse_filename_time local_epoch (segment_name camera a) = Some (local_epoch a) \<and>
    (segment_name camera a < segment_name camera b \<longleftrightarrow> civil_fields a < civil_fields b)"
  using segment_name_less [OF assms] parse_segment_name [OF assms(1)] by blast

theorem segment_names_chronological_witness:
  "segment_name ''cam'' (2026, 2, 28, 23, 59, 59) < segment_name ''cam'' (2026, 3, 1, 0, 0, 0)"
  using segment_names_chronological [of "(2026, 2, 28, 23, 59, 59)" "(2026, 3, 1, 0, 0, 0)" "\<lambda>_. 0" "''cam''"]
  by (simp add: days_in_month_def leap_year_def)


subsection \<open>Reconciliation\<close>

lemma mark_indexed_frame [frame_simps, simp]:
  "wk_camera (mark_indexed t n w) = wk_camera w" "wk_dir (mark_indexed t n w) = wk_dir w"
  "wk_url (mark_indexed t n w) = wk_url w" "wk_masks (mark_indexed t n w) = wk_masks w"
  "wk_running (mark_indexed t n w) = wk_running w" "wk_process (mark_indexed t n w) = wk_process w"
  "wk_base_delay (mark_indexed t n w) = wk_base_delay w" "wk_stop (mark_indexed t n w) = wk_stop w"
  "wk_thread_alive (mark_indexed t n w) = wk_thread_alive w"
  by (simp_all add: mark_indexed_def)

definition found_segments :: "worker_env \<Rightarrow> fs \<Rightarrow> int option \<Rightarrow> path list \<Rightarrow> path list \<Rightarrow> worker \<Rightarrow> segment list" where
  "found_segments env f lookback indexed ps w = List.map_filter (\<lambda>p. reconcile_file env f lookback indexed p w) ps"

lemma reconcile_file_camera:
  "wk_camera w = wk_camera w' \<Longrightarrow> reconcile_file env f lookback indexed p w = reconcile_file env f lookback indexed p w'"
  unfolding reconcile_file_def by (erule ssubst) (rule refl)

lemma found_segments_mark [simp]:
  "found_segments env f lb idx ps (mark_indexed t n w) = found_segments env f lb idx ps w"
  unfolding found_segments_def
  by (rule arg_cong [where f = "\<lambda>g. List.map_filter g ps"]) (rule ext, rule reconcile_file_camera, simp)

lemma reconcile_loop_result:
  "reconcile_loop env f lb idx ps n (w, db) =
    (n + length (found_segments env f lb idx ps w),
     fold (\<lambda>s. mark_indexed (we_now env) (base_name (seg_filepath s))) (found_segments env f lb idx ps w) w,
     fold add_segment (found_segments env f lb idx ps w) db)"
proof (induction ps arbitrary: n w db)
  case (Cons p ps)
  show ?case
  proof (cases "reconcile_file env f lb idx p w")
    case None
    then show ?thesis using Cons.IH by (simp add: found_segments_def map_filter_simps)
  next
    case (Some s)
    then have "seg_filepath s = p"
      by (auto simp: reconcile_file_def split: if_splits option.splits)
    moreover have "found_segments env f lb idx (p # ps) w = s # found_segments env f lb idx ps w"
      using Some by (simp add: found_segments_def map_filter_simps)
    ultimately show ?thesis using Cons.IH Some by simp
  qed
qed (simp add: found_segments_def map_filter_simps)

lemma found_segments_spec:
  "s \<in> set (found_segments env f lb idx ps w) \<longleftrightarrow>
    (\<exists>p i. p \<in> set ps \<and> p \<notin> set idx \<and> map_of (fs_files f) p = Some i \<and> \<not> fs_stat_err f p \<and>
      seg_filepath s = p \<and> seg_camera s = wk_camera w \<and> seg_size s = fi_size i \<and>
      parse_filename_time (we_local env) (base_name p) = Some (seg_start s) \<and>
      (\<forall>l. lb = Some l \<longrightarrow> we_now env - of_int l \<le> seg_start s) \<and> 5 \<le> we_now env - fi_mtime i \<and>
      we_probe env p = Some (seg_duration s) \<and> 0 < seg_duration s)"
  (is "_ \<longleftrightarrow> ?rhs")
proof -
  have "reconcile_file env f lb idx p w = Some s \<longleftrightarrow> (\<exists>i. p \<notin> set idx \<and> map_of (fs_files f) p = Some i \<and> \<not> fs_stat_err f p \<and>
      seg_filepath s = p \<and> seg_camera s = wk_camera w \<and> seg_size s = fi_size i \<and>
      parse_filename_time (we_local env) (base_name p) = Some (seg_start s) \<and>
      (\<forall>l. lb = Some l \<longrightarrow> we_now env - of_int l \<le> seg_start s) \<and> 5 \<le> we_now env - fi_mtime i \<and>
      we_probe env p = Some (seg_duration s) \<and> 0 < seg_duration s)" for p
    by (cases s) (auto simp: reconcile_file_def not_le not_less split: if_splits option.splits)
  then show ?thesis
    unfolding found_segments_def List.map_filter_def by (auto simp: Bex_def image_iff) (metis option.sel)+
qed

lemma found_segments_paths:
  "map seg_filepath (found_segments env f lb idx ps w) =
    filter (\<lambda>p. reconcile_file env f lb idx p w \<noteq> None) ps"
proof (induction ps)
  case (Cons p ps)
  have "seg_filepath s = p" if "reconcile_file env f lb idx p w = Some s" for s
    using that by (auto simp: reconcile_file_def split: if_splits option.splits)
  with Cons show ?case by (auto simp: found_segments_def map_filter_simps split: option.split)
qed (simp add: found_segments_def map_filter_simps)

lemma segment_of_added [simp]:
  "segment_of_row \<lparr>r_id = i, r_camera = seg_camera s, r_start = seg_start s, r_duration = seg_duration s,
     r_path = seg_filepath s, r_size = seg_size s, r_groomed = g\<rparr> = s"
  by (simp add: segment_of_row_def)

lemma fold_add_segment_old:
  "r \<in> set (db_rows db) \<Longrightarrow> r_path r \<notin> seg_filepath ` set ss \<Longrightarrow> r \<in> set (db_rows (fold add_segment ss db))"
  by (induction ss arbitrary: db) (auto simp: add_segment_rows)

lemma fold_add_segment_new:
  "distinct (map seg_filepath ss) \<Longrightarrow> s \<in> set ss \<Longrightarrow>
    \<exists>r \<in> set (db_rows (fold add_segment ss db)). segment_of_row r = s"
proof (induction ss arbitrary: db)
  case (Cons x ss)
  show ?case
  proof (cases "s = x")
    case True
    let ?r = "\<lparr>r_id = db_seq db + 1, r_camera = seg_camera s, r_start = seg_start s, r_duration = seg_duration s,
      r_path = seg_filepath s, r_size = seg_size s, r_groomed = False\<rparr>"
    have "?r \<in> set (db_rows (add_segment x db))" using True by (simp add: add_segment_rows)
    then have "?r \<in> set (db_rows (fold add_segment ss (add_segment x db)))"
      using Cons.prems(1) True by (intro fold_add_segment_old) (auto simp: image_iff)
    then show ?thesis by (metis fold_simps(2) segment_of_added)
  qed (use Cons in auto)
qed simp

lemma fold_add_segment_only:
  "r \<in> set (db_rows (fold add_segment ss db)) \<Longrightarrow>
    segment_of_row r \<in> set ss \<or> r \<in> set (db_rows db) \<and> r_path r \<notin> seg_filepath ` set ss"
proof (induction ss arbitrary: db)
  case (Cons x ss)
  then show ?case by (fastforce simp: add_segment_rows)
qed simp


lemma indexed_since_iff:
  "p \<in> set (get_indexed_filepaths_since c t db) \<longleftrightarrow>
    (\<exists>r \<in> set (db_rows db). r_path r = p \<and> r_camera r = c \<and> t \<le> r_start r)"
  by (auto simp: get_indexed_filepaths_since_def)

lemma fold_mark_camera [simp]:
  "wk_camera (fold (\<lambda>s. mark_indexed t (g s)) ss w) = wk_camera w"
  "wk_dir (fold (\<lambda>s. mark_indexed t (g s)) ss w) = wk_dir w"
  by (induction ss arbitrary: w) simp_all

text \<open>The files a pass with lookback \<open>l\<close> is responsible for.\<close>

definition recoverable :: "worker_env \<Rightarrow> fs \<Rightarrow> int \<Rightarrow> worker \<Rightarrow> path \<Rightarrow> bool" where
  "recoverable env f l w p \<longleftrightarrow>
     (\<exists>i start d. p \<in> set (files_in (wk_dir w) ''.ts'' f) \<and> map_of (fs_files f) p = Some i \<and> \<not> fs_stat_err f p \<and>
        parse_filename_time (we_local env) (base_name p) = Some start \<and> we_now env - of_int l \<le> start \<and>
        5 \<le> we_now env - fi_mtime i \<and> we_probe env p = Some d \<and> 0 < d)"

lemma reconcile_parts:
  assumes "wk_dir w \<in> set (fs_dirs f)"
  obtains idx ss where "idx = get_indexed_filepaths_since (wk_camera w) (we_now env - of_int l) db"
    and "ss = found_segments env f (Some l) idx (files_in (wk_dir w) ''.ts'' f) w"
    and "reconcile env f (Some l) (w, db) = (length ss,
      fold (\<lambda>s. mark_indexed (we_now env) (base_name (seg_filepath s))) ss w, fold add_segment ss db)"
  using assms by (simp add: reconcile_def Let_def reconcile_loop_result)

lemma found_recoverable:
  "s \<in> set (found_segments env f (Some l) idx (files_in (wk_dir w) ''.ts'' f) w) \<Longrightarrow>
    recoverable env f l w (seg_filepath s) \<and> seg_filepath s \<notin> set idx \<and> seg_camera s = wk_camera w \<and>
    we_now env - of_int l \<le> seg_start s"
  unfolding found_segments_spec recoverable_def by blast

lemma recoverable_found:
  "recoverable env f l w p \<Longrightarrow> p \<notin> set idx \<Longrightarrow>
    \<exists>s \<in> set (found_segments env f (Some l) idx (files_in (wk_dir w) ''.ts'' f) w). seg_filepath s = p"
proof -
  assume "recoverable env f l w p" and n: "p \<notin> set idx"
  then obtain i start d where r: "p \<in> set (files_in (wk_dir w) ''.ts'' f)" "map_of (fs_files f) p = Some i"
    "\<not> fs_stat_err f p" "parse_filename_time (we_local env) (base_name p) = Some start" "we_now env - of_int l \<le> start"
    "5 \<le> we_now env - fi_mtime i" "we_probe env p = Some d" "0 < d"
    unfolding recoverable_def by blast
  let ?s = "\<lparr>seg_camera = wk_camera w, seg_start = start, seg_duration = d, seg_filepath = p, seg_size = fi_size i\<rparr>"
  have "?s \<in> set (found_segments env f (Some l) idx (files_in (wk_dir w) ''.ts'' f) w)"
    unfolding found_segments_spec using r n by auto
  then show ?thesis by (metis segment.select_convs(4))
qed

lemma distinct_files_in: "fs_ok f \<Longrightarrow> distinct (files_in d e f)"
  by (simp add: files_in_def fs_ok_def)

lemma reconcile_covers:
  assumes ok: "fs_ok f" and ss: "ss = found_segments env f (Some l) idx (files_in (wk_dir w) ''.ts'' f) w"
    and idx: "idx = get_indexed_filepaths_since (wk_camera w) (we_now env - of_int l) db"
    and p: "recoverable env f l w p"
  shows "p \<in> set (get_indexed_filepaths_since (wk_camera w) (we_now env - of_int l) (fold add_segment ss db))"
proof (cases "p \<in> set idx")
  case True
  then obtain r where r: "r \<in> set (db_rows db)" "r_path r = p" "r_camera r = wk_camera w" "we_now env - of_int l \<le> r_start r"
    by (auto simp: idx indexed_since_iff)
  have "p \<notin> seg_filepath ` set ss" using found_recoverable True unfolding ss by blast
  then show ?thesis using r fold_add_segment_old by (auto simp: indexed_since_iff)
next
  case False
  have "map seg_filepath ss = filter (\<lambda>p. reconcile_file env f (Some l) idx p w \<noteq> None) (files_in (wk_dir w) ''.ts'' f)"
    unfolding ss by (rule found_segments_paths)
  then have "distinct (map seg_filepath ss)" using distinct_files_in [OF ok] by simp
  moreover obtain s where s: "s \<in> set ss" "seg_filepath s = p"
    using recoverable_found [OF p False] ss by blast
  ultimately obtain r where r: "r \<in> set (db_rows (fold add_segment ss db))" "segment_of_row r = s"
    using fold_add_segment_new by blast
  then have "r_path r = seg_filepath s" "r_camera r = seg_camera s" "r_start r = seg_start s"
    by (auto simp: segment_of_row_def)
  then show ?thesis using r s found_recoverable [OF s(1) [unfolded ss]] by (auto simp: indexed_since_iff)
qed

text \<open>
  C12. Reconciliation repairs the index and converges. Afterwards every recoverable segment file of
  the camera (name parses to a time inside the lookback, not written for five seconds, probed to a
  positive length) is indexed; every row added is such a file; rows
  of the camera inside the lookback are kept; and an immediate second pass adds nothing.
\<close>

theorem reconcile_recovers:
  assumes "reconcile env f (Some l) (w, db) = (n, w', db')" and "wk_dir w \<in> set (fs_dirs f)" and "fs_ok f"
  shows "(\<forall>p. recoverable env f l w p \<longrightarrow>
        p \<in> set (get_indexed_filepaths_since (wk_camera w) (we_now env - of_int l) db')) \<and>
    (\<forall>r \<in> set (db_rows db') - set (db_rows db). recoverable env f l w (r_path r) \<and> r_camera r = wk_camera w) \<and>
    (\<forall>r \<in> set (db_rows db). r_camera r = wk_camera w \<and> we_now env - of_int l \<le> r_start r \<longrightarrow> r \<in> set (db_rows db')) \<and>
    fst (reconcile env f (Some l) (w', db')) = 0"
proof -
  obtain idx ss where idx: "idx = get_indexed_filepaths_since (wk_camera w) (we_now env - of_int l) db"
    and ss: "ss = found_segments env f (Some l) idx (files_in (wk_dir w) ''.ts'' f) w"
    and r: "reconcile env f (Some l) (w, db) = (length ss,
      fold (\<lambda>s. mark_indexed (we_now env) (base_name (seg_filepath s))) ss w, fold add_segment ss db)"
    using reconcile_parts [OF assms(2)] by blast
  from r assms(1) have db': "db' = fold add_segment ss db"
    and w': "wk_camera w' = wk_camera w" "wk_dir w' = wk_dir w" by auto
  have covers: "p \<in> set (get_indexed_filepaths_since (wk_camera w) (we_now env - of_int l) db')"
    if "recoverable env f l w p" for p
    using reconcile_covers [OF assms(3) ss idx that] db' by simp
  have new: "recoverable env f l w (r_path r) \<and> r_camera r = wk_camera w" if "r \<in> set (db_rows db') - set (db_rows db)" for r
    using that fold_add_segment_only [of r ss db] found_recoverable [of "segment_of_row r" env f l idx w]
    unfolding db' ss by (auto simp: segment_of_row_def)
  have old: "r \<in> set (db_rows db')" if "r \<in> set (db_rows db)" "r_camera r = wk_camera w" "we_now env - of_int l \<le> r_start r" for r
  proof -
    have "r_path r \<in> set idx" using that by (auto simp: idx indexed_since_iff)
    then have "r_path r \<notin> seg_filepath ` set ss" unfolding ss by (auto dest: found_recoverable)
    with that(1) show ?thesis unfolding db' by (rule fold_add_segment_old)
  qed
  have "fst (reconcile env f (Some l) (w', db')) = 0"
  proof -
    have dir: "wk_dir w' \<in> set (fs_dirs f)" using assms(2) w' by simp
    have rec: "recoverable env f l w' = recoverable env f l w"
      by (rule ext) (simp add: recoverable_def w')
    let ?ss2 = "found_segments env f (Some l) (get_indexed_filepaths_since (wk_camera w') (we_now env - of_int l) db')
      (files_in (wk_dir w') ''.ts'' f) w'"
    have "s \<notin> set ?ss2" for s
    proof
      assume "s \<in> set ?ss2"
      with found_recoverable [OF this] covers [of "seg_filepath s"] show False by (simp add: rec w')
    qed
    then have "?ss2 = []" by (metis list.set_intros(1) neq_Nil_conv)
    then show ?thesis using reconcile_parts [OF dir, of env l db'] by (metis fst_conv list.size(3))
  qed
  with covers new old show ?thesis by blast
qed


definition demo_worker :: worker where
  "demo_worker = (worker_start (new_worker ''cam'' ''rtsp://cam'' ''/s'' 60 ''tcp'' 5 ''warning'' []))\<lparr>wk_process := Some True\<rparr>"

definition demo_segment_path :: path where
  "demo_segment_path = ''/s/cam/cam_20260101_000000.ts''"

definition demo_disk :: fs where
  "demo_disk = \<lparr>fs_files = [(demo_segment_path, \<lparr>fi_size = 7, fi_mtime = 100\<rparr>)], fs_dirs = [''/s/cam''],
     fs_unlink_err = (\<lambda>_. False), fs_stat_err = (\<lambda>_. False)\<rparr>"

definition demo_worker_env :: worker_env where
  "demo_worker_env = \<lparr>we_now = 200, we_local = (\<lambda>_. 150), we_probe = (\<lambda>_. Some 60)\<rparr>"

lemma demo_segment_name: "segment_name ''cam'' (2026, 1, 1, 0, 0, 0) = ''cam_20260101_000000.ts''"
  by code_simp

lemma demo_name: "parse_filename_time local_epoch ''cam_20260101_000000.ts'' = Some (local_epoch (2026, 1, 1, 0, 0, 0))"
  unfolding demo_segment_name [symmetric] by (rule parse_segment_name) (simp add: days_in_month_def)

lemma demo_base: "base_name demo_segment_path = ''cam_20260101_000000.ts''" "parent_dir demo_segment_path = ''/s/cam''"
  by (simp_all add: base_name_def parent_dir_def path_parts_def demo_segment_path_def)

lemma demo_recoverable: "recoverable demo_worker_env demo_disk 100 demo_worker demo_segment_path"
  by (simp add: recoverable_def files_in_def demo_disk_def demo_base demo_name demo_worker_env_def demo_worker_def
      new_worker_def worker_start_def path_join_def py_endswith_def)

theorem reconcile_recovers_witness:
  "demo_segment_path \<in> set (get_indexed_filepaths_since ''cam'' 100
     (snd (snd (reconcile demo_worker_env demo_disk (Some 100) (demo_worker, empty_db)))))"
proof -
  obtain n w' db' where r: "reconcile demo_worker_env demo_disk (Some 100) (demo_worker, empty_db) = (n, w', db')"
    by (metis prod_cases3)
  have "wk_dir demo_worker \<in> set (fs_dirs demo_disk)" and "fs_ok demo_disk"
    and "wk_camera demo_worker = ''cam''" and "we_now demo_worker_env = 200"
    by (simp_all add: demo_worker_def worker_start_def new_worker_def path_join_def demo_disk_def fs_ok_def demo_worker_env_def)
  with reconcile_recovers [OF r] demo_recoverable show ?thesis by (simp add: r)
qed


subsection \<open>What the watermark skips\<close>

lemma watch_lines_skips:
  "(\<And>line. line \<in> set ls \<Longrightarrow> base_name (py_strip (hd (split_on CHR '','' (py_strip line)))) \<le> wk_watermark (fst st)) \<Longrightarrow>
    watch_lines env f ls st = st"
  by (induction ls) (simp_all add: Let_def)

text \<open>
  The watermark skips the repeated hour. A segment whose calendar time is not later than that of
  the last indexed one is never indexed by the watcher, however often its complete CSV is
  polled, even when its epoch is later (the local clock was set back in between): it stays
  invisible until the ten-minute reconciliation.
\<close>

theorem watcher_skips_repeated_hour:
  assumes "civil_ok a" and "civil_ok b" and "civil_fields b \<le> civil_fields a"
    and "wk_watermark w = segment_name (wk_camera w) a"
    and "\<forall>line \<in> set ls. base_name (py_strip (hd (split_on CHR '','' (py_strip line)))) = segment_name (wk_camera w) b"
  shows "(watch_poll env f (Some ls) ^^ k) (w, db) = (w, db) \<and>
    parse_filename_time local_epoch (wk_watermark w) = Some (local_epoch a) \<and>
    parse_filename_time local_epoch (segment_name (wk_camera w) b) = Some (local_epoch b)"
proof -
  have "\<not> segment_name (wk_camera w) a < segment_name (wk_camera w) b"
    using assms(3) by (simp add: segment_name_less [OF assms(1,2)] not_less)
  then have "watch_lines env f ls (w, db) = (w, db)"
    using assms(4,5) by (intro watch_lines_skips) (simp add: not_less)
  then have "watch_poll env f (Some ls) (w, db) = (w, db)" by (simp add: watch_poll_def)
  then have "(watch_poll env f (Some ls) ^^ k) (w, db) = (w, db)" by (induction k) simp_all
  then show ?thesis using assms(1,2,4) by (simp add: parse_segment_name)
qed

text \<open>The end of daylight saving time: calendar 01:00 comes an hour after calendar 01:30.\<close>

definition fall_back_clock :: "civil \<Rightarrow> epoch" where
  "fall_back_clock c = (case c of (y, mo, d, h, mi, s) \<Rightarrow> if mi = 30 then 1800 else 3600)"

lemma fall_back_name: "segment_name ''cam'' (2026, 11, 1, 1, 0, 0) = ''cam_20261101_010000.ts''"
  by code_simp

lemma fall_back_line:
  "base_name (py_strip (hd (split_on CHR '','' (py_strip ''cam_20261101_010000.ts,0,60'')))) = ''cam_20261101_010000.ts''"
  by code_simp

theorem watcher_skips_repeated_hour_witness:
  "(watch_poll demo_worker_env demo_disk (Some [''cam_20261101_010000.ts,0,60'']) ^^ 10)
     (demo_worker\<lparr>wk_watermark := segment_name ''cam'' (2026, 11, 1, 1, 30, 0)\<rparr>, empty_db) =
   (demo_worker\<lparr>wk_watermark := segment_name ''cam'' (2026, 11, 1, 1, 30, 0)\<rparr>, empty_db) \<and>
   fall_back_clock (2026, 11, 1, 1, 30, 0) < fall_back_clock (2026, 11, 1, 1, 0, 0)"
proof -
  have "wk_camera demo_worker = ''cam''" by (simp add: demo_worker_def worker_start_def new_worker_def)
  with watcher_skips_repeated_hour [where a = "(2026, 11, 1, 1, 30, 0)" and b = "(2026, 11, 1, 1, 0, 0)" and k = 10
      and w = "demo_worker\<lparr>wk_watermark := segment_name ''cam'' (2026, 11, 1, 1, 30, 0)\<rparr>"
      and ls = "[''cam_20261101_010000.ts,0,60'']" and env = demo_worker_env and f = demo_disk and db = empty_db]
  show ?thesis by (simp add: days_in_month_def fall_back_name fall_back_line fall_back_clock_def del: segment_name.simps One_nat_def)
qed

subsection \<open>Backoff, watchdog and masks\<close>

datatype worker_turn = Segment_indexed epoch string | Ffmpeg_exit

fun worker_event :: "worker_turn \<Rightarrow> worker \<Rightarrow> worker" where
  "worker_event (Segment_indexed t n) w = mark_indexed t n w"
| "worker_event Ffmpeg_exit w = after_exit w"

lemma worker_event_frame:
  "wk_base_delay (worker_event e w) = wk_base_delay w" "wk_stop (worker_event e w) = wk_stop w"
  by (cases e; simp add: after_exit_def)+

lemma worker_event_backoff:
  "0 < wk_base_delay w \<Longrightarrow> wk_base_delay w \<le> 60 \<Longrightarrow> wk_base_delay w \<le> wk_backoff w \<and> wk_backoff w \<le> 60 \<Longrightarrow>
    wk_base_delay w \<le> wk_backoff (worker_event e w) \<and> wk_backoff (worker_event e w) \<le> 60"
  by (cases e) (auto simp: mark_indexed_def after_exit_def max_backoff_seconds_def)

lemma worker_events_backoff:
  "0 < wk_base_delay w \<Longrightarrow> wk_base_delay w \<le> 60 \<Longrightarrow> wk_base_delay w \<le> wk_backoff w \<and> wk_backoff w \<le> 60 \<Longrightarrow>
    wk_base_delay w \<le> wk_backoff (fold worker_event es w) \<and> wk_backoff (fold worker_event es w) \<le> 60"
proof (induction es arbitrary: w)
  case (Cons e es)
  from worker_event_backoff [OF Cons.prems, of e] Cons.prems show ?case
    using Cons.IH [of "worker_event e w"] by (simp add: worker_event_frame)
qed simp

lemma after_exit_simps:
  "wk_stop (after_exit w) = wk_stop w" "wk_base_delay (after_exit w) = wk_base_delay w"
  "\<not> wk_stop w \<Longrightarrow> wk_backoff (after_exit w) = min (wk_backoff w * 2) 60"
  by (simp_all add: after_exit_def max_backoff_seconds_def)

lemma exits_backoff:
  "\<not> wk_stop w \<Longrightarrow> 0 < wk_base_delay w \<Longrightarrow> wk_base_delay w \<le> 60 \<Longrightarrow>
    wk_backoff ((after_exit ^^ k) (mark_indexed t n w)) = min (wk_base_delay w * 2 ^ k) 60"
proof (induction k)
  case (Suc k)
  have "\<not> wk_stop ((after_exit ^^ k) (mark_indexed t n w))"
    by (induction k) (use Suc.prems in \<open>simp_all add: after_exit_simps\<close>)
  with Suc show ?case by (auto simp: after_exit_simps min_def)
qed (simp add: mark_indexed_def)

text \<open>
  Reconnecting backs off exponentially and recovers at once. Starting from a worker created with a delay
  of at most a minute, whatever sequence of indexed segments and ffmpeg exits follows, the wait lies
  between the base delay and 75 seconds; after an indexed segment the k-th exit in a row waits the
  base delay doubled k times, at most a minute, before jitter.
\<close>

theorem backoff_bounded:
  assumes "0 < delay" and "delay \<le> 60" and "0 \<le> u" and "u \<le> 1"
    and "w = fold worker_event es (new_worker camera url storage duration transport delay loglevel masks)"
  shows "delay \<le> compute_backoff_delay u w \<and> compute_backoff_delay u w \<le> 75 \<and>
    wk_backoff ((after_exit ^^ k) (mark_indexed t n w)) = min (delay * 2 ^ k) 60"
proof -
  let ?w0 = "new_worker camera url storage duration transport delay loglevel masks"
  have w0: "wk_base_delay ?w0 = delay" "wk_backoff ?w0 = delay" "\<not> wk_stop ?w0" by (simp_all add: new_worker_def)
  have b: "delay \<le> wk_backoff w \<and> wk_backoff w \<le> 60"
    using worker_events_backoff [of ?w0 es] assms w0 by simp
  have f: "wk_base_delay (fold worker_event es v) = wk_base_delay v \<and> wk_stop (fold worker_event es v) = wk_stop v" for v
    by (induction es arbitrary: v) (simp_all add: worker_event_frame)
  have "0 \<le> u * wk_backoff w" and "u * wk_backoff w \<le> 1 * wk_backoff w"
    using assms b by (auto intro: mult_nonneg_nonneg mult_right_mono)
  then have "delay \<le> compute_backoff_delay u w \<and> compute_backoff_delay u w \<le> 75"
    using b by (simp add: compute_backoff_delay_def jitter_fraction_def)
  with exits_backoff [of w k t n] f [of ?w0] w0 assms show ?thesis by simp
qed

theorem backoff_bounded_witness:
  "wk_backoff ((after_exit ^^ 5) (mark_indexed 0 [] (new_worker ''c'' ''u'' ''/s'' 60 ''tcp'' 5 ''warning'' []))) = 60"
  using backoff_bounded [of 5 0 _ "[]" "''c''" "''u''" "''/s''" 60 "''tcp''" "''warning''" "[]" 5 0 "[]"] by simp



text \<open>What the masks payload lets through: polygons of at least three points, each coordinate in [0, 1].\<close>

lemma parse_masks_sound: "poly \<in> set (parse_masks raw) \<Longrightarrow> mask_ok poly"
  by (auto simp: parse_masks_def list_all_iff split: option.splits json.splits if_splits)

lemma stalled_iff:
  "is_segment_stalled local_epoch now f w \<longleftrightarrow> wk_running w \<and> wk_process w = Some True \<and>
    (\<exists>open_for since_write. newest_segment_stat local_epoch now f w = Some (open_for, since_write) \<and>
       3 * of_int (wk_duration w) < open_for \<and> since_write < of_int (wk_duration w))"
  by (auto simp: is_segment_stalled_def is_wedged_def split: option.split)

end
