(* ===== verification/Grooming.thy ===== *)
theory Grooming
  imports Retention
begin

text \<open>
  The grooming manager, \<open>services/nvr/storage/grooming.py\<close>: old segments are rewritten keyframe-only
  inside a nightly window. The ffmpeg run on one file is a parameter with five outcomes; the local
  minute of the day that each window check sees is a parameter too (it depends on the time zone).
  The temporary file ffmpeg writes is gone again in every outcome and is not shown.
\<close>

subsection \<open>The window\<close>

definition parse_hm :: "string \<Rightarrow> (int \<times> int) option" where
  "parse_hm s =
     (case split_on CHR '':'' (py_strip s) of
        [h, m] \<Rightarrow> (case (py_parse_int h, py_parse_int m) of (Some a, Some b) \<Rightarrow> Some (a, b) | _ \<Rightarrow> None)
      | _ \<Rightarrow> None)"

definition parse_window :: "string \<Rightarrow> (int \<times> int) option" where
  \<comment> \<open>\<^term>\<open>None\<close> is the \<open>ValueError\<close> of a malformed specification\<close>
  "parse_window spec =
     (case split_on CHR ''-'' spec of
        [start_s, end_s] \<Rightarrow>
          (case (parse_hm start_s, parse_hm end_s) of
             (Some (sh, sm), Some (eh, em)) \<Rightarrow> Some (sh * 60 + sm, eh * 60 + em)
           | _ \<Rightarrow> None)
      | _ \<Rightarrow> None)"

record groom_cfg =
  gc_after_days :: int
  gc_win_start :: int
  gc_win_end :: int
  gc_batch_limit :: int
  gc_cameras :: "(string, int option) dict"  \<comment> \<open>YAML cameras, with \<open>groom_after_days\<close> where set\<close>

definition in_window :: "groom_cfg \<Rightarrow> int \<Rightarrow> bool" where
  "in_window cfg minutes =
     (if gc_win_start cfg \<le> gc_win_end cfg
      then gc_win_start cfg \<le> minutes \<and> minutes < gc_win_end cfg
      else minutes \<ge> gc_win_start cfg \<or> minutes < gc_win_end cfg)"

subsection \<open>Which camera is groomed when\<close>

definition camera_groom_map ::
  "groom_cfg \<Rightarrow> (string, int option) dict option provider \<Rightarrow> index_db \<Rightarrow> (string, int) dict" where
  "camera_groom_map cfg prov db =
     (let indexed = overlay Some (map (\<lambda>n. (n, gc_after_days cfg)) (get_cameras db)) [];
          yaml = overlay (\<lambda>r. Some (case r of Some k \<Rightarrow> k | None \<Rightarrow> gc_after_days cfg)) (gc_cameras cfg) indexed
      in case prov of
           Answers (Some m) \<Rightarrow> overlay id m yaml
         | _ \<Rightarrow> yaml)"

fun groom_candidates ::
  "groom_cfg \<Rightarrow> epoch \<Rightarrow> index_db \<Rightarrow> (string, int) dict \<Rightarrow> (int \<times> string \<times> path \<times> int) list
    \<Rightarrow> (int \<times> string \<times> path \<times> int) list" where
  "groom_candidates cfg now db [] acc = acc"
| "groom_candidates cfg now db ((camera, after_days) # m) acc =
     (if after_days \<le> 0 then groom_candidates cfg now db m acc
      else
        let remaining = gc_batch_limit cfg - int (length acc)
        in if remaining \<le> 0 then acc
           else groom_candidates cfg now db m
                  (acc @ select_groomable (now - of_int (after_days * 86400)) remaining (Some camera) db))"

subsection \<open>Rewriting one file\<close>

datatype ffmpeg_outcome =
    Rewritten int epoch  \<comment> \<open>exit code 0; size and mtime of the temporary file\<close>
  | Exit_nonzero
  | Timed_out
  | Os_error

definition groom_file :: "(path \<Rightarrow> ffmpeg_outcome) \<Rightarrow> path \<Rightarrow> fs \<Rightarrow> int option \<times> fs" where
  "groom_file ffmpeg p w =
     (if p \<notin> set (dict_keys (fs_files w)) then (None, w)
      else case ffmpeg p of
             Rewritten new_size mtime \<Rightarrow>
               if new_size \<le> 0 then (None, w)
               else (Some new_size,
                     w\<lparr>fs_files := AList.update p \<lparr>fi_size = new_size, fi_mtime = mtime\<rparr> (fs_files w)\<rparr>)
           | _ \<Rightarrow> (None, w))"

subsection \<open>One pass\<close>

record groom_stats =
  gs_groomed :: int
  gs_failed :: int
  gs_bytes_saved :: int

definition no_stats :: groom_stats where
  "no_stats = \<lparr>gs_groomed = 0, gs_failed = 0, gs_bytes_saved = 0\<rparr>"

fun groom_batch ::
  "groom_cfg \<Rightarrow> bool \<Rightarrow> (nat \<Rightarrow> int) \<Rightarrow> (path \<Rightarrow> ffmpeg_outcome) \<Rightarrow> nat
    \<Rightarrow> (int \<times> string \<times> path \<times> int) list \<Rightarrow> groom_stats \<Rightarrow> nvr \<Rightarrow> groom_stats \<times> nvr" where
  \<comment> \<open>\<open>minutes k\<close> is the minute of the day when the window is checked before the k-th candidate\<close>
  "groom_batch cfg force minutes ffmpeg k [] stats s = (stats, s)"
| "groom_batch cfg force minutes ffmpeg k ((seg_id, camera, filepath, old_size) # cs) stats s =
     (if \<not> force \<and> \<not> in_window cfg (minutes k) then (stats, s)
      else case groom_file ffmpeg filepath (nv_fs s) of
             (None, w) \<Rightarrow>
               groom_batch cfg force minutes ffmpeg (k + 1) cs
                 (stats\<lparr>gs_failed := gs_failed stats + 1\<rparr>) (s\<lparr>nv_fs := w\<rparr>)
           | (Some new_size, w) \<Rightarrow>
               groom_batch cfg force minutes ffmpeg (k + 1) cs
                 (stats\<lparr>gs_groomed := gs_groomed stats + 1,
                        gs_bytes_saved := gs_bytes_saved stats + max 0 (old_size - new_size)\<rparr>)
                 (s\<lparr>nv_db := mark_groomed seg_id new_size (nv_db s), nv_fs := w\<rparr>))"

definition groom_once ::
  "groom_cfg \<Rightarrow> bool \<Rightarrow> epoch \<Rightarrow> (nat \<Rightarrow> int) \<Rightarrow> (path \<Rightarrow> ffmpeg_outcome)
    \<Rightarrow> (string, int option) dict option provider \<Rightarrow> nvr \<Rightarrow> groom_stats \<times> nvr" where
  "groom_once cfg force now minutes ffmpeg prov s =
     (let candidates = groom_candidates cfg now (nv_db s) (camera_groom_map cfg prov (nv_db s)) []
      in if candidates = [] then (no_stats, s)
         else groom_batch cfg force minutes ffmpeg 0 candidates no_stats s)"

subsection \<open>Candidates\<close>

lemma distinct_groom_map: "distinct (dict_keys (camera_groom_map cfg prov db))"
  by (auto simp: camera_groom_map_def Let_def intro!: distinct_overlay split: provider.split option.split)

lemma groom_map_covers_index:
  assumes "r \<in> set (db_rows db)"
  shows "r_camera r \<in> dom (map_of (camera_groom_map cfg prov db))"
proof -
  let ?d0 = "overlay Some (map (\<lambda>n. (n, gc_after_days cfg)) (get_cameras db)) []"
  let ?d1 = "overlay (\<lambda>r. Some (case r of Some k \<Rightarrow> k | None \<Rightarrow> gc_after_days cfg)) (gc_cameras cfg) ?d0"
  have "map_of ?d0 (r_camera r) = Some (gc_after_days cfg)"
    using assms by (subst map_of_overlay) (auto simp: map_of_const comp_def distinct_get_cameras)
  then have "r_camera r \<in> dom (map_of ?d1)" using dom_overlay by (metis domI subsetD)
  then show ?thesis
    using dom_overlay [of ?d1] by (fastforce simp: camera_groom_map_def Let_def split: provider.split option.split)
qed

interpretation grm: camera_policy "\<lambda>(cfg, prov). camera_groom_map cfg prov"
  by unfold_locales (auto simp: distinct_groom_map split_beta dest: groom_map_covers_index)

definition groom_row :: "row \<Rightarrow> int \<times> string \<times> path \<times> int" where
  "groom_row r = (r_id r, r_camera r, r_path r, r_size r)"

lemma select_groomable_rows:
  "c \<in> set (select_groomable t n (Some cam) db) \<Longrightarrow>
    \<exists>r \<in> set (db_rows db). c = groom_row r \<and> \<not> r_groomed r \<and> r_end r < t \<and> (cam = [] \<or> r_camera r = cam)"
  by (auto simp: select_groomable_def Let_def camera_rows_def groomable_def groom_row_def
      dest!: in_set_takeD split: if_splits)

lemma length_select_groomable: "0 \<le> n \<Longrightarrow> int (length (select_groomable t n c db)) \<le> n"
  by (simp add: select_groomable_def Let_def)

lemma length_groom_candidates:
  "int (length acc) \<le> gc_batch_limit cfg \<Longrightarrow> int (length (groom_candidates cfg now db m acc)) \<le> gc_batch_limit cfg"
proof (induction cfg now db m acc rule: groom_candidates.induct)
  case (2 cfg now db camera after_days m acc)
  then show ?case
    using length_select_groomable [of "gc_batch_limit cfg - int (length acc)"
        "now - of_int (after_days * 86400)" "Some camera" db]
    by (simp add: Let_def)
qed simp

lemma groom_candidates_rows:
  assumes "c \<in> set (groom_candidates cfg now db m acc)" and "[] \<notin> fst ` set m"
  shows "c \<in> set acc \<or> (\<exists>r \<in> set (db_rows db). \<exists>d. c = groom_row r \<and> \<not> r_groomed r \<and>
    (r_camera r, d) \<in> set m \<and> 0 < d \<and> r_end r < now - of_int (d * 86400))"
  using assms
proof (induction cfg now db m acc rule: groom_candidates.induct)
  case (2 cfg now db camera after_days m acc)
  show ?case
  proof (cases "after_days \<le> 0 \<or> gc_batch_limit cfg - int (length acc) \<le> 0")
    case True
    with 2 show ?thesis by (auto simp: Let_def split: if_splits)
  next
    case False
    let ?sel = "select_groomable (now - of_int (after_days * 86400)) (gc_batch_limit cfg - int (length acc)) (Some camera) db"
    from False 2 have "c \<in> set (acc @ ?sel) \<or> (\<exists>r \<in> set (db_rows db). \<exists>d. c = groom_row r \<and> \<not> r_groomed r \<and>
      (r_camera r, d) \<in> set m \<and> 0 < d \<and> r_end r < now - of_int (d * 86400))"
      by (auto simp: Let_def)
    then consider "c \<in> set acc" | "c \<in> set ?sel" | "\<exists>r \<in> set (db_rows db). \<exists>d. c = groom_row r \<and> \<not> r_groomed r \<and>
      (r_camera r, d) \<in> set m \<and> 0 < d \<and> r_end r < now - of_int (d * 86400)" by auto
    then show ?thesis
    proof cases
      case 2
      from select_groomable_rows [OF this] obtain r where
        "r \<in> set (db_rows db)" "c = groom_row r" "\<not> r_groomed r" "r_end r < now - of_int (after_days * 86400)"
        "camera = [] \<or> r_camera r = camera" by blast
      moreover have "camera \<noteq> []" using \<open>[] \<notin> fst ` set ((camera, after_days) # m)\<close> by auto
      ultimately show ?thesis using False by (intro disjI2 bexI [of _ r] exI [of _ after_days]) auto
    qed auto
  qed
qed simp

text \<open>
  A grooming pass is bounded and only ever touches footage it may touch. It considers at most
  \<open>batch_limit\<close> segments, and each of them is an indexed segment not groomed before, of a camera
  whose effective threshold is positive, that ends before now minus that threshold.
\<close>

theorem groom_candidates_sound:
  assumes "0 \<le> gc_batch_limit cfg" and "[] \<notin> set (dict_keys (camera_groom_map cfg prov db))"
  shows "int (length (groom_candidates cfg now db (camera_groom_map cfg prov db) [])) \<le> gc_batch_limit cfg \<and>
    (\<forall>c \<in> set (groom_candidates cfg now db (camera_groom_map cfg prov db) []).
       \<exists>r \<in> set (db_rows db). \<exists>d. c = groom_row r \<and> \<not> r_groomed r \<and>
         map_of (camera_groom_map cfg prov db) (r_camera r) = Some d \<and> 0 < d \<and> r_end r < now - of_int (d * 86400))"
proof -
  have "\<exists>r \<in> set (db_rows db). \<exists>d. c = groom_row r \<and> \<not> r_groomed r \<and>
         map_of (camera_groom_map cfg prov db) (r_camera r) = Some d \<and> 0 < d \<and> r_end r < now - of_int (d * 86400)"
    if "c \<in> set (groom_candidates cfg now db (camera_groom_map cfg prov db) [])" for c
    using groom_candidates_rows [OF that] assms(2) grm.policy_entry [of _ _ "(cfg, prov)" db] by fastforce
  then show ?thesis using length_groom_candidates [of "[]" cfg] assms(1) by simp
qed

definition demo_groom_cfg :: groom_cfg where
  "demo_groom_cfg = \<lparr>gc_after_days = 7, gc_win_start = 120, gc_win_end = 360, gc_batch_limit = 1, gc_cameras = []\<rparr>"

lemma demo_groom_map: "camera_groom_map demo_groom_cfg No_provider demo_db = [(''g'', 7)]"
  by (simp add: camera_groom_map_def demo_groom_cfg_def demo_defs get_cameras_def)

theorem groom_candidates_sound_witness:
  "int (length (groom_candidates demo_groom_cfg 3000000 demo_db (camera_groom_map demo_groom_cfg No_provider demo_db) [])) \<le> 1"
  using groom_candidates_sound [of demo_groom_cfg No_provider demo_db 3000000]
  unfolding demo_groom_map by (simp add: demo_groom_cfg_def)

subsection \<open>What a pass preserves\<close>

lemma groom_file_None: "groom_file ffmpeg p w = (None, w') \<Longrightarrow> w' = w"
  by (auto simp: groom_file_def split: if_splits ffmpeg_outcome.splits)

lemma groom_file_Some:
  "groom_file ffmpeg p w = (Some n, w') \<Longrightarrow>
    \<exists>t. ffmpeg p = Rewritten n t \<and> 0 < n \<and> p \<in> set (dict_keys (fs_files w)) \<and>
      w' = w\<lparr>fs_files := AList.update p \<lparr>fi_size = n, fi_mtime = t\<rparr> (fs_files w)\<rparr>"
  by (auto simp: groom_file_def split: if_splits ffmpeg_outcome.splits)

lemma mark_groomed_rows:
  "db_rows (mark_groomed i n db) =
    map (\<lambda>r. if r_id r = i then r\<lparr>r_groomed := True, r_size := n\<rparr> else r) (db_rows db)"
  by (simp add: mark_groomed_def)

lemma nvr_ok_groom_one:
  assumes ok: "nvr_ok cfg s" and r: "r \<in> set (db_rows (nv_db s))"
  shows "nvr_ok cfg (s\<lparr>nv_db := mark_groomed (r_id r) n (nv_db s),
    nv_fs := (nv_fs s)\<lparr>fs_files := AList.update (r_path r) \<lparr>fi_size = n, fi_mtime = t\<rparr> (fs_files (nv_fs s))\<rparr>\<rparr>)"
proof -
  have db: "db_ok (nv_db s)" using ok by (simp add: nvr_ok_def)
  have "r_id q = r_id r \<longleftrightarrow> q = r" "r_path q = r_path r \<longleftrightarrow> q = r" if "q \<in> set (db_rows (nv_db s))" for q
    using db_ok_id_inj [OF db that r] db_ok_path_inj [OF db that r] by auto
  then show ?thesis
    using ok db_ok_mark_groomed [OF db, of "r_id r" n]
    by (auto simp: nvr_ok_def mark_groomed_rows mirrored_def segment_home_def update_conv')
qed

text \<open>Rows are only ever groomed: what a batch does to one row.\<close>

definition groom_le :: "nvr \<Rightarrow> nvr \<Rightarrow> bool" where
  "groom_le s s' \<longleftrightarrow> map (\<lambda>r. (r_id r, r_camera r, r_start r, r_duration r, r_path r)) (db_rows (nv_db s')) =
     map (\<lambda>r. (r_id r, r_camera r, r_start r, r_duration r, r_path r)) (db_rows (nv_db s)) \<and>
     db_seq (nv_db s') = db_seq (nv_db s) \<and> dict_keys (fs_files (nv_fs s')) = dict_keys (fs_files (nv_fs s))"

lemma groom_le_refl: "groom_le s s"
  by (simp add: groom_le_def)

lemma groom_le_trans: "groom_le s t \<Longrightarrow> groom_le t u \<Longrightarrow> groom_le s u"
  by (simp add: groom_le_def)

lemma groom_le_one:
  "p \<in> set (dict_keys (fs_files (nv_fs s))) \<Longrightarrow>
   groom_le s (s\<lparr>nv_db := mark_groomed i n (nv_db s), nv_fs := (nv_fs s)\<lparr>fs_files := AList.update p f (fs_files (nv_fs s))\<rparr>\<rparr>)"
  by (auto simp: groom_le_def mark_groomed_rows AList.update_keys intro!: map_cong)

lemma in_groom_le:
  assumes "groom_le s s'" and "r \<in> set (db_rows (nv_db s))"
  shows "\<exists>r' \<in> set (db_rows (nv_db s')). r_id r' = r_id r \<and> r_path r' = r_path r \<and> r_camera r' = r_camera r"
proof -
  let ?k = "\<lambda>r. (r_id r, r_camera r, r_start r, r_duration r, r_path r)"
  have "?k r \<in> ?k ` set (db_rows (nv_db s'))"
    using assms unfolding groom_le_def by (metis (no_types, lifting) image_eqI list.set_map)
  then show ?thesis by auto
qed

lemma groom_batch_invariant:
  assumes "nvr_ok rcfg s"
    and "\<forall>c \<in> set cs. \<exists>r \<in> set (db_rows (nv_db s)). fst c = r_id r \<and> fst (snd (snd c)) = r_path r"
  shows "nvr_ok rcfg (snd (groom_batch cfg force minutes ffmpeg k cs stats s)) \<and>
    groom_le s (snd (groom_batch cfg force minutes ffmpeg k cs stats s))"
  using assms
proof (induction cs arbitrary: k stats s)
  case Nil
  then show ?case by (simp add: groom_le_refl)
next
  case (Cons c cs)
  obtain i cam p old where c: "c = (i, cam, p, old)" by (cases c)
  show ?case
  proof (cases "\<not> force \<and> \<not> in_window cfg (minutes k)")
    case True
    with Cons.prems c show ?thesis by (simp add: groom_le_refl)
  next
    case open_window: False
    show ?thesis
    proof (cases "groom_file ffmpeg p (nv_fs s)")
      case (Pair res w)
      show ?thesis
      proof (cases res)
        case None
        with Pair have "s\<lparr>nv_fs := w\<rparr> = s" by (auto dest: groom_file_None)
        with Cons None Pair open_window c show ?thesis by (simp add: groom_le_refl)
      next
        case (Some n)
        from Cons.prems(2) c obtain r where r: "r \<in> set (db_rows (nv_db s))" "i = r_id r" "p = r_path r" by auto
        from Pair Some obtain t where t: "p \<in> set (dict_keys (fs_files (nv_fs s)))"
          "w = (nv_fs s)\<lparr>fs_files := AList.update p \<lparr>fi_size = n, fi_mtime = t\<rparr> (fs_files (nv_fs s))\<rparr>"
          by (auto dest: groom_file_Some)
        let ?s = "s\<lparr>nv_db := mark_groomed i n (nv_db s), nv_fs := w\<rparr>"
        have ok: "nvr_ok rcfg ?s" unfolding t(2) r(2,3) by (rule nvr_ok_groom_one [OF Cons.prems(1) r(1)])
        have le: "groom_le s ?s" unfolding t(2) by (rule groom_le_one [OF t(1)])
        have "\<forall>c \<in> set cs. \<exists>r \<in> set (db_rows (nv_db ?s)). fst c = r_id r \<and> fst (snd (snd c)) = r_path r"
        proof
          fix d assume "d \<in> set cs"
          with Cons.prems(2) obtain q where "q \<in> set (db_rows (nv_db s))" "fst d = r_id q" "fst (snd (snd d)) = r_path q"
            by auto
          with in_groom_le [OF le] show "\<exists>r \<in> set (db_rows (nv_db ?s)). fst d = r_id r \<and> fst (snd (snd d)) = r_path r"
            by metis
        qed
        from Cons.IH [OF ok this] le show ?thesis
          using Pair Some open_window c by (auto intro: groom_le_trans)
      qed
    qed
  qed
qed

lemma candidates_are_rows:
  "c \<in> set (groom_candidates cfg now db m acc) \<Longrightarrow> (\<forall>a \<in> set acc. \<exists>r \<in> set (db_rows db). a = groom_row r) \<Longrightarrow>
    \<exists>r \<in> set (db_rows db). c = groom_row r"
proof (induction cfg now db m acc rule: groom_candidates.induct)
  case (2 cfg now db camera after_days m acc)
  have "\<forall>a \<in> set (acc @ select_groomable t n (Some camera) db). \<exists>r \<in> set (db_rows db). a = groom_row r" for t n
    using 2(4) by (auto dest: select_groomable_rows)
  with 2 show ?case by (auto simp: Let_def split: if_splits)
qed simp

lemma groom_once_invariant:
  assumes "nvr_ok rcfg s"
  shows "nvr_ok rcfg (snd (groom_once cfg force now minutes ffmpeg prov s)) \<and>
    groom_le s (snd (groom_once cfg force now minutes ffmpeg prov s))"
proof -
  have "\<exists>r \<in> set (db_rows (nv_db s)). fst c = r_id r \<and> fst (snd (snd c)) = r_path r"
    if "c \<in> set (groom_candidates cfg now (nv_db s) m [])" for c m
    using candidates_are_rows [OF that] by (auto simp: groom_row_def)
  then show ?thesis
    using groom_batch_invariant [OF assms] assms
    by (simp add: groom_once_def Let_def groom_le_refl)
qed

lemma nvr_ok_groom_once [inv_intros]:
  "nvr_ok rcfg s \<Longrightarrow> nvr_ok rcfg (snd (groom_once cfg force now minutes ffmpeg prov s))"
  using groom_once_invariant by blast

text \<open>
  C16. Grooming never loses footage. A pass, whatever ffmpeg does with each file, keeps every
  segment's row (id, camera, start, duration and path) and every file, and leaves the index and
  the disk agreeing about each segment's size.
\<close>

theorem grooming_keeps_footage:
  assumes "nvr_ok rcfg s" and "groom_once cfg force now minutes ffmpeg prov s = (stats, s')"
  shows "map (\<lambda>r. (r_id r, r_camera r, r_start r, r_duration r, r_path r)) (db_rows (nv_db s')) =
      map (\<lambda>r. (r_id r, r_camera r, r_start r, r_duration r, r_path r)) (db_rows (nv_db s)) \<and>
    dict_keys (fs_files (nv_fs s')) = dict_keys (fs_files (nv_fs s)) \<and>
    mirrored (nv_db s') (nv_fs s')"
  using groom_once_invariant [OF assms(1), of cfg force now minutes ffmpeg prov] assms(2)
  by (simp add: groom_le_def nvr_ok_def)

theorem grooming_keeps_footage_witness:
  "let (stats, s') = groom_once demo_groom_cfg False 3000000 (\<lambda>_. 180) (\<lambda>_. Rewritten 4 9) No_provider demo_state
   in gs_groomed stats = 1 \<and> gs_bytes_saved stats = 36 \<and> mirrored (nv_db s') (nv_fs s')"
proof -
  obtain stats s' where g: "groom_once demo_groom_cfg False 3000000 (\<lambda>_. 180) (\<lambda>_. Rewritten 4 9) No_provider demo_state
      = (stats, s')" by fastforce
  from grooming_keeps_footage [OF demo_ok g] have "mirrored (nv_db s') (nv_fs s')" by blast
  moreover have "gs_groomed stats = 1 \<and> gs_bytes_saved stats = 36"
    using g demo_groom_map
    by (auto simp: groom_once_def demo_groom_cfg_def demo_defs select_groomable_def camera_rows_def groomable_def
        r_end_def groom_file_def in_window_def no_stats_def Let_def)
  ultimately show ?thesis by (simp add: g)
qed

text \<open>
  Outside the nightly window an unforced pass does nothing: no file is rewritten, no row is
  marked, and the statistics are zero; and a batch stops at the first candidate that finds the
  window closed, with everything after it untouched.
\<close>

theorem closed_window_stops_grooming:
  "(\<not> in_window cfg (minutes 0) \<longrightarrow> groom_once cfg False now minutes ffmpeg prov s = (no_stats, s)) \<and>
   (\<not> in_window cfg (minutes k) \<longrightarrow> groom_batch cfg False minutes ffmpeg k (c # cs) stats s = (stats, s))"
  by (cases c; cases "groom_candidates cfg now (nv_db s) (camera_groom_map cfg prov (nv_db s)) []")
    (auto simp: groom_once_def Let_def)

theorem closed_window_stops_grooming_witness:
  "groom_once demo_groom_cfg False 3000000 (\<lambda>_. 400) (\<lambda>_. Rewritten 4 9) No_provider demo_state = (no_stats, demo_state)"
  using closed_window_stops_grooming [of demo_groom_cfg "\<lambda>_. 400" 3000000 "\<lambda>_. Rewritten 4 9" No_provider demo_state]
  by (simp add: in_window_def demo_groom_cfg_def)

lemma groom_batch_only_candidates:
  "r \<in> set (db_rows (nv_db s)) \<Longrightarrow> r_id r \<notin> fst ` set cs \<Longrightarrow>
    r \<in> set (db_rows (nv_db (snd (groom_batch cfg force minutes ffmpeg k cs stats s))))"
proof (induction cs arbitrary: k stats s)
  case (Cons c cs)
  obtain i cam p old where c: "c = (i, cam, p, old)" by (cases c)
  from Cons.prems c have "r_id r \<noteq> i" by auto
  with Cons.prems(1) have "r \<in> set (db_rows (mark_groomed i n (nv_db s)))" for n
    by (force simp: mark_groomed_rows)
  with Cons c show ?case by (auto split: prod.split option.split)
qed simp

text \<open>
  A camera opted out with 0 is never groomed. When the runtime provider maps a camera to 0, or
  the YAML does and the provider says nothing about it, every row of that camera comes through a
  pass unchanged, whatever the appliance default is; 0 is a setting, not an absent one.
\<close>

theorem zero_means_never:
  assumes ok: "db_ok (nv_db s)" and "distinct (map fst (gc_cameras cfg))" and "distinct (map fst m)"
    and "map_of m cam = Some (Some 0) \<or> map_of m cam = None \<and> map_of (gc_cameras cfg) cam = Some (Some 0)"
    and ne: "[] \<notin> set (dict_keys (camera_groom_map cfg (Answers (Some m)) (nv_db s)))"
    and r: "r \<in> set (db_rows (nv_db s))" "r_camera r = cam"
  shows "r \<in> set (db_rows (nv_db (snd (groom_once cfg force now minutes ffmpeg (Answers (Some m)) s))))"
proof -
  let ?map = "camera_groom_map cfg (Answers (Some m)) (nv_db s)"
  let ?cs = "groom_candidates cfg now (nv_db s) ?map []"
  have zero: "map_of ?map cam = Some 0"
    using assms(2,3,4) by (auto simp: camera_groom_map_def Let_def map_of_overlay
        simp del: map_of_eq_Some_iff Some_eq_map_of_iff)
  have "r_id r \<notin> fst ` set ?cs"
  proof
    assume "r_id r \<in> fst ` set ?cs"
    then obtain c where c: "c \<in> set ?cs" "fst c = r_id r" by auto
    from groom_candidates_rows [OF c(1)] ne obtain q d where
      q: "q \<in> set (db_rows (nv_db s))" "c = groom_row q" "(r_camera q, d) \<in> set ?map" "0 < d" by auto
    with c r(1) have "q = r" by (auto simp: groom_row_def intro: db_ok_id_inj [OF ok])
    with q(3,4) r(2) zero show False
      using grm.policy_entry [of cam d "(cfg, Answers (Some m))" "nv_db s"] by simp
  qed
  then show ?thesis using r(1) by (simp add: groom_once_def Let_def groom_batch_only_candidates)
qed

theorem zero_means_never_witness:
  "db_rows demo_db ! 0 \<in> set (db_rows (nv_db (snd (groom_once demo_groom_cfg True 3000000 (\<lambda>_. 0) (\<lambda>_. Rewritten 4 9)
     (Answers (Some [(''g'', Some 0)])) demo_state))))"
proof (rule zero_means_never [where cam = "''g''"])
  show "[] \<notin> set (dict_keys (camera_groom_map demo_groom_cfg (Answers (Some [(''g'', Some 0)])) (nv_db demo_state)))"
    by (simp add: camera_groom_map_def demo_groom_cfg_def demo_defs get_cameras_def)
qed (use demo_ok in \<open>auto simp: nvr_ok_def demo_groom_cfg_def demo_defs\<close>)

end
