(* ===== verification/Storage_Pressure.thy ===== *)
theory Storage_Pressure
  imports Retention
begin

text \<open>
  Storage pressure as an operator sees it: \<open>services/nvr/storage/alerts.py\<close> (the pure decision
  \<open>evaluate\<close> and the alerter that notifies on transitions), \<open>capacity.py\<close> (the largest cap the volume
  can honour), \<open>settings.py\<close> (the persisted cap) and the API route that sets the cap. Message texts
  are values of a datatype that carries what the text is built from. The webhook's answer and the
  success of writing the state file are parameters of each step.
\<close>

subsection \<open>Alert levels\<close>

datatype level = OK | WARNING | CRITICAL

fun rank :: "level \<Rightarrow> nat" where
  "rank OK = 0"
| "rank WARNING = 1"
| "rank CRITICAL = 2"

lemma rank_inj: "rank a = rank b \<longleftrightarrow> a = b"
  by (cases a; cases b) simp_all

instantiation level :: linorder
begin

definition less_eq_level :: "level \<Rightarrow> level \<Rightarrow> bool" where
  "less_eq_level a b \<longleftrightarrow> rank a \<le> rank b"

definition less_level :: "level \<Rightarrow> level \<Rightarrow> bool" where
  "less_level a b \<longleftrightarrow> rank a < rank b"

instance
  by standard (auto simp: less_eq_level_def less_level_def rank_inj)

end

lemma OK_least [simp]: "OK \<le> a"
  by (simp add: less_eq_level_def)

lemma CRITICAL_greatest [simp]: "a \<le> CRITICAL"
  by (cases a) (simp_all add: less_eq_level_def)

datatype reason =
    Disk_critical rat
  | Disk_filling rat
  | Cap_shortens_retention int rat
  | Cap_evicting
  | Cap_nearly_used rat
  | Floor_evicted

fun reason_level :: "reason \<Rightarrow> level" where
  "reason_level (Disk_critical p) = CRITICAL"
| "reason_level (Disk_filling p) = WARNING"
| "reason_level (Cap_shortens_retention d e) = WARNING"
| "reason_level Cap_evicting = WARNING"
| "reason_level (Cap_nearly_used p) = WARNING"
| "reason_level Floor_evicted = CRITICAL"

record pressure =
  pr_size_cap_evictions :: int
  pr_size_cap_last_at :: "epoch option"
  pr_size_cap_last_freed :: int
  pr_disk_floor_evictions :: int
  pr_disk_floor_last_at :: "epoch option"

definition pressure_snapshot :: "retention_state \<Rightarrow> pressure" where
  "pressure_snapshot r =
     \<lparr>pr_size_cap_evictions = rs_size_cap_events r, pr_size_cap_last_at = rs_size_cap_last_at r,
      pr_size_cap_last_freed = rs_size_cap_last_freed r, pr_disk_floor_evictions = rs_disk_floor_events r,
      pr_disk_floor_last_at = rs_disk_floor_last_at r\<rparr>"

record verdict =
  vd_state :: level
  vd_reasons :: "reason list"
  vd_disk_used_pct :: "rat option"
  vd_cap_usage_pct :: "rat option"
  vd_cap_binding :: bool
  vd_effective_days :: "rat option"
  vd_configured_days :: "int option"
  vd_size_cap_evictions :: int
  vd_disk_floor_evictions :: int
  vd_checked_at :: epoch

definition round1 :: "rat \<Rightarrow> rat" where
  \<comment> \<open>Python's \<open>round(x, 1)\<close>\<close>
  "round1 x = of_int (round_half_even (x * 10)) / 10"

definition raise_to :: "level \<Rightarrow> reason \<Rightarrow> level \<times> reason list \<Rightarrow> level \<times> reason list" where
  "raise_to lv why acc =
     (case acc of (state, reasons) \<Rightarrow> (if rank lv > rank state then lv else state, reasons @ [why]))"

definition truthy :: "rat option \<Rightarrow> rat option" where
  \<comment> \<open>a float in a boolean position: \<open>None\<close> and 0 count as unset\<close>
  "truthy x = (case x of Some v \<Rightarrow> if v = 0 then None else Some v | None \<Rightarrow> None)"

definition recent :: "epoch \<Rightarrow> epoch option \<Rightarrow> bool" where
  "recent now stamp = (case truthy stamp of Some t \<Rightarrow> now - t \<le> 6 * 3600 | None \<Rightarrow> False)"

definition cap_usage :: "int \<Rightarrow> int option \<Rightarrow> rat option" where
  "cap_usage footage_bytes limit_bytes =
     (case limit_bytes of Some l \<Rightarrow> if l = 0 then None else Some (100 * of_int footage_bytes / of_int l) | None \<Rightarrow> None)"

definition evaluate ::
  "rat option \<Rightarrow> int \<Rightarrow> int option \<Rightarrow> pressure \<Rightarrow> epoch option \<Rightarrow> int option \<Rightarrow> epoch \<Rightarrow> verdict" where
  "evaluate used_pct footage_bytes limit_bytes pr oldest_epoch configured_days now =
     (let acc0 = (OK, []);
          acc1 = (case used_pct of
                    None \<Rightarrow> acc0
                  | Some u \<Rightarrow> if u \<ge> 95 then raise_to CRITICAL (Disk_critical u) acc0
                              else if u \<ge> 90 then raise_to WARNING (Disk_filling u) acc0 else acc0);
          cap_pct = cap_usage footage_bytes limit_bytes;
          binding = recent now (pr_size_cap_last_at pr);
          effective_days = map_option (\<lambda>o'. max 0 ((now - o') / 86400)) (truthy oldest_epoch);
          acc2 = (if binding then
                    (case (effective_days, configured_days) of
                       (Some e, Some d) \<Rightarrow>
                         if d \<noteq> 0 then raise_to WARNING (Cap_shortens_retention d e) acc1
                         else raise_to WARNING Cap_evicting acc1
                     | _ \<Rightarrow> raise_to WARNING Cap_evicting acc1)
                  else (case cap_pct of
                          Some p \<Rightarrow> if p \<ge> 90 then raise_to WARNING (Cap_nearly_used p) acc1 else acc1
                        | None \<Rightarrow> acc1));
          acc3 = (if recent now (pr_disk_floor_last_at pr) then raise_to CRITICAL Floor_evicted acc2 else acc2)
      in \<lparr>vd_state = fst acc3, vd_reasons = snd acc3, vd_disk_used_pct = used_pct,
          vd_cap_usage_pct = map_option round1 cap_pct, vd_cap_binding = binding,
          vd_effective_days = map_option round1 effective_days, vd_configured_days = configured_days,
          vd_size_cap_evictions = pr_size_cap_evictions pr, vd_disk_floor_evictions = pr_disk_floor_evictions pr,
          vd_checked_at = now\<rparr>)"

subsection \<open>The alerter\<close>

record alerter =
  al_url :: string
  al_current :: "verdict option"
  al_last_notified :: "level option"
  al_notify_failures :: int
  al_disk :: "level option"       \<comment> \<open>the state file: the level it names, \<^term>\<open>None\<close> when missing\<close>
  al_transitions :: "(level option \<times> level) list"  \<comment> \<open>every transition \<open>_notify\<close> was called for, in order\<close>
  al_posted :: "level list"       \<comment> \<open>the transitions the webhook accepted\<close>

definition alerter_load :: "level option \<Rightarrow> bool \<Rightarrow> level option" where
  \<comment> \<open>\<open>_load\<close>: an unreadable file starts fresh\<close>
  "alerter_load file readable = (if readable then file else None)"

definition alerter_init :: "string \<Rightarrow> level option \<Rightarrow> bool \<Rightarrow> alerter" where
  "alerter_init url file readable =
     \<lparr>al_url = url, al_current = None, al_last_notified = alerter_load file readable, al_notify_failures = 0,
      al_disk = file, al_transitions = [], al_posted = []\<rparr>"

definition alerter_save :: "level \<Rightarrow> bool \<Rightarrow> alerter \<Rightarrow> alerter" where
  "alerter_save lv writable a = (if writable then a\<lparr>al_disk := Some lv\<rparr> else a)"

definition alerter_notify :: "verdict \<Rightarrow> level option \<Rightarrow> bool \<Rightarrow> alerter \<Rightarrow> alerter" where
  "alerter_notify result previous webhook_ok a =
     (let a1 = a\<lparr>al_transitions := al_transitions a @ [(previous, vd_state result)]\<rparr>
      in if al_url a = [] then a1
         else if webhook_ok then a1\<lparr>al_notify_failures := 0, al_posted := al_posted a @ [vd_state result]\<rparr>
         else a1\<lparr>al_notify_failures := al_notify_failures a + 1\<rparr>)"

definition alerter_check :: "verdict \<Rightarrow> bool \<Rightarrow> bool \<Rightarrow> alerter \<Rightarrow> alerter" where
  "alerter_check result webhook_ok writable a =
     (let previous = al_last_notified a; a1 = a\<lparr>al_current := Some result\<rparr>
      in if Some (vd_state result) \<noteq> previous
         then alerter_save (vd_state result) writable
                ((alerter_notify result previous webhook_ok a1)\<lparr>al_last_notified := Some (vd_state result)\<rparr>)
         else a1)"

fun alerter_run :: "(verdict \<times> bool \<times> bool) list \<Rightarrow> alerter \<Rightarrow> alerter" where
  "alerter_run [] a = a"
| "alerter_run ((v, ok, wr) # rest) a = alerter_run rest (alerter_check v ok wr a)"

subsection \<open>Capacity\<close>

record headroom =
  hr_total :: int
  hr_used :: int
  hr_free :: int
  hr_reserve :: int
  hr_footage :: int
  hr_max_cap :: int

function existing_ancestor :: "(string list \<Rightarrow> bool) \<Rightarrow> string list \<Rightarrow> string list option" where
  \<comment> \<open>a path as its components below the root; the root's parent is the root itself\<close>
  "existing_ancestor exists p =
     (if exists p then Some p else if p = [] then None else existing_ancestor exists (butlast p))"
  by pat_completeness auto
termination
  by (relation "measure (\<lambda>(e, p). length p)") auto

declare existing_ancestor.simps [simp del]

definition probe ::
  "(string list \<Rightarrow> bool) \<Rightarrow> (string list \<Rightarrow> disk_usage option) \<Rightarrow> string list option \<Rightarrow> int \<Rightarrow> rat \<Rightarrow> headroom option" where
  "probe exists usage_of storage_path footage_bytes reserve_pct =
     (case storage_path of
        None \<Rightarrow> None
      | Some p \<Rightarrow>
          (case existing_ancestor exists p of
             None \<Rightarrow> None
           | Some resolved \<Rightarrow>
               (case usage_of resolved of
                  None \<Rightarrow> None
                | Some usage \<Rightarrow>
                    let reserve = py_int (of_int (du_total usage) * reserve_pct / 100);
                        footage = max 0 footage_bytes
                    in Some \<lparr>hr_total = du_total usage, hr_used = du_used usage, hr_free = du_free usage,
                             hr_reserve = reserve, hr_footage = footage,
                             hr_max_cap = max 0 (footage + du_free usage - reserve)\<rparr>)))"

definition max_cap_gb :: "headroom \<Rightarrow> int" where
  "max_cap_gb h = hr_max_cap h div 2 ^ 30"

fun py_contains :: "string \<Rightarrow> string \<Rightarrow> bool" where
  "py_contains s [] = True"
| "py_contains [] (t # ts) = False"
| "py_contains (x # xs) (t # ts) = (py_startswith (x # xs) (t # ts) \<or> py_contains xs (t # ts))"

definition virtual_kernel_markers :: "(string \<times> string list) list" where
  "virtual_kernel_markers =
     [(''wsl2'', [''microsoft-standard-wsl'', ''-microsoft-standard'']), (''linuxkit'', [''-linuxkit''])]"

definition detect_virtual_backing :: "string option \<Rightarrow> string option" where
  \<comment> \<open>the text of \<open>/proc/version\<close>; \<^term>\<open>None\<close> when it cannot be opened\<close>
  "detect_virtual_backing version =
     (case version of
        None \<Rightarrow> None
      | Some v \<Rightarrow> map_option fst
          (List.find (\<lambda>(name, markers). list_ex (\<lambda>m. py_contains (py_lower v) m) markers) virtual_kernel_markers))"

subsection \<open>The persisted cap and the route that sets it\<close>

datatype settings_file =
    Missing
  | Unreadable
  | No_cap_key       \<comment> \<open>valid JSON, but no object with the key\<close>
  | Cap_value "int option"

record storage_settings =
  ss_max_storage_bytes :: "int option"
  ss_file :: settings_file

definition settings_load :: "int option \<Rightarrow> settings_file \<Rightarrow> storage_settings" where
  \<comment> \<open>\<open>int(v) if v else None\<close>: a persisted 0 loads as uncapped\<close>
  "settings_load dflt file =
     \<lparr>ss_max_storage_bytes =
        (case file of
           Cap_value (Some v) \<Rightarrow> if v \<noteq> 0 then Some v else None
         | Cap_value None \<Rightarrow> None
         | _ \<Rightarrow> dflt),
      ss_file = file\<rparr>"

definition set_max_storage_bytes :: "int option \<Rightarrow> storage_settings \<Rightarrow> storage_settings" where
  "set_max_storage_bytes v st = st\<lparr>ss_max_storage_bytes := v, ss_file := Cap_value v\<rparr>"

datatype http_error = Http int

definition set_storage_limit ::
  "rat option \<Rightarrow> headroom option \<Rightarrow> storage_settings \<Rightarrow> http_error + (int option \<times> storage_settings)" where
  \<comment> \<open>\<open>gb\<close> is already validated to lie in [0, 1000000]; the probe is taken with the indexed total\<close>
  "set_storage_limit gb head st =
     (let limit_bytes = (case gb of Some g \<Rightarrow> if g \<noteq> 0 then Some (py_int (g * 2 ^ 30)) else None | None \<Rightarrow> None)
      in case (limit_bytes, head) of
           (Some l, Some h) \<Rightarrow>
             if l \<noteq> 0 \<and> l > hr_max_cap h then Inl (Http 400)
             else Inr (limit_bytes, set_max_storage_bytes limit_bytes st)
         | _ \<Rightarrow> Inr (limit_bytes, set_max_storage_bytes limit_bytes st))"

subsection \<open>The verdict\<close>

definition severity :: "reason list \<Rightarrow> level" where
  "severity rs = foldr (\<lambda>r. max (reason_level r)) rs OK"

lemma rank_less_iff: "rank a < rank b \<longleftrightarrow> a < b"
  by (simp add: less_level_def)

lemma severity_snoc: "severity (rs @ [r]) = max (reason_level r) (severity rs)"
proof -
  have "foldr (\<lambda>r. max (reason_level r)) rs (max a b) = max a (foldr (\<lambda>r. max (reason_level r)) rs b)" for a b
    by (induction rs) (auto simp: max.left_commute)
  from this [of "reason_level r" OK] show ?thesis by (simp add: severity_def)
qed

lemma raise_to_severity:
  "fst acc = severity (snd acc) \<Longrightarrow>
    fst (raise_to (reason_level r) r acc) = severity (snd (raise_to (reason_level r) r acc))"
  by (cases acc) (auto simp: raise_to_def severity_snoc rank_less_iff max_def)

lemma raise_to_fst: "fst (raise_to lv r acc) = max lv (fst acc)"
  by (cases acc) (auto simp: raise_to_def rank_less_iff max_def)

lemma raise_to_snd: "snd (raise_to lv r acc) = snd acc @ [r]"
  by (cases acc) (auto simp: raise_to_def)

lemma severity_Cons: "severity (r # rs) = max (reason_level r) (severity rs)"
  by (simp add: severity_def)

lemma reason_level_not_OK: "OK < reason_level r"
  by (cases r) (simp_all add: less_level_def)

lemma severity_OK: "severity rs = OK \<longleftrightarrow> rs = []"
proof (cases rs)
  case (Cons r rest)
  have "OK < severity (r # rest)"
    unfolding severity_Cons using reason_level_not_OK [of r] by (rule less_le_trans) simp
  with Cons show ?thesis by auto
qed (simp add: severity_def)

text \<open>
  The alert level is right and explained. \<open>evaluate\<close> says CRITICAL exactly when the disk is at least
  95 percent full or the disk floor evicted within six hours; otherwise WARNING exactly when the
  disk is at least 90 percent full, the cap evicted within six hours, or the cap is at least 90
  percent used; and the level is always the most severe of the listed reasons, with no reason
  listed exactly when it is OK.
\<close>

theorem evaluate_level:
  fixes used limit pr oldest days now footage
  defines "v \<equiv> evaluate used footage limit pr oldest days now"
  shows "vd_state v =
    (if (case used of Some u \<Rightarrow> 95 \<le> u | None \<Rightarrow> False) \<or> recent now (pr_disk_floor_last_at pr) then CRITICAL
     else if (case used of Some u \<Rightarrow> 90 \<le> u | None \<Rightarrow> False) \<or> recent now (pr_size_cap_last_at pr) \<or>
       (case cap_usage footage limit of Some p \<Rightarrow> 90 \<le> p | None \<Rightarrow> False) then WARNING
     else OK) \<and>
    vd_state v = severity (vd_reasons v) \<and> (vd_reasons v = [] \<longleftrightarrow> vd_state v = OK)"
proof -
  have sev: "vd_state v = severity (vd_reasons v)"
    unfolding v_def evaluate_def Let_def
    by (auto simp: raise_to_fst raise_to_snd severity_snoc severity_def split: option.split)
  moreover have "vd_state v =
    (if (case used of Some u \<Rightarrow> 95 \<le> u | None \<Rightarrow> False) \<or> recent now (pr_disk_floor_last_at pr) then CRITICAL
     else if (case used of Some u \<Rightarrow> 90 \<le> u | None \<Rightarrow> False) \<or> recent now (pr_size_cap_last_at pr) \<or>
       (case cap_usage footage limit of Some p \<Rightarrow> 90 \<le> p | None \<Rightarrow> False) then WARNING
     else OK)"
    unfolding v_def evaluate_def Let_def
    by (auto simp: raise_to_fst max_def less_eq_level_def split: option.split)
  ultimately show ?thesis by (simp add: severity_OK)
qed

subsection \<open>Notifications\<close>

fun changes :: "level option \<Rightarrow> level list \<Rightarrow> (level option \<times> level) list" where
  "changes prev [] = []"
| "changes prev (x # xs) = (if Some x \<noteq> prev then (prev, x) # changes (Some x) xs else changes prev xs)"

lemma alerter_check_fields:
  "al_last_notified (alerter_check v ok wr a) = Some (vd_state v)"
  "al_transitions (alerter_check v ok wr a) =
     al_transitions a @ (if Some (vd_state v) \<noteq> al_last_notified a then [(al_last_notified a, vd_state v)] else [])"
  "al_disk (alerter_check v ok wr a) =
     (if Some (vd_state v) \<noteq> al_last_notified a \<and> wr then Some (vd_state v) else al_disk a)"
  "al_url (alerter_check v ok wr a) = al_url a"
  by (auto simp: alerter_check_def alerter_save_def alerter_notify_def Let_def)

lemma alerter_run_transitions:
  "al_transitions (alerter_run vs a) =
     al_transitions a @ changes (al_last_notified a) (map (vd_state \<circ> fst) vs)"
  by (induction vs a rule: alerter_run.induct) (auto simp: alerter_check_fields)

lemma alerter_run_disk:
  "\<forall>(v, ok, wr) \<in> set vs. wr \<Longrightarrow> al_disk a = al_last_notified a \<Longrightarrow>
    al_disk (alerter_run vs a) = al_last_notified (alerter_run vs a)"
  by (induction vs a rule: alerter_run.induct) (auto simp: alerter_check_fields)

lemma alerter_run_url: "al_url (alerter_run vs a) = al_url a"
  by (induction vs a rule: alerter_run.induct) (auto simp: alerter_check_fields)

lemma changes_append: "changes p (xs @ ys) = changes p xs @ changes (if xs = [] then p else Some (last xs)) ys"
  by (induction xs arbitrary: p) auto

lemma alerter_run_last:
  "al_last_notified (alerter_run vs a) =
    (if vs = [] then al_last_notified a else Some (last (map (vd_state \<circ> fst) vs)))"
  by (induction vs a rule: alerter_run.induct) (auto simp: alerter_check_fields last_map)

text \<open>
  The alerter speaks once per transition, across restarts. Over any sequence of checks the
  notifications are exactly the changes of level, whatever the webhook answers; and when the state
  file can be written, splitting the sequence by a restart that reloads the file neither repeats
  nor loses a notification.
\<close>

theorem alerter_notifies_transitions:
  assumes "\<forall>(v, ok, wr) \<in> set vs. wr" and "al_disk a = al_last_notified a"
  shows "al_transitions (alerter_run (vs @ ws) a) =
      al_transitions a @ changes (al_last_notified a) (map (vd_state \<circ> fst) (vs @ ws)) \<and>
    al_transitions a @ changes (al_last_notified a) (map (vd_state \<circ> fst) (vs @ ws)) =
      al_transitions (alerter_run vs a) @
      al_transitions (alerter_run ws (alerter_init (al_url a) (al_disk (alerter_run vs a)) True))"
  using alerter_run_disk [OF assms]
  by (simp add: alerter_run_transitions alerter_init_def alerter_load_def changes_append alerter_run_last last_map)

definition demo_verdict :: "rat \<Rightarrow> verdict" where
  "demo_verdict used = evaluate (Some used) 0 None (pressure_snapshot initial_retention_state) None None 100"

theorem alerter_notifies_transitions_witness:
  "map snd (al_transitions (alerter_run [(demo_verdict 96, False, True), (demo_verdict 97, True, True), (demo_verdict 50, True, True)]
     (alerter_init ''u'' None True))) = [CRITICAL, OK]"
proof -
  have l: "vd_state (demo_verdict 96) = CRITICAL" "vd_state (demo_verdict 97) = CRITICAL" "vd_state (demo_verdict 50) = OK"
    by (simp_all add: demo_verdict_def evaluate_def raise_to_def recent_def truthy_def cap_usage_def pressure_snapshot_def
        initial_retention_state_def)
  show ?thesis
    using conjunct1 [OF alerter_notifies_transitions [of "[(demo_verdict 96, False, True), (demo_verdict 97, True, True)]"
        "alerter_init ''u'' None True" "[(demo_verdict 50, True, True)]"]]
    by (simp add: alerter_init_def alerter_load_def l)
qed


subsection \<open>The ceiling of the cap\<close>

lemma probe_fields:
  assumes "probe exists usage_of sp footage pct = Some h"
  shows "hr_reserve h = py_int (of_int (hr_total h) * pct / 100) \<and>
    hr_max_cap h = max 0 (max 0 footage + hr_free h - hr_reserve h)"
  using assms by (auto simp: probe_def Let_def split: option.splits)

lemma max_cap_gb_le: "max_cap_gb h * 2 ^ 30 \<le> hr_max_cap h"
proof -
  have "0 \<le> hr_max_cap h mod 2 ^ 30" by (rule pos_mod_sign) simp
  then show ?thesis
    unfolding max_cap_gb_def by (simp only: minus_mod_eq_div_mult [symmetric])
qed

lemma set_storage_limit_accepts:
  assumes "g \<noteq> 0" and "py_int (g * 2 ^ 30) \<le> hr_max_cap h"
  shows "set_storage_limit (Some g) (Some h) st =
    Inr (Some (py_int (g * 2 ^ 30)), set_max_storage_bytes (Some (py_int (g * 2 ^ 30))) st)"
  using assms by (simp add: set_storage_limit_def Let_def)

lemma reserve_arith:
  fixes t r x :: rat
  assumes "34 \<le> t" and "t * 8 / 100 < r + 1" and "r \<le> x"
  shows "5 * t \<le> 100 * x"
  using assms by (simp add: field_simps)

lemma set_storage_limit_le:
  assumes "set_storage_limit (Some g) (Some h) st = Inr (Some cap, st')" and "cap \<noteq> 0"
  shows "cap \<le> hr_max_cap h \<and> cap = py_int (g * 2 ^ 30)"
  using assms by (auto simp: set_storage_limit_def Let_def split: if_splits)

text \<open>
  The advertised ceiling is settable and honest. The whole-gigabyte maximum the storage API
  reports is accepted by the route that sets the cap; and a cap that the route accepts on a measured volume, once
  the footage has grown to fill it and nothing else on the volume has changed, still leaves the
  eviction target free, so that the 5 percent disk floor does not override it.
\<close>

theorem cap_ceiling:
  assumes "probe exists usage_of sp footage disk_target_free_pct = Some h" and "0 \<le> footage" and "34 \<le> hr_total h"
    and "set_storage_limit (Some gb) (Some h) st = Inr (Some cap, st')" and "0 \<le> gb" and "cap \<noteq> 0"
  shows "hr_reserve h \<le> hr_free h - (cap - footage) \<and>
    disk_floor_free_pct \<le> 100 * of_int (hr_free h - (cap - footage)) / of_int (hr_total h) \<and>
    (0 < max_cap_gb h \<longrightarrow> (\<exists>st2. set_storage_limit (Some (of_int (max_cap_gb h))) (Some h) st =
      Inr (Some (max_cap_gb h * 2 ^ 30), st2)))"
proof -
  note h = probe_fields [OF assms(1)] and cap = set_storage_limit_le [OF assms(4,6)]
  have "0 \<le> py_int (gb * 2 ^ 30)" using assms(5) by (intro py_int_nonneg) simp
  with cap assms(6) have pos: "0 < cap" by simp
  with h cap assms(2) have room: "hr_reserve h \<le> hr_free h - (cap - footage)" by auto
  have total: "(34 :: rat) \<le> of_int (hr_total h)" using assms(3) by linarith
  then have "of_int (hr_total h) * 8 / 100 < (of_int (hr_reserve h) :: rat) + 1"
    unfolding conjunct1 [OF h] disk_target_free_pct_def by (intro py_int_gt) (use total in simp)
  moreover have "of_int (hr_reserve h) \<le> (of_int (hr_free h - (cap - footage)) :: rat)"
    using room by (simp only: of_int_le_iff)
  ultimately have "(5 :: rat) * of_int (hr_total h) \<le> 100 * of_int (hr_free h - (cap - footage))"
    by (intro reserve_arith [OF total])
  then have "disk_floor_free_pct \<le> 100 * of_int (hr_free h - (cap - footage)) / of_int (hr_total h)"
    using total by (simp add: disk_floor_free_pct_def pos_le_divide_eq)
  moreover have "\<exists>st2. set_storage_limit (Some (of_int (max_cap_gb h))) (Some h) st =
      Inr (Some (max_cap_gb h * 2 ^ 30), st2)" if "0 < max_cap_gb h"
    using set_storage_limit_accepts [of "of_int (max_cap_gb h)" h st] that max_cap_gb_le [of h]
      py_int_of_int [of "max_cap_gb h * 2 ^ 30"] by simp
  ultimately show ?thesis using room by blast
qed

definition demo_headroom :: headroom where
  "demo_headroom = \<lparr>hr_total = 100 * 2 ^ 30, hr_used = 40 * 2 ^ 30, hr_free = 60 * 2 ^ 30, hr_reserve = 8 * 2 ^ 30,
     hr_footage = 20 * 2 ^ 30, hr_max_cap = 72 * 2 ^ 30\<rparr>"

lemma demo_probe:
  "probe (\<lambda>p. p = []) (\<lambda>p. Some \<lparr>du_total = 100 * 2 ^ 30, du_used = 40 * 2 ^ 30, du_free = 60 * 2 ^ 30\<rparr>)
     (Some [''footage'']) (20 * 2 ^ 30) disk_target_free_pct = Some demo_headroom"
  by (simp add: probe_def existing_ancestor.simps demo_headroom_def disk_target_free_pct_def py_int_def)

theorem cap_ceiling_witness:
  "max_cap_gb demo_headroom = 72 \<and>
   hr_reserve demo_headroom \<le> hr_free demo_headroom - (72 * 2 ^ 30 - 20 * 2 ^ 30) \<and>
   (\<exists>st2. set_storage_limit (Some 72) (Some demo_headroom) (settings_load None Missing) = Inr (Some (72 * 2 ^ 30), st2))"
proof -
  have gb: "max_cap_gb demo_headroom = 72" by (simp add: max_cap_gb_def demo_headroom_def)
  have ok: "set_storage_limit (Some 72) (Some demo_headroom) (settings_load None Missing) =
      Inr (Some (72 * 2 ^ 30), set_max_storage_bytes (Some (72 * 2 ^ 30)) (settings_load None Missing))"
    by (simp add: set_storage_limit_def demo_headroom_def py_int_def Let_def)
  have "34 \<le> hr_total demo_headroom" by (simp add: demo_headroom_def)
  with cap_ceiling [OF demo_probe _ _ ok] gb ok show ?thesis by simp
qed

subsection \<open>A cap below one byte\<close>

lemma settings_restart:
  "settings_load d (ss_file (set_max_storage_bytes v st)) =
    \<lparr>ss_max_storage_bytes = (if v = Some 0 then None else v), ss_file = Cap_value v\<rparr>"
  by (auto simp: settings_load_def set_max_storage_bytes_def split: option.split)

lemma py_int_fraction: "0 \<le> x \<Longrightarrow> x < 1 \<Longrightarrow> py_int x = 0"
  unfolding py_int_def by (simp add: floor_eq_iff)

text \<open>
  A positive cap below one byte is stored as the cap 0, which means two things. The route
  accepts it on every volume; until the next restart the retention pass reads it as a limit of zero bytes and
  evicts all footage; a restart reads the very same file as uncapped.
\<close>

theorem tiny_cap_evicts_everything:
  assumes "0 < gb" and "gb * 2 ^ 30 < 1" and "db_ok (nv_db s)"
    and "\<forall>r \<in> set (db_rows (nv_db s)). \<not> fs_unlink_err (nv_fs s) (r_path r)"
  shows "\<exists>st'. set_storage_limit (Some gb) head st = Inr (Some 0, st') \<and>
    total_size None (nv_db (cap_phase cfg (env\<lparr>pe_cap := Answers (ss_max_storage_bytes st')\<rparr>) s)) \<le> 0 \<and>
    ss_max_storage_bytes (settings_load d (ss_file st')) = None"
proof -
  have "py_int (gb * 2 ^ 30) = 0" using assms(1,2) by (intro py_int_fraction) auto
  then have "set_storage_limit (Some gb) head st = Inr (Some 0, set_max_storage_bytes (Some 0) st)"
    using assms(1) by (simp add: set_storage_limit_def Let_def split: option.split)
  moreover have "size_limit cfg (env\<lparr>pe_cap := Answers (Some 0)\<rparr>) = Some 0" by (simp add: size_limit_def)
  ultimately show ?thesis
    using cap_phase_total [OF assms(3) _ _ assms(4), of cfg _ 0] settings_restart
    by (auto simp: set_max_storage_bytes_def settings_load_def)
qed

theorem tiny_cap_evicts_everything_witness:
  "\<exists>st'. set_storage_limit (Some (1 / 2 ^ 40)) None (settings_load None Missing) = Inr (Some 0, st') \<and>
    total_size None (nv_db (cap_phase demo_cfg (demo_env\<lparr>pe_cap := Answers (ss_max_storage_bytes st')\<rparr>) demo_state)) \<le> 0"
  using tiny_cap_evicts_everything [of "1 / 2 ^ 40" demo_state None "settings_load None Missing" demo_cfg demo_env None] demo_ok
  by (auto simp: nvr_ok_def demo_defs)

end
