(* ===== verification/Recording_Engine.thy ===== *)
theory Recording_Engine
  imports Stream_Worker Grooming Storage_Pressure
begin

text \<open>
  The recording engine, \<open>services/nvr/recorder/engine.py\<close>: the workers by camera, the retention and
  groom-after overrides, and one cycle of the health monitor (restart dead workers, restart wedged
  ones, sample the disk and relieve it, reconcile). Then the recorder's storage as a transition
  system: every operation of the engine, the workers, retention and grooming is a step, and the
  invariant that the index mirrors the disk holds in every reachable state.
\<close>

subsection \<open>State\<close>

record camera_cfg =
  cc_name :: string
  cc_url :: string
  cc_retention :: "int option"
  cc_groom :: "int option"

datatype disk_state =
    Disk_unsampled                \<comment> \<open>\<open>{"state": "unknown"}\<close>, before the first check and after a failed one\<close>
  | Disk_sampled rat level "string option"   \<comment> \<open>\<open>used_pct\<close>, \<open>state\<close>, \<open>virtual_backing\<close>\<close>

record engine =
  en_cameras :: "camera_cfg list"
  en_storage :: path
  en_duration :: int
  en_transport :: string
  en_reconnect :: rat
  en_loglevel :: string
  en_workers :: "(string, worker) dict"
  en_retention :: "(string, int) dict"
  en_groom :: "(string, int) dict"
  en_last_reconcile :: epoch
  en_disk :: disk_state
  en_stopping :: bool

subsection \<open>Cameras\<close>

definition engine_worker :: "engine \<Rightarrow> string \<Rightarrow> string \<Rightarrow> json list \<Rightarrow> worker" where
  "engine_worker e name url masks =
     new_worker name url (en_storage e) (en_duration e) (en_transport e) (en_reconnect e) (en_loglevel e) masks"

definition configure_camera :: "camera_cfg \<Rightarrow> engine \<Rightarrow> engine" where
  \<comment> \<open>the body of the constructor's loop: a retention of 0 is no retention, a groom-after of 0 is a setting\<close>
  "configure_camera c e =
     e\<lparr>en_workers := AList.update (cc_name c) (engine_worker e (cc_name c) (cc_url c) []) (en_workers e),
       en_retention := (case cc_retention c of
          Some d \<Rightarrow> if d \<noteq> 0 then AList.update (cc_name c) d (en_retention e) else en_retention e
        | None \<Rightarrow> en_retention e),
       en_groom := (case cc_groom c of
          Some d \<Rightarrow> AList.update (cc_name c) d (en_groom e) | None \<Rightarrow> en_groom e)\<rparr>"

definition engine_init :: "camera_cfg list \<Rightarrow> path \<Rightarrow> int \<Rightarrow> string \<Rightarrow> rat \<Rightarrow> string \<Rightarrow> engine" where
  "engine_init cameras storage duration transport reconnect loglevel =
     fold configure_camera cameras
       \<lparr>en_cameras = cameras, en_storage = storage, en_duration = duration, en_transport = transport,
        en_reconnect = reconnect, en_loglevel = loglevel, en_workers = [], en_retention = [], en_groom = [],
        en_last_reconcile = 0, en_disk = Disk_unsampled, en_stopping = False\<rparr>"

definition set_retention :: "string \<Rightarrow> int \<Rightarrow> engine \<Rightarrow> engine" where
  "set_retention name days e = e\<lparr>en_retention := AList.update name days (en_retention e)\<rparr>"

definition set_groom_after :: "string \<Rightarrow> int option \<Rightarrow> engine \<Rightarrow> engine" where
  "set_groom_after name days e =
     e\<lparr>en_groom := (case days of None \<Rightarrow> AList.delete name (en_groom e) | Some d \<Rightarrow> AList.update name d (en_groom e))\<rparr>"

definition map_workers :: "(string \<Rightarrow> worker \<Rightarrow> worker) \<Rightarrow> engine \<Rightarrow> engine" where
  "map_workers g e = e\<lparr>en_workers := map (\<lambda>(n, w). (n, g n w)) (en_workers e)\<rparr>"

definition engine_start :: "epoch \<Rightarrow> engine \<Rightarrow> engine" where
  "engine_start now e = (map_workers (\<lambda>_. worker_start) e)\<lparr>en_stopping := False, en_last_reconcile := now\<rparr>"

definition engine_stop :: "engine \<Rightarrow> engine" where
  "engine_stop e = (map_workers (\<lambda>_. worker_stop) e)\<lparr>en_stopping := True\<rparr>"

datatype engine_error = Already_exists | Not_found

definition add_camera ::
  "string \<Rightarrow> string \<Rightarrow> int \<Rightarrow> json list \<Rightarrow> int option \<Rightarrow> engine \<Rightarrow> engine_error + engine" where
  "add_camera name url days masks groom e =
     (if map_of (en_workers e) name \<noteq> None then Inl Already_exists
      else Inr (e\<lparr>en_workers := AList.update name (worker_start (engine_worker e name url masks)) (en_workers e),
                 en_retention := AList.update name days (en_retention e),
                 en_groom := (case groom of Some g \<Rightarrow> AList.update name g (en_groom e) | None \<Rightarrow> en_groom e)\<rparr>))"

definition remove_camera :: "string \<Rightarrow> engine \<Rightarrow> engine_error + engine" where
  "remove_camera name e =
     (if map_of (en_workers e) name = None then Inl Not_found
      else Inr (e\<lparr>en_workers := AList.delete name (en_workers e)\<rparr>))"

subsection \<open>The health monitor\<close>

record system =
  sy_engine :: engine
  sy_nvr :: nvr

definition restart :: "worker \<Rightarrow> worker" where
  "restart w = worker_start (worker_stop w)"

definition restart_dead :: "engine \<Rightarrow> engine" where
  "restart_dead e =
     map_workers (\<lambda>_ w. if \<not> worker_alive w \<and> \<not> en_stopping e then restart w else w) e"

definition restart_wedged :: "(civil \<Rightarrow> epoch) \<Rightarrow> epoch \<Rightarrow> fs \<Rightarrow> engine \<Rightarrow> engine" where
  "restart_wedged local_epoch now f e =
     (if en_stopping e then e
      else map_workers (\<lambda>_ w. if is_segment_stalled local_epoch now f w then restart w else w) e)"

definition stale_cameras :: "epoch \<Rightarrow> engine \<Rightarrow> string list" where
  \<comment> \<open>the cameras the staleness alarm names\<close>
  "stale_cameras now e =
     map fst (filter (\<lambda>(n, w). case index_lag now w of Some lag \<Rightarrow> lag > of_int (3 * en_duration e) | None \<Rightarrow> False)
       (en_workers e))"

definition used_pct :: "disk_usage \<Rightarrow> rat" where
  "used_pct u = (if du_total u \<noteq> 0 then 100 * of_int (du_used u) / of_int (du_total u) else 0)"

definition disk_level :: "rat \<Rightarrow> level" where
  "disk_level pct = (if pct \<ge> 95 then CRITICAL else if pct \<ge> 90 then WARNING else OK)"

definition check_disk_space ::
  "retention_cfg \<Rightarrow> pass_env \<Rightarrow> bool \<Rightarrow> string option \<Rightarrow> system \<Rightarrow> system" where
  \<comment> \<open>the flag says that the disk-pressure callback is wired; it is \<open>enforce_disk_floor\<close>\<close>
  "check_disk_space cfg env wired virtual s =
     (case pe_usage env (nv_fs (sy_nvr s)) of
        None \<Rightarrow> s\<lparr>sy_engine := (sy_engine s)\<lparr>en_disk := Disk_unsampled\<rparr>\<rparr>
      | Some usage \<Rightarrow>
          let pct = used_pct usage;
              relieved = (if pct \<ge> 95 \<and> wired then snd (enforce_disk_floor cfg env (sy_nvr s)) else sy_nvr s)
          in s\<lparr>sy_engine := (sy_engine s)\<lparr>en_disk := Disk_sampled (round1 pct) (disk_level pct) virtual\<rparr>,
               sy_nvr := relieved\<rparr>)"

definition reconcile_days :: "engine \<Rightarrow> string \<Rightarrow> int" where
  "reconcile_days e name =
     (case map_of (fold (\<lambda>c d. AList.update (cc_name c) (case cc_retention c of Some k \<Rightarrow> k | None \<Rightarrow> 30) d)
                    (en_cameras e) []) name of
        Some d \<Rightarrow> d | None \<Rightarrow> 30)"

fun reconcile_workers ::
  "worker_env \<Rightarrow> engine \<Rightarrow> fs \<Rightarrow> (string, worker) dict \<Rightarrow> index_db \<Rightarrow> (string, worker) dict \<times> index_db" where
  "reconcile_workers env e f [] db = ([], db)"
| "reconcile_workers env e f ((name, w) # ws) db =
     (let (_, w', db') = reconcile env f (Some (reconcile_days e name * 86400)) (w, db);
          (ws', db'') = reconcile_workers env e f ws db'
      in ((name, w') # ws', db''))"

definition reconcile_all :: "worker_env \<Rightarrow> system \<Rightarrow> system" where
  "reconcile_all env s =
     (let e = sy_engine s; n = sy_nvr s;
          (ws, db) = reconcile_workers env e (nv_fs n) (en_workers e) (nv_db n)
      in s\<lparr>sy_engine := e\<lparr>en_workers := ws\<rparr>, sy_nvr := n\<lparr>nv_db := db\<rparr>\<rparr>)"

definition health_cycle ::
  "retention_cfg \<Rightarrow> pass_env \<Rightarrow> worker_env \<Rightarrow> bool \<Rightarrow> string option \<Rightarrow> system \<Rightarrow> system" where
  \<comment> \<open>one turn of the monitor's loop; \<open>we_now\<close> is its clock reading\<close>
  "health_cycle cfg env wenv wired virtual s =
     (if en_stopping (sy_engine s) then s
      else let now = we_now wenv;
               s1 = s\<lparr>sy_engine := restart_dead (sy_engine s)\<rparr>;
               s2 = s1\<lparr>sy_engine := restart_wedged (we_local wenv) now (nv_fs (sy_nvr s1)) (sy_engine s1)\<rparr>;
               s3 = check_disk_space cfg env wired virtual s2
           in if now - en_last_reconcile (sy_engine s3) \<ge> 600
              then (let s4 = reconcile_all wenv s3
                    in s4\<lparr>sy_engine := (sy_engine s4)\<lparr>en_last_reconcile := now\<rparr>\<rparr>)
              else s3)"


subsection \<open>Workers keep their identity\<close>

definition worker_ok :: "path \<Rightarrow> string \<times> worker \<Rightarrow> bool" where
  "worker_ok storage nw \<longleftrightarrow> wk_camera (snd nw) = fst nw \<and> wk_dir (snd nw) = path_join storage (fst nw)"

lemma worker_frames [frame_simps, simp]:
  "wk_camera (worker_start w) = wk_camera w" "wk_dir (worker_start w) = wk_dir w"
  "wk_camera (worker_stop w) = wk_camera w" "wk_dir (worker_stop w) = wk_dir w"
  "wk_camera (after_exit w) = wk_camera w" "wk_dir (after_exit w) = wk_dir w"
  by (simp_all add: worker_start_def worker_stop_def after_exit_def)

lemma restart_frame [frame_simps, simp]:
  "wk_camera (restart w) = wk_camera w" "wk_dir (restart w) = wk_dir w"
  by (simp_all add: restart_def)


lemma index_segment_line_frame:
  "index_segment_line env f line (w, db) = Some (w', db') \<Longrightarrow> wk_camera w' = wk_camera w \<and> wk_dir w' = wk_dir w"
  by (auto simp: index_segment_line_def Let_def split: if_splits option.splits)

lemma watch_lines_frame:
  "wk_camera (fst (watch_lines env f ls st)) = wk_camera (fst st) \<and> wk_dir (fst (watch_lines env f ls st)) = wk_dir (fst st)"
proof (induction ls arbitrary: st)
  case (Cons line ls)
  then show ?case
    by (cases st) (auto simp: Let_def split: option.split dest: index_segment_line_frame)
qed simp

lemma reconcile_frame:
  "reconcile env f lb (w, db) = (n, w', db') \<Longrightarrow> wk_camera w' = wk_camera w \<and> wk_dir w' = wk_dir w"
  by (auto simp: reconcile_def Let_def reconcile_loop_result split: if_splits)

subsection \<open>Indexing keeps the invariant of the storage\<close>

text \<open>The directory a camera records to is neither the clips directory nor below the HLS cache.\<close>

definition home_ok :: "retention_cfg \<Rightarrow> path \<Rightarrow> string \<Rightarrow> bool" where
  "home_ok cfg storage n \<longleftrightarrow> rc_storage_path cfg = Some storage \<and>
     (\<forall>p. parent_dir p = path_join storage n \<longrightarrow> parent_dir p \<noteq> rc_clips_path cfg \<and>
        parent_dir (parent_dir p) \<noteq> rc_hls_path cfg \<and> \<not> py_startswith p (rc_hls_path cfg @ ''/''))"

lemma nvr_ok_add_segment [inv_intros]:
  assumes "nvr_ok cfg s" and "home_ok cfg storage (seg_camera g)" and "parent_dir (seg_filepath g) = path_join storage (seg_camera g)"
    and "0 \<le> seg_start g" and "map_of (fs_files (nv_fs s)) (seg_filepath g) = Some i" and "seg_size g = fi_size i"
  shows "nvr_ok cfg (s\<lparr>nv_db := add_segment g (nv_db s)\<rparr>)"
  using assms db_ok_add [of "nv_db s" g]
  by (auto simp: nvr_ok_def mirrored_def add_segment_rows segment_home_def home_ok_def)

lemma parse_time_value: "parse_filename_time g name = Some t \<Longrightarrow> \<exists>c. t = g c"
  by (auto simp: parse_filename_time_def Let_def simp del: split_paired_Ex split: option.splits if_splits)

lemma index_segment_line_ok:
  assumes "index_segment_line env (nv_fs s) line (w, nv_db s) = Some (w', db')"
    and "nvr_ok cfg s" and "worker_ok storage (n, w)" and "home_ok cfg storage n"
    and "\<And>c. 0 \<le> we_local env c" and "\<not> py_startswith (py_strip (hd (split_on CHR '','' line))) ''/''"
  shows "nvr_ok cfg (s\<lparr>nv_db := db'\<rparr>)"
proof (cases "db' = nv_db s")
  case False
  let ?p = "path_join (wk_dir w) (base_name (py_strip (hd (split_on CHR '','' line))))"
  have base: "CHR ''/'' \<notin> set (base_name q)" for q
    unfolding base_name_def path_parts_def by (rule split_on_sep_free [where s = q]) simp
  obtain i t d where r: "map_of (fs_files (nv_fs s)) ?p = Some i" "parse_filename_time (we_local env) (base_name ?p) = Some t"
    "db' = add_segment \<lparr>seg_camera = wk_camera w, seg_start = t, seg_duration = d, seg_filepath = ?p, seg_size = fi_size i\<rparr> (nv_db s)"
    using assms(1,6) False by (auto simp: index_segment_line_def Let_def split: if_splits option.splits)
  have "0 \<le> t" using parse_time_value [OF r(2)] assms(5) by metis
  then show ?thesis
    unfolding r(3) using assms(2,3,4) r(1) base
    by (intro nvr_ok_add_segment [where storage = storage]) (auto simp: worker_ok_def parent_dir_join)
qed (use assms(2) in simp)

lemma watch_lines_ok:
  assumes "\<And>c. 0 \<le> we_local env c" and "home_ok cfg storage n"
    and "\<And>line. line \<in> set ls \<Longrightarrow> \<not> py_startswith (py_strip (hd (split_on CHR '','' (py_strip line)))) ''/''"
    and "worker_ok storage (n, w)" and "nvr_ok cfg (s\<lparr>nv_db := db\<rparr>)"
  shows "nvr_ok cfg (s\<lparr>nv_db := snd (watch_lines env (nv_fs s) ls (w, db))\<rparr>)"
  using assms(3-)
proof (induction ls arbitrary: w db)
  case (Cons line ls)
  show ?case
  proof (cases "index_segment_line env (nv_fs s) (py_strip line) (w, db)")
    case (Some st)
    obtain w' db' where st: "st = (w', db')" by (cases st)
    have "nvr_ok cfg ((s\<lparr>nv_db := db\<rparr>)\<lparr>nv_db := db'\<rparr>)"
      by (rule index_segment_line_ok [of env "s\<lparr>nv_db := db\<rparr>" "py_strip line" w w' db' cfg storage n])
        (use Some st Cons.prems assms(1,2) in auto)
    moreover have "worker_ok storage (n, w')"
      using index_segment_line_frame [OF Some [unfolded st]] Cons.prems(2) by (simp add: worker_ok_def)
    ultimately show ?thesis using Some st Cons.IH Cons.prems by (simp add: Let_def)
  qed (use Cons in \<open>simp add: Let_def\<close>)
qed simp

lemma found_segment_file:
  assumes "g \<in> set (found_segments env f lb idx (files_in (wk_dir w) ''.ts'' f) w)" and "\<And>c. 0 \<le> we_local env c"
  shows "parent_dir (seg_filepath g) = wk_dir w \<and> seg_camera g = wk_camera w \<and> 0 \<le> seg_start g \<and>
    (\<exists>i. map_of (fs_files f) (seg_filepath g) = Some i \<and> seg_size g = fi_size i)"
proof -
  obtain p i where "p \<in> set (files_in (wk_dir w) ''.ts'' f)" "map_of (fs_files f) p = Some i" "seg_filepath g = p"
    "seg_camera g = wk_camera w" "seg_size g = fi_size i"
    "parse_filename_time (we_local env) (base_name p) = Some (seg_start g)"
    using assms(1) unfolding found_segments_spec by blast
  moreover from this(6) have "0 \<le> seg_start g" using parse_time_value assms(2) by metis
  ultimately show ?thesis by (auto simp: files_in_def)
qed

lemma nvr_ok_fold_add:
  assumes "\<And>g. g \<in> set ss \<Longrightarrow> parent_dir (seg_filepath g) = path_join storage n \<and> seg_camera g = n \<and> 0 \<le> seg_start g \<and>
      (\<exists>i. map_of (fs_files (nv_fs s)) (seg_filepath g) = Some i \<and> seg_size g = fi_size i)"
    and "home_ok cfg storage n" and "nvr_ok cfg (s\<lparr>nv_db := db\<rparr>)"
  shows "nvr_ok cfg (s\<lparr>nv_db := fold add_segment ss db\<rparr>)"
  using assms
proof (induction ss arbitrary: db)
  case (Cons g ss)
  obtain i where i: "map_of (fs_files (nv_fs s)) (seg_filepath g) = Some i" "seg_size g = fi_size i"
    using Cons.prems(1) [of g] by auto
  have "nvr_ok cfg ((s\<lparr>nv_db := db\<rparr>)\<lparr>nv_db := add_segment g (nv_db (s\<lparr>nv_db := db\<rparr>))\<rparr>)"
    by (rule nvr_ok_add_segment [OF Cons.prems(3)]) (use Cons.prems(1) [of g] Cons.prems(2) i in auto)
  then show ?case using Cons by simp
qed simp

lemma reconcile_ok:
  assumes "reconcile env (nv_fs s) lb (w, db) = (k, w', db')" and "worker_ok storage (n, w)" and "home_ok cfg storage n"
    and "\<And>c. 0 \<le> we_local env c" and "nvr_ok cfg (s\<lparr>nv_db := db\<rparr>)"
  shows "nvr_ok cfg (s\<lparr>nv_db := db'\<rparr>)"
proof -
  obtain ss idx where "db' = fold add_segment ss db" and
    ss: "ss = [] \<or> ss = found_segments env (nv_fs s) lb idx (files_in (wk_dir w) ''.ts'' (nv_fs s)) w"
  proof (cases "wk_dir w \<in> set (fs_dirs (nv_fs s))")
    case True
    then show ?thesis
      using assms(1) by (intro that) (auto simp: reconcile_def Let_def reconcile_loop_result)
  next
    case False
    then show ?thesis using assms(1) by (intro that [of "[]"]) (auto simp: reconcile_def)
  qed
  moreover have "parent_dir (seg_filepath g) = path_join storage n \<and> seg_camera g = n \<and> 0 \<le> seg_start g \<and>
      (\<exists>i. map_of (fs_files (nv_fs s)) (seg_filepath g) = Some i \<and> seg_size g = fi_size i)" if "g \<in> set ss" for g
    using ss that found_segment_file [of g env "nv_fs s" lb idx w] assms(2,4) by (auto simp: worker_ok_def)
  ultimately show ?thesis using nvr_ok_fold_add [of ss storage n s cfg db] assms(3,5) by blast
qed


subsection \<open>The recorder as a transition system\<close>

definition sys_ok :: "retention_cfg \<Rightarrow> system \<Rightarrow> bool" where
  "sys_ok cfg s \<longleftrightarrow> nvr_ok cfg (sy_nvr s) \<and> distinct (dict_keys (en_workers (sy_engine s))) \<and>
     (\<forall>nw \<in> set (en_workers (sy_engine s)). worker_ok (en_storage (sy_engine s)) nw \<and>
        home_ok cfg (en_storage (sy_engine s)) (fst nw))"

definition update_worker :: "string \<Rightarrow> worker \<Rightarrow> engine \<Rightarrow> engine" where
  "update_worker n w e = e\<lparr>en_workers := AList.update n w (en_workers e)\<rparr>"

text \<open>
  The steps: every thread of the recorder and the world it writes to. The premises are what the
  model takes from outside: local clocks that give epochs after 1970, CSV lines that name segments
  without a directory, added cameras whose directory is not the clip or HLS area, and ffmpeg (or
  any other writer) touching only files that are not indexed.
\<close>

inductive recorder_step :: "retention_cfg \<Rightarrow> system \<Rightarrow> system \<Rightarrow> bool" for cfg where
  retention_pass: "recorder_step cfg s (s\<lparr>sy_nvr := snd (run_once cfg env (sy_nvr s))\<rparr>)"
| grooming_pass: "recorder_step cfg s (s\<lparr>sy_nvr := snd (groom_once gcfg force now minutes ffmpeg prov (sy_nvr s))\<rparr>)"
| health: "(\<And>c. 0 \<le> we_local wenv c) \<Longrightarrow> recorder_step cfg s (health_cycle cfg env wenv wired virtual s)"
| watch: "\<lbrakk>map_of (en_workers (sy_engine s)) n = Some w; \<And>c. 0 \<le> we_local wenv c;
     \<And>ls line. csv = Some ls \<Longrightarrow> line \<in> set ls \<Longrightarrow> \<not> py_startswith (py_strip (hd (split_on CHR '','' (py_strip line)))) ''/'';
     watch_poll wenv (nv_fs (sy_nvr s)) csv (w, nv_db (sy_nvr s)) = (w', db')\<rbrakk> \<Longrightarrow>
     recorder_step cfg s (s\<lparr>sy_engine := update_worker n w' (sy_engine s), sy_nvr := (sy_nvr s)\<lparr>nv_db := db'\<rparr>\<rparr>)"
| ffmpeg_started: "map_of (en_workers (sy_engine s)) n = Some w \<Longrightarrow>
     recorder_step cfg s (s\<lparr>sy_engine := update_worker n (w\<lparr>wk_process := Some True\<rparr>) (sy_engine s)\<rparr>)"
| ffmpeg_exited: "map_of (en_workers (sy_engine s)) n = Some w \<Longrightarrow>
     recorder_step cfg s (s\<lparr>sy_engine := update_worker n (after_exit (w\<lparr>wk_process := None\<rparr>)) (sy_engine s)\<rparr>)"
| file_written: "\<lbrakk>p \<notin> r_path ` set (db_rows (nv_db (sy_nvr s))); f = nv_fs (sy_nvr s)\<rbrakk> \<Longrightarrow>
     recorder_step cfg s (s\<lparr>sy_nvr := (sy_nvr s)\<lparr>nv_fs := f\<lparr>fs_files := AList.update p i (fs_files f)\<rparr>\<rparr>\<rparr>)"
| camera_added: "\<lbrakk>home_ok cfg (en_storage (sy_engine s)) n; add_camera n url d ms g (sy_engine s) = Inr e'\<rbrakk> \<Longrightarrow>
     recorder_step cfg s (s\<lparr>sy_engine := e'\<rparr>)"
| camera_removed: "remove_camera n (sy_engine s) = Inr e' \<Longrightarrow> recorder_step cfg s (s\<lparr>sy_engine := e'\<rparr>)"
| retention_set: "recorder_step cfg s (s\<lparr>sy_engine := set_retention n d (sy_engine s)\<rparr>)"
| groom_after_set: "recorder_step cfg s (s\<lparr>sy_engine := set_groom_after n g (sy_engine s)\<rparr>)"
| started: "recorder_step cfg s (s\<lparr>sy_engine := engine_start now (sy_engine s)\<rparr>)"
| stopped: "recorder_step cfg s (s\<lparr>sy_engine := engine_stop (sy_engine s)\<rparr>)"

lemma map_of_update_mem: "nw \<in> set (AList.update n w ws) \<Longrightarrow> nw = (n, w) \<or> nw \<in> set ws"
  by (induction ws) (auto split: if_splits)

lemma sys_ok_update_worker [inv_intros]:
  assumes "sys_ok cfg s" and "map_of (en_workers (sy_engine s)) n = Some w" and "nvr_ok cfg m"
    and "wk_camera w' = wk_camera w" and "wk_dir w' = wk_dir w"
  shows "sys_ok cfg (s\<lparr>sy_engine := update_worker n w' (sy_engine s), sy_nvr := m\<rparr>)"
proof -
  have "(n, w) \<in> set (en_workers (sy_engine s))" using assms(2) by (rule map_of_SomeD)
  then have "worker_ok (en_storage (sy_engine s)) (n, w')" "home_ok cfg (en_storage (sy_engine s)) n"
    using assms(1,4,5) by (auto simp: sys_ok_def worker_ok_def)
  then show ?thesis
    using assms(1,3) by (auto simp: sys_ok_def update_worker_def distinct_update dest!: map_of_update_mem)
qed

lemma sys_ok_map_workers [inv_intros]:
  assumes "sys_ok cfg s" and "\<And>n w. wk_camera (g n w) = wk_camera w \<and> wk_dir (g n w) = wk_dir w" and "nvr_ok cfg m"
    and "en_workers e' = en_workers (map_workers g (sy_engine s))" and "en_storage e' = en_storage (sy_engine s)"
  shows "sys_ok cfg (s\<lparr>sy_engine := e', sy_nvr := m\<rparr>)"
proof -
  have "dict_keys (en_workers (map_workers g (sy_engine s))) = dict_keys (en_workers (sy_engine s))"
    by (simp add: map_workers_def split_beta comp_def)
  moreover have "worker_ok (en_storage e') nw \<and> home_ok cfg (en_storage e') (fst nw)" if nw: "nw \<in> set (en_workers e')" for nw
  proof -
    obtain n w where "(n, w) \<in> set (en_workers (sy_engine s))" "nw = (n, g n w)"
      using nw assms(4) by (auto simp: map_workers_def)
    then show ?thesis using assms(1,2,5) by (auto simp: sys_ok_def worker_ok_def)
  qed
  ultimately show ?thesis using assms(1,3,4) by (simp add: sys_ok_def)
qed

lemma reconcile_workers_ok:
  assumes "reconcile_workers env e (nv_fs s) ws db = (ws', db')" and "\<And>c. 0 \<le> we_local env c"
    and "\<forall>nw \<in> set ws. worker_ok storage nw \<and> home_ok cfg storage (fst nw)" and "nvr_ok cfg (s\<lparr>nv_db := db\<rparr>)"
  shows "nvr_ok cfg (s\<lparr>nv_db := db'\<rparr>) \<and> dict_keys ws' = dict_keys ws \<and>
    (\<forall>nw \<in> set ws'. worker_ok storage nw \<and> home_ok cfg storage (fst nw))"
  using assms
proof (induction ws arbitrary: db ws' db')
  case (Cons x ws)
  obtain n w where x: "x = (n, w)" by (cases x)
  obtain k w1 db1 where r: "reconcile env (nv_fs s) (Some (reconcile_days e n * 86400)) (w, db) = (k, w1, db1)"
    by (metis prod_cases3)
  obtain ws2 db2 where rest: "reconcile_workers env e (nv_fs s) ws db1 = (ws2, db2)" by fastforce
  have "nvr_ok cfg (s\<lparr>nv_db := db1\<rparr>)"
    using reconcile_ok [OF r, of storage n cfg] Cons.prems x by simp
  moreover have "worker_ok storage (n, w1)"
    using reconcile_frame [OF r] Cons.prems(3) x by (simp add: worker_ok_def)
  ultimately show ?case
    using Cons.IH [OF rest] Cons.prems r rest x by auto
qed simp


lemma sys_ok_reconcile_all [inv_intros]:
  assumes "sys_ok cfg s" and "\<And>c. 0 \<le> we_local env c"
  shows "sys_ok cfg (reconcile_all env s)"
proof -
  obtain ws db where r: "reconcile_workers env (sy_engine s) (nv_fs (sy_nvr s)) (en_workers (sy_engine s)) (nv_db (sy_nvr s)) = (ws, db)"
    by fastforce
  have "nvr_ok cfg ((sy_nvr s)\<lparr>nv_db := db\<rparr>) \<and> dict_keys ws = dict_keys (en_workers (sy_engine s)) \<and>
      (\<forall>nw \<in> set ws. worker_ok (en_storage (sy_engine s)) nw \<and> home_ok cfg (en_storage (sy_engine s)) (fst nw))"
    by (rule reconcile_workers_ok [OF r assms(2)]) (use assms(1) in \<open>simp_all add: sys_ok_def\<close>)
  then show ?thesis using assms(1) by (simp add: reconcile_all_def Let_def r sys_ok_def)
qed

lemma sys_ok_check_disk [inv_intros]: "sys_ok cfg s \<Longrightarrow> sys_ok cfg (check_disk_space cfg env wired virtual s)"
  by (auto simp: check_disk_space_def Let_def sys_ok_def split: option.split intro: inv_intros)

lemma sys_ok_engine:
  assumes "sys_ok cfg s" and "en_workers e' = en_workers (map_workers g (sy_engine s))" and "en_storage e' = en_storage (sy_engine s)"
    and "\<And>n w. wk_camera (g n w) = wk_camera w \<and> wk_dir (g n w) = wk_dir w"
  shows "sys_ok cfg (s\<lparr>sy_engine := e'\<rparr>)"
proof -
  have "nvr_ok cfg (sy_nvr s)" using assms(1) by (simp add: sys_ok_def)
  with sys_ok_map_workers [OF assms(1,4) _ assms(2,3), of "sy_nvr s"] show ?thesis by simp
qed

lemma sys_ok_restart_dead [inv_intros]:
  "sys_ok cfg s \<Longrightarrow> sys_ok cfg (s\<lparr>sy_engine := restart_dead (sy_engine s)\<rparr>)"
  by (rule sys_ok_engine [where g = "\<lambda>_ w. if \<not> worker_alive w \<and> \<not> en_stopping (sy_engine s) then restart w else w"])
    (simp_all add: restart_dead_def map_workers_def)

lemma sys_ok_restart_wedged [inv_intros]:
  "sys_ok cfg s \<Longrightarrow> sys_ok cfg (s\<lparr>sy_engine := restart_wedged lf now f (sy_engine s)\<rparr>)"
  by (cases "en_stopping (sy_engine s)", simp add: restart_wedged_def,
      rule sys_ok_engine [where g = "\<lambda>_ w. if is_segment_stalled lf now f w then restart w else w"])
    (simp_all add: restart_wedged_def map_workers_def)

lemma sys_ok_start_stop [inv_intros]:
  "sys_ok cfg s \<Longrightarrow> sys_ok cfg (s\<lparr>sy_engine := engine_start now (sy_engine s)\<rparr>)"
  "sys_ok cfg s \<Longrightarrow> sys_ok cfg (s\<lparr>sy_engine := engine_stop (sy_engine s)\<rparr>)"
  by (rule sys_ok_engine [where g = "\<lambda>_. worker_start"], simp_all add: engine_start_def map_workers_def)
    (rule sys_ok_engine [where g = "\<lambda>_. worker_stop"], simp_all add: engine_stop_def map_workers_def)

lemma sys_ok_health [inv_intros]:
  assumes "sys_ok cfg s" and "\<And>c. 0 \<le> we_local wenv c"
  shows "sys_ok cfg (health_cycle cfg env wenv wired virtual s)"
proof -
  let ?s1 = "s\<lparr>sy_engine := restart_dead (sy_engine s)\<rparr>"
  let ?s2 = "?s1\<lparr>sy_engine := restart_wedged (we_local wenv) (we_now wenv) (nv_fs (sy_nvr ?s1)) (sy_engine ?s1)\<rparr>"
  have "sys_ok cfg ?s1" using assms(1) by (rule sys_ok_restart_dead)
  then have "sys_ok cfg ?s2" by (rule sys_ok_restart_wedged)
  then have s3: "sys_ok cfg (check_disk_space cfg env wired virtual ?s2)" by (rule sys_ok_check_disk)
  then have "sys_ok cfg (reconcile_all wenv (check_disk_space cfg env wired virtual ?s2))"
    using assms(2) by (rule sys_ok_reconcile_all)
  then have "sys_ok cfg (x\<lparr>sy_engine := (sy_engine x)\<lparr>en_last_reconcile := t\<rparr>\<rparr>)"
    if "x = reconcile_all wenv (check_disk_space cfg env wired virtual ?s2)" for x t
    using that by (simp add: sys_ok_def)
  with s3 assms(1) show ?thesis unfolding health_cycle_def Let_def by simp
qed

lemma nvr_ok_write:
  assumes "nvr_ok cfg n" and "p \<notin> r_path ` set (db_rows (nv_db n))"
  shows "nvr_ok cfg (n\<lparr>nv_fs := (nv_fs n)\<lparr>fs_files := AList.update p i (fs_files (nv_fs n))\<rparr>\<rparr>)"
  using assms by (auto simp: nvr_ok_def mirrored_def update_conv')

lemma sys_ok_nvr: "sys_ok cfg s \<Longrightarrow> nvr_ok cfg n \<Longrightarrow> sys_ok cfg (s\<lparr>sy_nvr := n\<rparr>)"
  by (simp add: sys_ok_def)

lemma sys_ok_add_camera:
  assumes "sys_ok cfg s" and "home_ok cfg (en_storage (sy_engine s)) n" and "add_camera n url d ms g (sy_engine s) = Inr e'"
  shows "sys_ok cfg (s\<lparr>sy_engine := e'\<rparr>)"
proof -
  let ?e = "sy_engine s" and ?w = "worker_start (engine_worker (sy_engine s) n url ms)"
  have e': "en_workers e' = AList.update n ?w (en_workers ?e)" "en_storage e' = en_storage ?e"
    using assms(3) by (auto simp: add_camera_def split: if_splits)
  have "worker_ok (en_storage ?e) (n, ?w)" by (simp add: worker_ok_def engine_worker_def new_worker_def)
  then have "worker_ok (en_storage ?e) nw \<and> home_ok cfg (en_storage ?e) (fst nw)" if "nw \<in> set (en_workers e')" for nw
    using map_of_update_mem [OF that [unfolded e'(1)]] assms(1,2) by (auto simp: sys_ok_def)
  then show ?thesis using assms(1) e' by (simp add: sys_ok_def distinct_update)
qed

lemma sys_ok_remove_camera:
  assumes "sys_ok cfg s" and "remove_camera n (sy_engine s) = Inr e'"
  shows "sys_ok cfg (s\<lparr>sy_engine := e'\<rparr>)"
proof -
  have e': "en_workers e' = filter (\<lambda>(k, _). n \<noteq> k) (en_workers (sy_engine s))" "en_storage e' = en_storage (sy_engine s)"
    using assms(2) by (auto simp: remove_camera_def AList.delete_eq split: if_splits)
  have "nw \<in> set (en_workers (sy_engine s))" if "nw \<in> set (en_workers e')" for nw
    using that by (simp add: e')
  then show ?thesis using assms(1) e' by (simp add: sys_ok_def distinct_map_filter_key)
qed

lemma sys_ok_step:
  assumes "sys_ok cfg s" and "recorder_step cfg s t"
  shows "sys_ok cfg t"
  using assms(2)
proof cases
  case (watch n w wenv csv w' db')
  have w: "worker_ok (en_storage (sy_engine s)) (n, w)" "home_ok cfg (en_storage (sy_engine s)) n"
    using assms(1) map_of_SomeD [OF watch(2)] by (auto simp: sys_ok_def)
  have "nvr_ok cfg ((sy_nvr s)\<lparr>nv_db := db'\<rparr>) \<and> wk_camera w' = wk_camera w \<and> wk_dir w' = wk_dir w"
  proof (cases "wk_process w \<noteq> Some True \<or> wk_stop w \<or> csv = None")
    case True
    then have "w' = w" "db' = nv_db (sy_nvr s)" using watch(5) by (auto simp: watch_poll_def split: option.splits)
    then show ?thesis using assms(1) by (simp add: sys_ok_def)
  next
    case False
    then obtain ls where ls: "csv = Some ls" "(w', db') = watch_lines wenv (nv_fs (sy_nvr s)) ls (w, nv_db (sy_nvr s))"
      using watch(5) by (auto simp: watch_poll_def)
    have "nvr_ok cfg ((sy_nvr s)\<lparr>nv_db := nv_db (sy_nvr s)\<rparr>)" using assms(1) by (simp add: sys_ok_def)
    from watch_lines_ok [OF watch(3) w(2) watch(4) [OF ls(1)] w(1) this]
    show ?thesis using ls(2) watch_lines_frame [of wenv "nv_fs (sy_nvr s)" ls "(w, nv_db (sy_nvr s))"]
      by (metis fst_conv snd_conv)
  qed
  then show ?thesis unfolding watch(1) using assms(1) watch(2) by (blast intro: sys_ok_update_worker)
next
  case (ffmpeg_started n w)
  then show ?thesis
    using sys_ok_update_worker [OF assms(1) ffmpeg_started(2), of "sy_nvr s"] assms(1) by (simp add: sys_ok_def)
next
  case (ffmpeg_exited n w)
  then show ?thesis
    using sys_ok_update_worker [OF assms(1) ffmpeg_exited(2), of "sy_nvr s"] assms(1) by (simp add: sys_ok_def)
next
  case (file_written p f i)
  then show ?thesis
    using sys_ok_nvr [OF assms(1) nvr_ok_write [of cfg "sy_nvr s" p i]] assms(1) by (simp add: sys_ok_def)
next
  case (health wenv env wired virtual)
  show ?thesis unfolding health(1) by (rule sys_ok_health [OF assms(1) health(2)])
next
  case (camera_added n url d ms g e')
  show ?thesis unfolding camera_added(1) by (rule sys_ok_add_camera [OF assms(1) camera_added(2,3)])
next
  case (camera_removed n e')
  show ?thesis unfolding camera_removed(1) by (rule sys_ok_remove_camera [OF assms(1) camera_removed(2)])
next
  case (started now)
  show ?thesis unfolding started by (rule sys_ok_start_stop(1) [OF assms(1)])
next
  case stopped
  show ?thesis unfolding stopped by (rule sys_ok_start_stop(2) [OF assms(1)])
qed (use assms(1) in \<open>auto intro: inv_intros simp: sys_ok_def set_retention_def set_groom_after_def\<close>)

definition fresh_system :: "retention_cfg \<Rightarrow> system \<Rightarrow> bool" where
  \<comment> \<open>after start-up: an empty index and the configured cameras\<close>
  "fresh_system cfg s \<longleftrightarrow>
     (\<exists>cameras storage duration transport reconnect loglevel.
        sy_engine s = engine_init cameras storage duration transport reconnect loglevel \<and>
        (\<forall>c \<in> set cameras. home_ok cfg storage (cc_name c)) \<and> nv_db (sy_nvr s) = empty_db)"

lemma configure_camera_frame: "en_storage (configure_camera c e) = en_storage e"
  by (simp add: configure_camera_def)

lemma configured_workers:
  assumes "\<forall>c \<in> set cs. home_ok cfg (en_storage e) (cc_name c)" and "distinct (dict_keys (en_workers e))"
    and "\<forall>nw \<in> set (en_workers e). worker_ok (en_storage e) nw \<and> home_ok cfg (en_storage e) (fst nw)"
  shows "en_storage (fold configure_camera cs e) = en_storage e \<and> distinct (dict_keys (en_workers (fold configure_camera cs e))) \<and>
    (\<forall>nw \<in> set (en_workers (fold configure_camera cs e)). worker_ok (en_storage e) nw \<and> home_ok cfg (en_storage e) (fst nw))"
  using assms
proof (induction cs arbitrary: e)
  case (Cons c cs)
  have "worker_ok (en_storage e) (cc_name c, engine_worker e (cc_name c) (cc_url c) [])"
    by (simp add: worker_ok_def engine_worker_def new_worker_def)
  then have "\<forall>nw \<in> set (en_workers (configure_camera c e)). worker_ok (en_storage e) nw \<and> home_ok cfg (en_storage e) (fst nw)"
    using Cons.prems by (auto simp: configure_camera_def dest!: map_of_update_mem)
  moreover have "distinct (dict_keys (en_workers (configure_camera c e)))"
    using Cons.prems by (simp add: configure_camera_def distinct_update)
  ultimately show ?case
    using Cons.IH [of "configure_camera c e"] Cons.prems by (simp add: configure_camera_frame)
qed simp

interpretation recorder: invariant_system "fresh_system cfg" "recorder_step cfg" "sys_ok cfg" for cfg
proof unfold_locales
  fix s assume "fresh_system cfg s"
  then obtain cameras storage duration transport reconnect loglevel where
    e: "sy_engine s = engine_init cameras storage duration transport reconnect loglevel"
    and h: "\<forall>c \<in> set cameras. home_ok cfg storage (cc_name c)" and db: "nv_db (sy_nvr s) = empty_db"
    unfolding fresh_system_def by blast
  have "nvr_ok cfg (sy_nvr s)" using db db_ok_empty by (simp add: nvr_ok_def mirrored_def empty_db_def)
  then show "sys_ok cfg s"
    unfolding sys_ok_def e engine_init_def
    using configured_workers [of cameras cfg "\<lparr>en_cameras = cameras, en_storage = storage, en_duration = duration,
      en_transport = transport, en_reconnect = reconnect, en_loglevel = loglevel, en_workers = [], en_retention = [],
      en_groom = [], en_last_reconcile = 0, en_disk = Disk_unsampled, en_stopping = False\<rparr>"] h by simp
qed (rule sys_ok_step)

text \<open>
  C9. The index mirrors the disk in every reachable state. From start-up, whatever interleaving of
  health cycles, CSV polls, ffmpeg starts and exits, writes to unindexed files, retention passes, grooming
  passes, camera additions and removals and policy changes happens, every indexed segment
  exists on disk with the size the index records, in its camera's directory and
  outside the clip and HLS areas, and ids and paths in the index are unique.
\<close>

theorem index_mirrors_disk:
  assumes "fresh_system cfg s" and "rtranclp (recorder_step cfg) s t" and "r \<in> set (db_rows (nv_db (sy_nvr t)))"
  shows "(\<exists>i. map_of (fs_files (nv_fs (sy_nvr t))) (r_path r) = Some i \<and> fi_size i = r_size r) \<and>
    segment_home cfg r \<and> db_ok (nv_db (sy_nvr t))"
  using recorder.reachable_inv [OF assms(1,2)] assms(3) by (auto simp: sys_ok_def nvr_ok_def mirrored_def)


lemma join_with_snoc: "ps \<noteq> [] \<Longrightarrow> join_with sep (ps @ [p]) = join_with sep ps @ sep @ p"
  by (induction ps) (auto simp: join_with_Cons)

lemma parent_dir_prefix:
  assumes "parent_dir p = d" and "d \<noteq> []"
  shows "p = path_join d (base_name p)"
proof -
  have ne: "butlast (path_parts p) \<noteq> []" using assms by (auto simp: parent_dir_def)
  have "path_parts p = butlast (path_parts p) @ [base_name p]"
    by (simp add: base_name_def path_parts_def)
  then have "join_with ''/'' (path_parts p) = join_with ''/'' (butlast (path_parts p)) @ ''/'' @ base_name p"
    using join_with_snoc [OF ne] by metis
  moreover have "join_with ''/'' (path_parts p) = p" by (simp add: path_parts_def join_split)
  ultimately show ?thesis using assms(1) by (simp add: parent_dir_def path_join_def)
qed

definition demo_recorder_cfg :: retention_cfg where
  "demo_recorder_cfg = demo_cfg\<lparr>rc_storage_path := Some ''/s'', rc_clips_path := ''/c'', rc_hls_path := ''/h''\<rparr>"

lemma demo_home: "home_ok demo_recorder_cfg ''/s'' ''cam''"
proof -
  have "\<not> py_startswith p (''/h'' @ ''/'')" if "parent_dir p = ''/s/cam''" for p
    by (subst parent_dir_prefix [OF that]) (simp_all add: path_join_def py_startswith_def)
  moreover have "parent_dir ''/s/cam'' = ''/s''" by (simp add: parent_dir_def path_parts_def)
  ultimately show ?thesis by (simp add: home_ok_def demo_recorder_cfg_def path_join_def)
qed

definition demo_system :: system where
  "demo_system = \<lparr>sy_engine = engine_init [\<lparr>cc_name = ''cam'', cc_url = ''rtsp://cam'', cc_retention = None, cc_groom = None\<rparr>]
     ''/s'' 60 ''tcp'' 5 ''warning'', sy_nvr = \<lparr>nv_db = empty_db, nv_fs = demo_disk, nv_ret = initial_retention_state\<rparr>\<rparr>"

lemma demo_fresh: "fresh_system demo_recorder_cfg demo_system"
  unfolding fresh_system_def demo_system_def using demo_home by fastforce

definition demo_cycle :: system where
  "demo_cycle = health_cycle demo_recorder_cfg (demo_env\<lparr>pe_usage := (\<lambda>_. None)\<rparr>)
     (demo_worker_env\<lparr>we_now := 700\<rparr>) False None demo_system"

lemma demo_cycle_db:
  "nv_db (sy_nvr demo_cycle) = snd (snd (reconcile (demo_worker_env\<lparr>we_now := 700\<rparr>) demo_disk (Some (30 * 86400))
     (restart (new_worker ''cam'' ''rtsp://cam'' ''/s'' 60 ''tcp'' 5 ''warning'' []), empty_db))) \<and>
   nv_fs (sy_nvr demo_cycle) = demo_disk"
  by (simp add: demo_cycle_def health_cycle_def demo_system_def engine_init_def configure_camera_def engine_worker_def
      restart_dead_def restart_wedged_def map_workers_def check_disk_space_def reconcile_all_def reconcile_days_def
      worker_alive_def new_worker_def demo_worker_env_def Let_def split_beta is_segment_stalled_def restart_def
      worker_stop_def worker_start_def)


theorem index_mirrors_disk_witness:
  "\<exists>t r. rtranclp (recorder_step demo_recorder_cfg) demo_system t \<and> r \<in> set (db_rows (nv_db (sy_nvr t))) \<and>
    map_of (fs_files (nv_fs (sy_nvr t))) (r_path r) \<noteq> None"
proof -
  let ?env = "demo_worker_env\<lparr>we_now := 700\<rparr>"
  let ?w = "restart (new_worker ''cam'' ''rtsp://cam'' ''/s'' 60 ''tcp'' 5 ''warning'' [])"
  have step: "recorder_step demo_recorder_cfg demo_system demo_cycle"
    unfolding demo_cycle_def by (rule recorder_step.health) (simp add: demo_worker_env_def)
  have dir: "wk_dir ?w \<in> set (fs_dirs demo_disk)"
    by (simp add: new_worker_def path_join_def demo_disk_def)
  have rec: "recoverable ?env demo_disk (30 * 86400) ?w demo_segment_path"
    by (simp add: recoverable_def files_in_def demo_disk_def demo_base demo_name demo_worker_env_def
        new_worker_def path_join_def py_endswith_def)
  obtain idx ss where p: "idx = get_indexed_filepaths_since (wk_camera ?w) (we_now ?env - of_int (30 * 86400)) empty_db"
    "ss = found_segments ?env demo_disk (Some (30 * 86400)) idx (files_in (wk_dir ?w) ''.ts'' demo_disk) ?w"
    "reconcile ?env demo_disk (Some (30 * 86400)) (?w, empty_db) = (length ss,
      fold (\<lambda>s. mark_indexed (we_now ?env) (base_name (seg_filepath s))) ss ?w, fold add_segment ss empty_db)"
    by (rule reconcile_parts [OF dir])
  have "fs_ok demo_disk" by (simp add: fs_ok_def demo_disk_def)
  from reconcile_covers [OF this p(2,1) rec] obtain r where r: "r \<in> set (db_rows (nv_db (sy_nvr demo_cycle)))"
    using p(3) demo_cycle_db by (auto simp: indexed_since_iff)
  moreover have "map_of (fs_files (nv_fs (sy_nvr demo_cycle))) (r_path r) \<noteq> None"
    using index_mirrors_disk [OF demo_fresh r_into_rtranclp [of "recorder_step demo_recorder_cfg", OF step] r] by auto
  ultimately show ?thesis using step by blast
qed

subsection \<open>The health monitor\<close>



lemma workers_after_disk_check [simp]:
  "en_workers (sy_engine (check_disk_space cfg env wired virtual s)) = en_workers (sy_engine s)"
  "en_last_reconcile (sy_engine (check_disk_space cfg env wired virtual s)) = en_last_reconcile (sy_engine s)"
  by (simp_all add: check_disk_space_def Let_def split: option.split)

lemma restarts_frame [simp]:
  "en_last_reconcile (restart_wedged lf now f e) = en_last_reconcile e"
  "en_last_reconcile (restart_dead e) = en_last_reconcile e"
  by (simp_all add: restart_wedged_def restart_dead_def map_workers_def)



subsection \<open>The disk check\<close>

lemma reconcile_all_fs [simp]: "nv_fs (sy_nvr (reconcile_all env s)) = nv_fs (sy_nvr s)"
  by (simp add: reconcile_all_def Let_def split_beta)

text \<open>
  The monitor deletes nothing below 95 percent. When the volume is less than 95 percent used, or
  cannot be measured, or no callback is wired, a health cycle leaves every file in place.
\<close>

theorem monitor_spares_files:
  assumes "case pe_usage env (nv_fs (sy_nvr s)) of Some u \<Rightarrow> used_pct u < 95 \<or> \<not> wired | None \<Rightarrow> True"
  shows "nv_fs (sy_nvr (health_cycle cfg env wenv wired virtual s)) = nv_fs (sy_nvr s)"
  using assms by (auto simp: health_cycle_def check_disk_space_def Let_def split: option.splits)

theorem monitor_spares_files_witness:
  "nv_fs (sy_nvr (health_cycle demo_recorder_cfg (demo_env\<lparr>pe_usage := (\<lambda>_. Some \<lparr>du_total = 100, du_used = 94, du_free = 6\<rparr>)\<rparr>)
     demo_worker_env True None demo_system)) = demo_disk"
  using monitor_spares_files [where env = "demo_env\<lparr>pe_usage := (\<lambda>_. Some \<lparr>du_total = 100, du_used = 94, du_free = 6\<rparr>)\<rparr>"
      and s = demo_system and wired = True and cfg = demo_recorder_cfg and wenv = demo_worker_env and virtual = None]
  by (simp add: used_pct_def demo_system_def)

subsection \<open>Policies reach the managers\<close>

definition get_groom_map :: "engine \<Rightarrow> (string, int option) dict option provider" where
  \<comment> \<open>what the grooming manager's provider hook answers\<close>
  "get_groom_map e = Answers (Some (map (\<lambda>(k, v). (k, Some v)) (en_groom e)))"

definition get_retention_map :: "engine \<Rightarrow> (string, int) dict" where
  "get_retention_map e = en_retention e"

lemma map_of_map_Some: "map_of (map (\<lambda>(k, v). (k, Some v)) d) k = map_option Some (map_of d k)"
  by (induction d) auto

lemma groom_map_with_override:
  assumes "distinct (dict_keys (en_groom e))" and "distinct (dict_keys (gc_cameras gcfg))" and "n \<in> set (get_cameras db)"
  shows "map_of (camera_groom_map gcfg (get_groom_map e) db) n =
    Some (case map_of (en_groom e) n of Some d \<Rightarrow> d
          | None \<Rightarrow> (case map_of (gc_cameras gcfg) n of Some (Some d) \<Rightarrow> d | _ \<Rightarrow> gc_after_days gcfg))"
proof -
  have "distinct (map fst (map (\<lambda>n. (n, gc_after_days gcfg)) (get_cameras db)))"
    by (simp add: comp_def distinct_get_cameras)
  moreover have "map_of (map (\<lambda>n. (n, gc_after_days gcfg)) (get_cameras db)) n = Some (gc_after_days gcfg)"
    using assms(3) by (simp add: map_of_const)
  moreover have "distinct (map fst (map (\<lambda>(k, v). (k, Some v)) (en_groom e)))"
    using assms(1) by (simp add: split_beta comp_def)
  ultimately show ?thesis
    using assms(2)
    by (simp add: camera_groom_map_def get_groom_map_def map_of_overlay map_of_map_Some split: option.split)
qed

text \<open>
  The three groom settings. After \<open>set_groom_after\<close> the grooming manager, which reads the engine's
  overrides through its provider, uses exactly the days that were set, 0 (never) included; with no
  override the camera follows the configuration file, or the appliance default.
\<close>

theorem groom_setting_effective:
  assumes "distinct (dict_keys (en_groom e))" and "distinct (dict_keys (gc_cameras gcfg))" and "n \<in> set (get_cameras db)"
  shows "map_of (camera_groom_map gcfg (get_groom_map (set_groom_after n setting e)) db) n =
    Some (case setting of Some d \<Rightarrow> d
          | None \<Rightarrow> (case map_of (gc_cameras gcfg) n of Some (Some d) \<Rightarrow> d | _ \<Rightarrow> gc_after_days gcfg))"
proof -
  have "distinct (dict_keys (en_groom (set_groom_after n setting e)))"
    using assms(1) by (auto simp: set_groom_after_def distinct_update distinct_delete split: option.split)
  moreover have "map_of (en_groom (set_groom_after n setting e)) n = setting"
    by (auto simp: set_groom_after_def update_conv' AList.delete_conv' split: option.split)
  ultimately show ?thesis using groom_map_with_override [OF _ assms(2,3)] by simp
qed

theorem groom_setting_effective_witness:
  "map_of (camera_groom_map demo_groom_cfg (get_groom_map (set_groom_after ''g'' (Some 0) (sy_engine demo_system))) demo_db) ''g'' = Some 0"
proof -
  have "''g'' \<in> set (get_cameras demo_db)" by (simp add: get_cameras_def demo_db_def)
  moreover have "distinct (dict_keys (en_groom (sy_engine demo_system)))" "distinct (dict_keys (gc_cameras demo_groom_cfg))"
    by (simp_all add: demo_system_def engine_init_def configure_camera_def demo_groom_cfg_def)
  ultimately show ?thesis using groom_setting_effective [of "sy_engine demo_system" demo_groom_cfg "''g''" demo_db "Some 0"] by simp
qed

subsection \<open>What the reconciliation and re-adding a camera really use\<close>

lemma map_of_fold_update_other:
  "n \<notin> g ` set cs \<Longrightarrow> map_of (fold (\<lambda>c. AList.update (g c) (h c)) cs d) n = map_of d n"
  by (induction cs arbitrary: d) (auto simp: update_conv')

lemma reconcile_days_configured: "n \<notin> cc_name ` set (en_cameras e) \<Longrightarrow> reconcile_days e n = 30"
  by (simp add: reconcile_days_def map_of_fold_update_other)

text \<open>
  Policies of cameras added at run time. Whatever retention a camera is added with, the
  reconciliation looks back 30 days for it; removing the camera keeps its retention, so that its footage
  goes on ageing; and adding it again without a groom setting leaves the groom override
  of its former life in force.
\<close>

theorem runtime_camera_policies:
  assumes "n \<notin> cc_name ` set (en_cameras e)" and "add_camera n url d ms g e = Inr e1" and "remove_camera n e1 = Inr e2"
    and "add_camera n url2 d2 ms2 None e2 = Inr e3"
  shows "reconcile_days e1 n = 30 \<and> map_of (get_retention_map e1) n = Some d \<and> map_of (get_retention_map e2) n = Some d \<and>
    map_of (get_retention_map e3) n = Some d2 \<and>
    map_of (en_groom e3) n = (case g of Some x \<Rightarrow> Some x | None \<Rightarrow> map_of (en_groom e) n)"
proof -
  have "en_cameras e1 = en_cameras e" using assms(2) by (auto simp: add_camera_def split: if_splits)
  then have "reconcile_days e1 n = 30" using assms(1) by (intro reconcile_days_configured) simp
  then show ?thesis
    using assms(2-4)
    by (auto simp: add_camera_def remove_camera_def get_retention_map_def update_conv' split: if_splits option.splits)
qed

theorem runtime_camera_policies_witness:
  "\<exists>e1 e2 e3. add_camera ''x'' ''u'' 90 [] (Some 7) (sy_engine demo_system) = Inr e1 \<and> remove_camera ''x'' e1 = Inr e2 \<and>
    add_camera ''x'' ''u'' 90 [] None e2 = Inr e3 \<and> reconcile_days e1 ''x'' = 30 \<and> map_of (en_groom e3) ''x'' = Some 7"
proof -
  let ?e = "sy_engine demo_system"
  have cams: "''x'' \<notin> cc_name ` set (en_cameras ?e)" and none: "map_of (en_workers ?e) ''x'' = None"
    by (simp_all add: demo_system_def engine_init_def configure_camera_def)
  obtain e1 where e1: "add_camera ''x'' ''u'' 90 [] (Some 7) ?e = Inr e1" using none by (simp add: add_camera_def)
  then have "map_of (en_workers e1) ''x'' \<noteq> None" by (auto simp: add_camera_def update_conv' split: if_splits)
  then obtain e2 where e2: "remove_camera ''x'' e1 = Inr e2" by (simp add: remove_camera_def)
  then have "map_of (en_workers e2) ''x'' = None" by (auto simp: remove_camera_def AList.delete_conv' split: if_splits)
  then obtain e3 where e3: "add_camera ''x'' ''u'' 90 [] None e2 = Inr e3" by (simp add: add_camera_def)
  from runtime_camera_policies [OF cams e1 e2 e3] e1 e2 e3 show ?thesis by simp
qed

end
