(* ===== verification/Playback.thy ===== *)
theory Playback
  imports Recording_Engine
begin

text \<open>
  Playback and erasure, \<open>services/nvr/api/hls.py\<close> and the routes of \<open>services/nvr/api/server.py\<close> that
  read or delete recordings: track selection and playlists, the segment route, coverage and
  uptime, the purge of a camera and the erasure of a time window. ISO 8601 parsing of
  query parameters, ffprobe's answer about a stream, SHA-1 and ffmpeg are parameters.
\<close>

subsection \<open>Numbers and times in text\<close>

definition show_fixed3 :: "rat \<Rightarrow> string" where
  \<comment> \<open>\<open>f"{x:.3f}"\<close>\<close>
  "show_fixed3 x =
     (let k = round_half_even (x * 1000); m = nat \<bar>k\<bar>
      in (if k < 0 then ''-'' else []) @ show_nat (m div 1000) @ ''.'' @ pad_digits 3 (m mod 1000))"

definition civil_of_days :: "int \<Rightarrow> nat \<times> nat \<times> nat" where
  \<comment> \<open>the proleptic Gregorian date of a day count since 1970-01-01\<close>
  "civil_of_days days =
     (let z = days + 719468; era = z div 146097; doe = z mod 146097;
          yoe = (doe - doe div 1460 + doe div 36524 - doe div 146096) div 365;
          doy = doe - (365 * yoe + yoe div 4 - yoe div 100);
          mp = (5 * doy + 2) div 153; d = doy - (153 * mp + 2) div 5 + 1;
          m = (if mp < 10 then mp + 3 else mp - 9);
          y = yoe + era * 400 + (if m \<le> 2 then 1 else 0)
      in (nat y, nat m, nat d))"

definition iso_utc :: "epoch \<Rightarrow> string" where
  \<comment> \<open>\<open>_iso\<close>: microseconds rounded by \<open>fromtimestamp\<close>, cut to milliseconds by \<open>isoformat\<close>\<close>
  "iso_utc epoch =
     (let us = round_half_even (epoch * 1000000); secs = us div 1000000; ms = (us mod 1000000) div 1000;
          (y, mo, d) = civil_of_days (secs div 86400); t = secs mod 86400
      in pad_digits 4 y @ ''-'' @ pad_digits 2 mo @ ''-'' @ pad_digits 2 d @ ''T'' @
         pad_digits 2 (nat (t div 3600)) @ '':'' @ pad_digits 2 (nat (t mod 3600 div 60)) @ '':'' @
         pad_digits 2 (nat (t mod 60)) @ ''.'' @ pad_digits 3 (nat ms) @ ''Z'')"

subsection \<open>Track selection\<close>

datatype mode = Mode_ts | Mode_fmp4 | Mode_h264

fun mode_name :: "mode \<Rightarrow> string" where
  "mode_name Mode_ts = ''ts''"
| "mode_name Mode_fmp4 = ''fmp4''"
| "mode_name Mode_h264 = ''h264''"

definition choose_mode :: "string \<Rightarrow> bool \<Rightarrow> mode" where
  "choose_mode codec client_hevc =
     (if codec \<in> {''h264'', ''avc1''} then Mode_ts
      else if codec = ''hevc'' \<and> client_hevc then Mode_fmp4
      else Mode_h264)"

fun mode_cost :: "mode \<Rightarrow> int" where
  "mode_cost Mode_ts = 0"
| "mode_cost Mode_fmp4 = 1"
| "mode_cost Mode_h264 = 2"

definition rank_track :: "mode \<Rightarrow> int option \<Rightarrow> int option \<Rightarrow> int list" where
  \<comment> \<open>a pair, compared lexicographically\<close>
  "rank_track m width height =
     [mode_cost m, (case width of Some w \<Rightarrow> w | None \<Rightarrow> 0) * (case height of Some h \<Rightarrow> h | None \<Rightarrow> 0)]"

definition clip_span :: "epoch \<Rightarrow> epoch \<Rightarrow> segment \<Rightarrow> epoch \<times> epoch" where
  "clip_span from_epoch to_epoch s = (max (seg_start s) from_epoch, min (end_epoch s) to_epoch)"

fun merge_spans :: "(epoch \<times> epoch) option \<Rightarrow> (epoch \<times> epoch) list \<Rightarrow> epoch" where
  \<comment> \<open>the loop of \<open>covered_seconds\<close> with its current span\<close>
  "merge_spans cur [] = (case cur of Some (a, b) \<Rightarrow> b - a | None \<Rightarrow> 0)"
| "merge_spans cur ((start, end') # spans) =
     (if end' \<le> start then merge_spans cur spans
      else case cur of
             None \<Rightarrow> merge_spans (Some (start, end')) spans
           | Some (a, b) \<Rightarrow>
               if start > b then (b - a) + merge_spans (Some (start, end')) spans
               else if end' > b then merge_spans (Some (a, end')) spans
               else merge_spans (Some (a, b)) spans)"

definition covered_seconds :: "segment list \<Rightarrow> epoch \<Rightarrow> epoch \<Rightarrow> epoch" where
  "covered_seconds segments from_epoch to_epoch =
     (if to_epoch \<le> from_epoch then 0
      else merge_spans None (sort_key (\<lambda>(a, b). [a, b]) (map (clip_span from_epoch to_epoch) segments)))"

definition select_track :: "(int list \<times> rat \<times> 'a) list \<Rightarrow> int list \<times> rat \<times> 'a" where
  "select_track candidates =
     (let best = Max (set (map (\<lambda>c. fst (snd c)) candidates));
          tol = max 1 (1 / 100 * best)
      in hd (sort_key fst (filter (\<lambda>c. fst (snd c) \<ge> best - tol) candidates)))"

subsection \<open>Playlists and artifact names\<close>

definition drop_suffix :: "nat \<Rightarrow> string \<Rightarrow> string" where
  "drop_suffix k s = take (length s - k) s"

definition segment_stem :: "path \<Rightarrow> string" where
  \<comment> \<open>\<open>Path(p).stem\<close>: the name up to its last dot, unless the dot comes first or last\<close>
  "segment_stem p =
     (let n = base_name p; suffix = rev (takeWhile (\<lambda>c. c \<noteq> CHR ''.'') (rev n));
          k = length n - length suffix
      in if k \<le> 1 \<or> suffix = [] then n else take (k - 1) n)"

definition source_signature :: "(string \<Rightarrow> string) \<Rightarrow> fs \<Rightarrow> path \<Rightarrow> string" where
  \<comment> \<open>\<open>sha1\<close> gives the hexadecimal digest\<close>
  "source_signature sha1 f p =
     (if fs_stat_err f p then ''00000000''
      else case map_of (fs_files f) p of
             None \<Rightarrow> ''00000000''
           | Some i \<Rightarrow> take 8 (sha1 (show_int (fi_size i) @ '':'' @ show_int \<lfloor>fi_mtime i * 10 ^ 9\<rfloor>)))"

definition fragment_mode :: "mode \<Rightarrow> bool" where
  "fragment_mode m \<longleftrightarrow> m = Mode_fmp4 \<or> m = Mode_h264"

definition playlist_entry :: "(string \<Rightarrow> string) \<Rightarrow> fs \<Rightarrow> mode \<Rightarrow> string \<Rightarrow> bool \<Rightarrow> segment \<Rightarrow> string list" where
  \<comment> \<open>the lines of one segment; the flag says that it is not the first\<close>
  "playlist_entry sha1 f m base later s =
     (let name = segment_stem (seg_filepath s) @ ''.'' @ source_signature sha1 f (seg_filepath s)
      in (if later then [''#EXT-X-DISCONTINUITY''] else []) @
         (if fragment_mode m then [''#EXT-X-MAP:URI=\"'' @ base @ name @ ''.init.mp4\"''] else []) @
         [''#EXT-X-PROGRAM-DATE-TIME:'' @ iso_utc (seg_start s),
          ''#EXTINF:'' @ show_fixed3 (seg_duration s) @ '','',
          base @ name @ (if fragment_mode m then ''.m4s'' else ''.ts'')])"

fun playlist_entries :: "(string \<Rightarrow> string) \<Rightarrow> fs \<Rightarrow> mode \<Rightarrow> string \<Rightarrow> bool \<Rightarrow> segment list \<Rightarrow> string list" where
  "playlist_entries sha1 f m base later [] = []"
| "playlist_entries sha1 f m base later (s # ss) =
     playlist_entry sha1 f m base later s @ playlist_entries sha1 f m base True ss"

definition target_duration :: "segment list \<Rightarrow> int" where
  "target_duration segments =
     max 1 \<lceil>(case agg_max (map seg_duration segments) of Some d \<Rightarrow> d | None \<Rightarrow> 1)\<rceil>"

definition build_playlist :: "(string \<Rightarrow> string) \<Rightarrow> fs \<Rightarrow> segment list \<Rightarrow> mode \<Rightarrow> string \<Rightarrow> string list" where
  \<comment> \<open>the lines of the playlist\<close>
  "build_playlist sha1 f segments m base =
     [''#EXTM3U'', ''#EXT-X-VERSION:'' @ (if fragment_mode m then ''7'' else ''3''), ''#EXT-X-PLAYLIST-TYPE:VOD'',
      ''#EXT-X-TARGETDURATION:'' @ show_int (target_duration segments), ''#EXT-X-MEDIA-SEQUENCE:0''] @
     playlist_entries sha1 f m base False segments @ [''#EXT-X-ENDLIST'']"

datatype kind = Init | M4s | Ts

fun kind_suffix :: "kind \<Rightarrow> string" where
  "kind_suffix Init = ''.init.mp4''"
| "kind_suffix M4s = ''.m4s''"
| "kind_suffix Ts = ''.ts''"

definition is_alnum :: "char \<Rightarrow> bool" where
  "is_alnum c \<longleftrightarrow> is_word c \<and> c \<noteq> CHR ''_''"

definition name_char :: "char \<Rightarrow> bool" where
  "name_char c \<longleftrightarrow> is_word c \<or> c = CHR ''-''"

definition chomp :: "string \<Rightarrow> string" where
  \<comment> \<open>a regular expression's \<open>$\<close> also matches before a final newline\<close>
  "chomp s = (if s \<noteq> [] \<and> last s = CHR 0x0A then butlast s else s)"

definition valid_camera_name :: "string \<Rightarrow> bool" where
  "valid_camera_name name =
     (case chomp name of [] \<Rightarrow> False | c # cs \<Rightarrow> is_alnum c \<and> length cs \<le> 63 \<and> list_all name_char cs)"

definition valid_stem :: "string \<Rightarrow> bool" where
  \<comment> \<open>\<open>_STEM_RE\<close>: the camera part is everything before the last 16 characters\<close>
  "valid_stem s =
     (let n = chomp s; t = drop (length n - 16) n; camera = take (length n - 16) n
      in length n > 16 \<and> t ! 0 = CHR ''_'' \<and> list_all is_digit (take 8 (drop 1 t)) \<and> t ! 9 = CHR ''_'' \<and>
         list_all is_digit (drop 10 t) \<and> is_alnum (hd camera) \<and> length camera \<le> 64 \<and> list_all name_char (tl camera))"

definition is_hex :: "char \<Rightarrow> bool" where
  "is_hex c = (let n = of_char c :: nat in (48 \<le> n \<and> n \<le> 57) \<or> (97 \<le> n \<and> n \<le> 102))"

definition valid_sig :: "string \<Rightarrow> bool" where
  "valid_sig s \<longleftrightarrow> length (chomp s) = 8 \<and> list_all is_hex (chomp s)"

definition split_sig :: "string \<Rightarrow> string \<times> string" where
  \<comment> \<open>\<open>head.rpartition(".")\<close>: what comes before and after the last dot\<close>
  "split_sig head =
     (let sig = rev (takeWhile (\<lambda>c. c \<noteq> CHR ''.'') (rev head))
      in if length sig = length head then ([], head) else (take (length head - length sig - 1) head, sig))"

definition parse_artifact :: "string \<Rightarrow> (string \<times> string \<times> kind) option" where
  \<comment> \<open>\<^term>\<open>None\<close> is the \<open>ValueError\<close>\<close>
  "parse_artifact name =
     (case List.find (\<lambda>k. py_endswith name (kind_suffix k)) [Init, M4s, Ts] of
        None \<Rightarrow> None
      | Some k \<Rightarrow>
          (case split_sig (drop_suffix (length (kind_suffix k)) name) of
             (stem, sig) \<Rightarrow> if valid_stem stem \<and> valid_sig sig then Some (stem, sig, k) else None))"

definition artifact_name :: "string \<Rightarrow> string \<Rightarrow> kind \<Rightarrow> string" where
  \<comment> \<open>the names the playlist emits\<close>
  "artifact_name stem sig k = stem @ ''.'' @ sig @ kind_suffix k"


subsection \<open>The playlist and segment routes\<close>

record playback =
  pb_db :: index_db
  pb_fs :: fs

definition file_exists :: "fs \<Rightarrow> path \<Rightarrow> bool" where
  "file_exists f p \<longleftrightarrow> map_of (fs_files f) p \<noteq> None"

type_synonym stream_info = "string \<Rightarrow> path \<Rightarrow> string \<times> int option \<times> int option"
  \<comment> \<open>\<open>_get_stream_info\<close>: codec, width and height of a track, from one of its files\<close>

type_synonym track_choice = "string \<times> segment list \<times> mode \<times> string"

definition track_candidate ::
  "stream_info \<Rightarrow> bool \<Rightarrow> epoch \<Rightarrow> epoch \<Rightarrow> playback \<Rightarrow> string \<Rightarrow> (int list \<times> rat \<times> track_choice) option" where
  "track_candidate info hevc from_epoch to_epoch s track =
     (case filter (\<lambda>g. file_exists (pb_fs s) (seg_filepath g)) (find_segments track from_epoch to_epoch (pb_db s)) of
        [] \<Rightarrow> None
      | g # gs \<Rightarrow>
          let (codec, width, height) = info track (seg_filepath g); m = choose_mode codec hevc
          in Some (rank_track m width height, covered_seconds (g # gs) from_epoch to_epoch, (track, g # gs, m, codec)))"

definition sub_suffix :: string where "sub_suffix = ''_sub''"

definition playlist_base :: "string \<Rightarrow> string \<Rightarrow> mode \<Rightarrow> string" where
  "playlist_base camera track m =
     (if track = camera then mode_name m @ ''/'' else ''../'' @ track @ ''/'' @ mode_name m @ ''/'')"

definition hls_playlist ::
  "(string \<Rightarrow> string) \<Rightarrow> stream_info \<Rightarrow> rat \<Rightarrow> string \<Rightarrow> epoch option \<Rightarrow> epoch option \<Rightarrow> bool \<Rightarrow> playback
    \<Rightarrow> http_error + (string \<times> rat \<times> string list)" where
  \<comment> \<open>the times are the parsed query parameters, \<^term>\<open>None\<close> when malformed; the answer is the track
    served, its coverage and the playlist's lines\<close>
  "hls_playlist sha1 info max_clip_seconds camera from_ts to_ts hevc s =
     (if \<not> valid_camera_name camera then Inl (Http 400)
      else case (from_ts, to_ts) of
             (Some from_epoch, Some to_epoch) \<Rightarrow>
               if to_epoch \<le> from_epoch \<or> to_epoch - from_epoch > max_clip_seconds then Inl (Http 400)
               else if camera \<notin> set (get_cameras (pb_db s)) then Inl (Http 404)
               else (let candidates = List.map_filter (track_candidate info hevc from_epoch to_epoch s)
                                        [camera @ sub_suffix, camera]
                     in if candidates = [] then Inl (Http 404)
                        else case select_track candidates of
                               (_, covered, (track, segments, m, codec)) \<Rightarrow>
                                 Inr (track, covered, build_playlist sha1 (pb_fs s) segments m (playlist_base camera track m)))
           | _ \<Rightarrow> Inl (Http 400))"

datatype served =
    From_disk path                   \<comment> \<open>the recorded file itself\<close>
  | From_cache segment mode string string kind   \<comment> \<open>the cache is asked for this artifact of the segment\<close>

definition mode_of :: "string \<Rightarrow> mode option" where
  "mode_of m = List.find (\<lambda>x. mode_name x = m) [Mode_ts, Mode_fmp4, Mode_h264]"

definition hls_segment ::
  "(string \<Rightarrow> string) \<Rightarrow> string \<Rightarrow> string \<Rightarrow> string \<Rightarrow> playback \<Rightarrow> http_error + served" where
  "hls_segment sha1 camera mode' name s =
     (if \<not> valid_camera_name camera then Inl (Http 400)
      else case mode_of mode' of
             None \<Rightarrow> Inl (Http 404)
           | Some m \<Rightarrow>
               (case parse_artifact name of
                  None \<Rightarrow> Inl (Http 400)
                | Some (stem, sig, k) \<Rightarrow>
                    if \<not> py_startswith stem (camera @ ''_'') then Inl (Http 404)
                    else case find_by_filename camera (stem @ ''.ts'') (pb_db s) of
                           None \<Rightarrow> Inl (Http 404)
                         | Some g \<Rightarrow>
                             if \<not> file_exists (pb_fs s) (seg_filepath g) then Inl (Http 404)
                             else if source_signature sha1 (pb_fs s) (seg_filepath g) \<noteq> sig then Inl (Http 409)
                             else if m = Mode_ts then (if k \<noteq> Ts then Inl (Http 404) else Inr (From_disk (seg_filepath g)))
                             else if k = Ts then Inl (Http 404)
                             else Inr (From_cache g m stem sig k)))"

subsection \<open>Coverage and uptime\<close>

fun merge_segments :: "rat \<Rightarrow> (epoch \<times> epoch) list \<Rightarrow> (epoch \<times> epoch) list \<Rightarrow> (epoch \<times> epoch) list" where
  \<comment> \<open>the second argument is the merged list, last first; the spans are already clipped\<close>
  "merge_segments min_gap merged [] = rev merged"
| "merge_segments min_gap merged ((a, b) # spans) =
     (if b \<le> a then merge_segments min_gap merged spans
      else case merged of
             (c, d) # rest \<Rightarrow>
               if a - d \<le> min_gap then merge_segments min_gap ((c, max d b) # rest) spans
               else merge_segments min_gap ((a, b) # merged) spans
           | [] \<Rightarrow> merge_segments min_gap [(a, b)] spans)"

definition merged_segments :: "segment list \<Rightarrow> epoch \<Rightarrow> epoch \<Rightarrow> rat \<Rightarrow> (epoch \<times> epoch) list" where
  "merged_segments segs from_epoch to_epoch min_gap =
     merge_segments min_gap [] (map (clip_span from_epoch to_epoch) segs)"

fun gap_walk :: "epoch \<Rightarrow> epoch \<Rightarrow> epoch \<Rightarrow> (epoch \<times> epoch) list \<Rightarrow> (epoch \<times> epoch) list \<times> epoch" where
  \<comment> \<open>the gaps between the merged spans, and the final cursor\<close>
  "gap_walk gap_start gap_end cursor [] = ([], cursor)"
| "gap_walk gap_start gap_end cursor ((ms, me) # rest) =
     (if me \<le> gap_start \<or> ms \<ge> gap_end then gap_walk gap_start gap_end cursor rest
      else let ms_c = max ms gap_start; me_c = min me gap_end;
               (gaps, final) = gap_walk gap_start gap_end (max cursor me_c) rest
           in (if ms_c > cursor then (cursor, ms_c) # gaps else gaps, final))"

definition coverage_gaps ::
  "index_db \<Rightarrow> string \<Rightarrow> bool \<Rightarrow> epoch \<Rightarrow> rat \<Rightarrow> epoch \<Rightarrow> epoch \<Rightarrow> rat \<Rightarrow> (epoch \<times> epoch) list option" where
  \<comment> \<open>the gaps of \<open>/coverage\<close> after its input checks; \<^term>\<open>None\<close>: the camera has no recordings\<close>
  "coverage_gaps db camera camera_is_live now segment_duration from_epoch to_epoch min_gap =
     (case get_recording_range camera db of
        None \<Rightarrow> None
      | Some (earliest, latest) \<Rightarrow>
          let merged = merged_segments (find_segments camera from_epoch to_epoch db) from_epoch to_epoch min_gap;
              live_end = (if camera_is_live then now else latest);
              gap_start = max from_epoch earliest; gap_end = min to_epoch (max latest live_end);
              (gaps, cursor) = gap_walk gap_start gap_end gap_start merged
          in Some (if cursor < gap_end \<and> (\<not> camera_is_live \<or> gap_end - cursor > segment_duration)
                   then gaps @ [(cursor, gap_end)] else gaps))"

record coverage_answer =
  ca_earliest :: "epoch option"
  ca_latest :: "epoch option"
  ca_count :: nat
  ca_gaps :: "(epoch \<times> epoch) list"

definition coverage_route ::
  "string list \<Rightarrow> index_db \<Rightarrow> epoch \<Rightarrow> rat \<Rightarrow> string \<Rightarrow> epoch option \<Rightarrow> epoch option \<Rightarrow> rat \<Rightarrow> http_error + coverage_answer" where
  \<comment> \<open>\<open>/coverage\<close>: the cameras the engine runs, the index, and the parsed query\<close>
  "coverage_route workers db now segment_duration camera from_ts to_ts min_gap =
     (case (from_ts, to_ts) of
        (Some from_epoch, Some to_epoch) \<Rightarrow>
          if to_epoch \<le> from_epoch then Inl (Http 400)
          else if camera \<notin> set (get_cameras db) then Inl (Http 404)
          else (case coverage_gaps db camera (camera \<in> set workers) now segment_duration from_epoch to_epoch min_gap of
                  None \<Rightarrow> Inr \<lparr>ca_earliest = None, ca_latest = None, ca_count = 0, ca_gaps = []\<rparr>
                | Some gaps \<Rightarrow> Inr \<lparr>ca_earliest = map_option fst (get_recording_range camera db),
                    ca_latest = map_option snd (get_recording_range camera db),
                    ca_count = length (find_segments camera from_epoch to_epoch db), ca_gaps = gaps\<rparr>)
      | _ \<Rightarrow> Inl (Http 400))"

datatype up_down = Up epoch epoch | Down epoch epoch

fun up_down_walk :: "epoch \<Rightarrow> epoch \<Rightarrow> (epoch \<times> epoch) list \<Rightarrow> up_down list" where
  "up_down_walk cursor win_end [] = (if cursor < win_end then [Down cursor win_end] else [])"
| "up_down_walk cursor win_end ((a, b) # rest) =
     (if a > cursor then [Down cursor a] else []) @ Up (max cursor a) b # up_down_walk b win_end rest"

definition bridge_live ::
  "rat \<Rightarrow> rat \<Rightarrow> epoch \<Rightarrow> epoch \<Rightarrow> epoch option \<Rightarrow> (epoch \<times> epoch) list \<Rightarrow> (epoch \<times> epoch) list" where
  \<comment> \<open>a live camera's segment in progress; \<open>range_end\<close> is the end of its recorded range\<close>
  "bridge_live segment_duration min_gap from_epoch win_end range_end merged =
     (case (if merged \<noteq> [] then Some (snd (last merged)) else range_end) of
        None \<Rightarrow> merged
      | Some last_end \<Rightarrow>
          if 0 < win_end - last_end \<and> win_end - last_end \<le> segment_duration + min_gap \<and>
             last_end \<ge> from_epoch - (segment_duration + min_gap)
          then (if merged \<noteq> [] \<and> snd (last merged) \<ge> from_epoch
                then butlast merged @ [(fst (last merged), win_end)]
                else merged @ [(max from_epoch last_end, win_end)])
          else merged)"

definition camera_up_down_events ::
  "index_db \<Rightarrow> string \<Rightarrow> bool \<Rightarrow> rat \<Rightarrow> epoch \<Rightarrow> epoch \<Rightarrow> rat \<Rightarrow> up_down list" where
  "camera_up_down_events db camera camera_is_live segment_duration from_epoch win_end min_gap =
     (let merged = merged_segments (find_segments camera from_epoch win_end db) from_epoch win_end min_gap;
          merged' = (if camera_is_live
            then bridge_live segment_duration min_gap from_epoch win_end (map_option snd (get_recording_range camera db)) merged
            else merged)
      in up_down_walk from_epoch win_end merged')"

fun event_seconds :: "up_down \<Rightarrow> epoch" where
  "event_seconds (Up a b) = b - a"
| "event_seconds (Down a b) = b - a"

fun is_up :: "up_down \<Rightarrow> bool" where
  "is_up (Up a b) = True"
| "is_up (Down a b) = False"

definition up_seconds :: "up_down list \<Rightarrow> epoch" where
  "up_seconds events = sum_list (map event_seconds (filter is_up events))"

definition compute_coverage :: "segment list \<Rightarrow> epoch \<Rightarrow> epoch \<Rightarrow> rat" where
  "compute_coverage segments start end' =
     (if end' \<le> start then 1
      else let total_window = end' - start;
               covered = sum_list (map (\<lambda>s. let (a, b) = clip_span start end' s in if b > a then b - a else 0) segments)
           in if covered + 1 \<ge> total_window then 1 else covered / total_window)"

subsection \<open>Erasure and purge\<close>

definition inside :: "epoch \<Rightarrow> epoch \<Rightarrow> int \<times> epoch \<times> epoch \<times> path \<times> int \<Rightarrow> bool" where
  "inside from_epoch to_epoch r = (case r of (_, start, duration, _, _) \<Rightarrow> start \<ge> from_epoch \<and> start + duration \<le> to_epoch)"

fun erase_rows :: "(int \<times> epoch \<times> epoch \<times> path \<times> int) list \<Rightarrow> fs \<Rightarrow> int list \<times> (path \<times> epoch \<times> epoch \<times> int) list \<times> int \<times> fs" where
  "erase_rows [] f = ([], [], 0, f)"
| "erase_rows ((seg_id, start, duration, p, sz) # rows) f =
     (case unlink p f of
        None \<Rightarrow> erase_rows rows f
      | Some f1 \<Rightarrow> let (ids, segs, freed, f2) = erase_rows rows f1
                   in (seg_id # ids, (p, start, start + duration, sz) # segs, sz + freed, f2))"

record erasure =
  er_deleted :: "(path \<times> epoch \<times> epoch \<times> int) list"
  er_bytes_freed :: int
  er_skipped :: "(path \<times> epoch \<times> epoch) list"

definition erase_recordings_range ::
  "string \<Rightarrow> epoch option \<Rightarrow> epoch option \<Rightarrow> playback \<Rightarrow> (http_error + erasure) \<times> playback" where
  "erase_recordings_range camera from_ts to_ts s =
     (if \<not> valid_camera_name camera then (Inl (Http 400), s)
      else case (from_ts, to_ts) of
             (Some from_epoch, Some to_epoch) \<Rightarrow>
               if from_epoch \<ge> to_epoch then (Inl (Http 400), s)
               else if camera \<notin> set (get_cameras (pb_db s)) then (Inl (Http 404), s)
               else (let rows = select_overlapping camera from_epoch to_epoch (pb_db s);
                         (ids, segs, freed, f) = erase_rows (filter (inside from_epoch to_epoch) rows) (pb_fs s)
                     in (Inr \<lparr>er_deleted = segs, er_bytes_freed = freed,
                           er_skipped = map (\<lambda>(_, st, d, p, _). (p, st, st + d)) (filter (\<lambda>r. \<not> inside from_epoch to_epoch r) rows)\<rparr>,
                         \<lparr>pb_db = delete_by_ids ids (pb_db s), pb_fs = f\<rparr>))
           | _ \<Rightarrow> (Inl (Http 400), s))"

fun purge_paths :: "path list \<Rightarrow> fs \<Rightarrow> int \<times> int \<times> fs" where
  \<comment> \<open>deleted, freed; a size is added before the unlink, and stays added when that fails\<close>
  "purge_paths [] f = (0, 0, f)"
| "purge_paths (p # ps) f =
     (if fs_stat_err f p then purge_paths ps f
      else let sz = (case map_of (fs_files f) p of Some i \<Rightarrow> fi_size i | None \<Rightarrow> 0);
               (ok, f1) = (case unlink p f of Some g \<Rightarrow> (1, g) | None \<Rightarrow> (0, f));
               (deleted, freed, f2) = purge_paths ps f1
           in (ok + deleted, sz + freed, f2))"

definition purge_recordings :: "epoch \<Rightarrow> string \<Rightarrow> playback \<Rightarrow> (http_error + int \<times> int) \<times> playback" where
  \<comment> \<open>segments deleted and bytes freed; the removal of the empty directory and of the HLS cache is not shown\<close>
  "purge_recordings now camera s =
     (if \<not> valid_camera_name camera then (Inl (Http 400), s)
      else let (paths, db) = delete_before camera (now + 3600) (pb_db s)
           in if paths = [] then (Inl (Http 404), s\<lparr>pb_db := db\<rparr>)
              else let (deleted, freed, f) = purge_paths paths (pb_fs s)
                   in (Inr (deleted, freed), \<lparr>pb_db = db, pb_fs = f\<rparr>))"


subsection \<open>Merged spans\<close>

definition span_has :: "epoch \<Rightarrow> epoch \<times> epoch \<Rightarrow> bool" where
  "span_has t x \<longleftrightarrow> fst x \<le> t \<and> t < snd x"

definition separated :: "rat \<Rightarrow> epoch \<Rightarrow> (epoch \<times> epoch) list \<Rightarrow> epoch \<Rightarrow> bool" where
  \<comment> \<open>non-empty spans between two bounds, in order, more than the gap apart\<close>
  "separated g lo xs hi \<longleftrightarrow>
     (\<forall>x \<in> set xs. lo \<le> fst x \<and> fst x < snd x \<and> snd x \<le> hi) \<and> sorted_wrt (\<lambda>x y. snd x + g < fst y) xs"

lemma separated_snoc:
  "separated g lo (xs @ [x]) hi \<longleftrightarrow>
    separated g lo xs hi \<and> lo \<le> fst x \<and> fst x < snd x \<and> snd x \<le> hi \<and> (\<forall>y \<in> set xs. snd y + g < fst x)"
  by (auto simp: separated_def sorted_wrt_append)

lemma merge_segments_Cons:
  "merge_segments g ((c, d) # rest) ((a, b) # spans) =
    (if b \<le> a then merge_segments g ((c, d) # rest) spans
     else if a - d \<le> g then merge_segments g ((c, max d b) # rest) spans
     else merge_segments g ((a, b) # (c, d) # rest) spans)"
  "merge_segments g [] ((a, b) # spans) =
    (if b \<le> a then merge_segments g [] spans else merge_segments g [(a, b)] spans)"
  by simp_all

lemma merge_segments_separated:
  assumes "\<forall>x \<in> set spans. lo \<le> fst x \<and> snd x \<le> hi" and "separated g lo (rev merged) hi" and "0 \<le> g"
  shows "separated g lo (merge_segments g merged spans) hi"
  using assms(1,2)
proof (induction spans arbitrary: merged)
  case (Cons x spans)
  obtain a b where x: "x = (a, b)" by (cases x)
  have ab: "lo \<le> a" "b \<le> hi" using Cons.prems(1) x by auto
  show ?case
  proof (cases merged)
    case Nil
    have "separated g lo (rev [(a, b)]) hi" if "a < b" using that ab by (simp add: separated_def)
    with Cons Nil x show ?thesis by (simp add: merge_segments_Cons)
  next
    case M: (Cons y rest)
    obtain c d where y: "y = (c, d)" by (cases y)
    have m: "separated g lo (rev rest) hi" "lo \<le> c" "c < d" "d \<le> hi" "\<forall>z \<in> set rest. snd z + g < c"
      using Cons.prems(2) by (simp_all add: M y separated_snoc)
    have "separated g lo (rev ((c, max d b) # rest)) hi"
      using m ab by (simp add: separated_snoc less_max_iff_disj)
    moreover have "separated g lo (rev ((a, b) # (c, d) # rest)) hi" if "a < b" "\<not> a - d \<le> g"
    proof -
      have "snd z + g < a" if "z \<in> set rest" for z
        using m(3,5) that \<open>\<not> a - d \<le> g\<close> assms(3) by fastforce
      then show ?thesis
        using m ab that separated_snoc [of g lo "rev rest @ [(c, d)]" "(a, b)" hi] by (auto simp: separated_snoc)
    qed
    ultimately show ?thesis
      using Cons.IH Cons.prems x M y by (simp add: merge_segments_Cons del: rev.simps)
  qed
qed simp

lemma merge_segments_covers:
  assumes "sorted (map fst spans)" and "\<forall>x \<in> set merged. \<forall>y \<in> set spans. fst x \<le> fst y"
    and "\<exists>x \<in> set merged \<union> set spans. span_has t x"
  shows "\<exists>x \<in> set (merge_segments g merged spans). span_has t x"
  using assms
proof (induction spans arbitrary: merged)
  case (Cons x spans)
  obtain a b where x: "x = (a, b)" by (cases x)
  have srt: "\<forall>y \<in> set spans. a \<le> fst y" "sorted (map fst spans)" using Cons.prems(1) x by auto
  show ?case
  proof (cases merged)
    case Nil
    then show ?thesis
      using Cons.IH [of "[]"] Cons.IH [of "[(a, b)]"] Cons.prems srt x by (auto simp: merge_segments_Cons span_has_def)
  next
    case M: (Cons y rest)
    obtain c d where y: "y = (c, d)" by (cases y)
    have "c \<le> a" using Cons.prems(2) by (simp add: M y x)
    have step: "\<exists>x \<in> set (merge_segments g m spans). span_has t x"
      if "\<forall>u \<in> set m. fst u = c \<or> u = (a, b) \<or> u \<in> set rest" "\<exists>u \<in> set m \<union> set spans. span_has t u" for m
    proof -
      have "\<forall>u \<in> set m. \<forall>v \<in> set spans. fst u \<le> fst v"
        using that(1) Cons.prems(2) srt(1) \<open>c \<le> a\<close> by (fastforce simp: M y x)
      from Cons.IH [OF srt(2) this that(2)] show ?thesis .
    qed
    have "span_has t (a, b) \<or> (\<exists>u \<in> set ((c, d) # rest) \<union> set spans. span_has t u)"
      using Cons.prems(3) by (auto simp: M y x)
    moreover have "span_has t (a, b) \<Longrightarrow> span_has t (c, max d b)" "span_has t (c, d) \<Longrightarrow> span_has t (c, max d b)"
      using \<open>c \<le> a\<close> by (auto simp: span_has_def)
    moreover have "b \<le> a \<Longrightarrow> \<not> span_has t (a, b)" by (auto simp: span_has_def)
    ultimately show ?thesis
      unfolding M y x merge_segments_Cons
      using step [of "(c, d) # rest"] step [of "(c, max d b) # rest"] step [of "(a, b) # (c, d) # rest"]
      by (auto split: if_split)
  qed
qed simp

lemma merge_segments_only:
  assumes "x \<in> set (merge_segments 0 merged spans)" and "span_has t x"
  shows "\<exists>y \<in> set merged \<union> set spans. span_has t y"
  using assms(1)
proof (induction spans arbitrary: merged)
  case (Cons s spans)
  obtain a b where s: "s = (a, b)" by (cases s)
  show ?case
  proof (cases merged)
    case Nil
    then show ?thesis
      using Cons.IH [of "[]"] Cons.IH [of "[(a, b)]"] Cons.prems s by (auto simp: merge_segments_Cons split: if_splits)
  next
    case M: (Cons y rest)
    obtain c d where y: "y = (c, d)" by (cases y)
    consider "b \<le> a" "x \<in> set (merge_segments 0 ((c, d) # rest) spans)"
      | "a \<le> d" "x \<in> set (merge_segments 0 ((c, max d b) # rest) spans)"
      | "x \<in> set (merge_segments 0 ((a, b) # (c, d) # rest) spans)"
      using Cons.prems by (auto simp: merge_segments_Cons M y s split: if_splits)
    then show ?thesis
    proof cases
      case 2
      from Cons.IH [OF 2(2)] 2(1) show ?thesis by (auto simp: M y s span_has_def less_max_iff_disj)
    qed (use Cons.IH in \<open>fastforce simp: M y s\<close>)+
  qed
qed (use assms(2) in auto)

subsection \<open>The uptime report\<close>

fun event_span :: "up_down \<Rightarrow> epoch \<times> epoch" where
  "event_span (Up a b) = (a, b)"
| "event_span (Down a b) = (a, b)"

fun tiles :: "epoch \<Rightarrow> epoch \<Rightarrow> up_down list \<Rightarrow> bool" where
  \<comment> \<open>consecutive non-empty events from one time to another\<close>
  "tiles a b [] \<longleftrightarrow> a = b"
| "tiles a b (e # es) \<longleftrightarrow> fst (event_span e) = a \<and> a < snd (event_span e) \<and> tiles (snd (event_span e)) b es"

definition up_at :: "up_down list \<Rightarrow> epoch \<Rightarrow> bool" where
  "up_at events t \<longleftrightarrow> (\<exists>e \<in> set events. is_up e \<and> span_has t (event_span e))"

lemma event_seconds_span: "event_seconds e = snd (event_span e) - fst (event_span e)"
  by (cases e) simp_all

lemma tiles_total: "tiles a b es \<Longrightarrow> sum_list (map event_seconds es) = b - a"
  by (induction es arbitrary: a) (auto simp: event_seconds_span)

lemma sum_list_filter_split:
  fixes f :: "'a \<Rightarrow> rat"
  shows "sum_list (map f (filter P xs)) + sum_list (map f (filter (\<lambda>x. \<not> P x) xs)) = sum_list (map f xs)"
  by (induction xs) auto

lemma separated_Cons:
  "0 \<le> g \<Longrightarrow> separated g lo (x # xs) hi \<longleftrightarrow>
    lo \<le> fst x \<and> fst x < snd x \<and> snd x \<le> hi \<and> (\<forall>y \<in> set xs. snd x + g < fst y) \<and> separated g (snd x) xs hi"
  by (auto simp: separated_def)

lemma walk_tiles:
  "separated g cursor xs win_end \<Longrightarrow> cursor \<le> win_end \<Longrightarrow> 0 \<le> g \<Longrightarrow> tiles cursor win_end (up_down_walk cursor win_end xs)"
  by (induction xs arbitrary: cursor) (auto simp: separated_Cons max_absorb2)

lemma walk_first_down:
  "\<forall>x \<in> set xs. cursor < fst x \<Longrightarrow> up_down_walk cursor win_end xs = [] \<or> \<not> is_up (hd (up_down_walk cursor win_end xs))"
  by (cases xs) auto

lemma walk_alternates:
  "separated g cursor xs win_end \<Longrightarrow> 0 \<le> g \<Longrightarrow> distinct_adj (map is_up (up_down_walk cursor win_end xs))"
proof (induction xs arbitrary: cursor)
  case (Cons x xs)
  obtain a b where x: "x = (a, b)" by (cases x)
  have s: "separated g b xs win_end" "\<forall>y \<in> set xs. b < fst y"
    using Cons.prems by (fastforce simp: separated_Cons x)+
  have "up_down_walk b win_end xs = [] \<or> \<not> is_up (hd (up_down_walk b win_end xs))"
    using walk_first_down [OF s(2)] .
  then show ?case using Cons.IH [OF s(1) Cons.prems(2)]
    by (cases "up_down_walk b win_end xs") (auto simp: x distinct_adj_Cons)
qed simp

lemma walk_up_at:
  "separated g cursor xs win_end \<Longrightarrow> 0 \<le> g \<Longrightarrow>
    up_at (up_down_walk cursor win_end xs) t \<longleftrightarrow> (\<exists>x \<in> set xs. span_has t x)"
proof (induction xs arbitrary: cursor)
  case (Cons x xs)
  obtain a b where x: "x = (a, b)" by (cases x)
  have "separated g b xs win_end" "cursor \<le> a" using Cons.prems by (auto simp: separated_Cons x)
  with Cons show ?case by (auto simp: x up_at_def max_absorb2)
qed (simp add: up_at_def)

lemma bridge_separated:
  assumes "separated g from_epoch merged win_end" and "from_epoch < win_end"
  shows "separated g from_epoch (bridge_live dur g from_epoch win_end range_end merged) win_end"
proof (cases "merged = []")
  case True
  with assms(2) show ?thesis by (auto simp: bridge_live_def separated_def split: option.split)
next
  case False
  then obtain ys a b where m: "merged = ys @ [(a, b)]" by (metis rev_exhaust surj_pair)
  have "separated g from_epoch (ys @ [(a, win_end)]) win_end"
    using assms by (auto simp: m separated_snoc)
  then show ?thesis using assms(1) by (auto simp: bridge_live_def m separated_snoc)
qed

lemma bridge_covers: "x \<in> set merged \<Longrightarrow> span_has t x \<Longrightarrow> \<exists>y \<in> set (bridge_live dur g from_epoch win_end range_end merged). span_has t y"
proof (cases "merged = []")
  case False
  assume x: "x \<in> set merged" "span_has t x"
  obtain ys a b where m: "merged = ys @ [(a, b)]" using False by (metis rev_exhaust surj_pair)
  then show ?thesis using x by (auto simp: bridge_live_def span_has_def)
qed simp


definition report_spans ::
  "index_db \<Rightarrow> string \<Rightarrow> bool \<Rightarrow> rat \<Rightarrow> epoch \<Rightarrow> epoch \<Rightarrow> rat \<Rightarrow> (epoch \<times> epoch) list" where
  "report_spans db camera live dur from_epoch win_end g =
     (let merged = merged_segments (find_segments camera from_epoch win_end db) from_epoch win_end g
      in if live then bridge_live dur g from_epoch win_end (map_option snd (get_recording_range camera db)) merged else merged)"

lemma clip_span_simps: "fst (clip_span a b s) = max (seg_start s) a" "snd (clip_span a b s) = min (end_epoch s) b"
  by (simp_all add: clip_span_def)

lemma merged_separated:
  "0 \<le> g \<Longrightarrow> separated g a (merged_segments segs a b g) b"
  unfolding merged_segments_def
  by (rule merge_segments_separated) (auto simp: clip_span_simps separated_def)

lemma span_has_clip: "span_has t (clip_span a b s) \<longleftrightarrow> a \<le> t \<and> t < b \<and> seg_start s \<le> t \<and> t < end_epoch s"
  by (auto simp: span_has_def clip_span_simps)

lemma merged_covers:
  assumes "sorted (map seg_start segs)" and "s \<in> set segs" and "span_has t (clip_span a b s)"
  shows "\<exists>x \<in> set (merged_segments segs a b g). span_has t x"
  unfolding merged_segments_def
proof (rule merge_segments_covers)
  have "sorted (map (\<lambda>x. max x a) (map seg_start segs))"
    using assms(1) by (induction segs) (auto simp: max.coboundedI1 max.mono)
  then show "sorted (map fst (map (clip_span a b) segs))" by (simp add: comp_def clip_span_simps)
qed (use assms(2,3) in auto)

lemma merged_only:
  "x \<in> set (merged_segments segs a b 0) \<Longrightarrow> span_has t x \<Longrightarrow> \<exists>s \<in> set segs. span_has t (clip_span a b s)"
  unfolding merged_segments_def using merge_segments_only [of x "[]"] by fastforce

lemma sorted_find_segments: "sorted (map seg_start (find_segments c a b db))"
  by (simp add: find_segments_def segment_of_row_def comp_def sorted_overlapping_rows)

lemma gap_walk_sound:
  assumes "sorted_wrt (\<lambda>x y. snd x \<le> fst y) spans" "\<forall>x \<in> set spans. fst x < snd x" "gap_start \<le> cursor"
    and "gap_walk gap_start gap_end cursor spans = (gaps, final)"
  shows "cursor \<le> final \<and> (\<forall>x \<in> set spans. snd x \<le> final \<or> gap_end \<le> final \<or> gap_end \<le> fst x) \<and>
    (\<forall>(a, b) \<in> set gaps. cursor \<le> a \<and> a < b \<and> b < gap_end \<and> (\<forall>x \<in> set spans. snd x \<le> a \<or> b \<le> fst x))"
  using assms
proof (induction spans arbitrary: cursor gaps final)
  case (Cons x spans)
  obtain ms me where x: "x = (ms, me)" by (cases x)
  have later: "\<forall>y \<in> set spans. me \<le> fst y" "sorted_wrt (\<lambda>x y. snd x \<le> fst y) spans" "\<forall>y \<in> set spans. fst y < snd y" "ms < me"
    using Cons.prems(1,2) x by auto
  show ?case
  proof (cases "me \<le> gap_start \<or> ms \<ge> gap_end")
    case True
    then have "gap_walk gap_start gap_end cursor spans = (gaps, final)" using Cons.prems(4) x by simp
    from Cons.IH [OF later(2,3) Cons.prems(3) this] show ?thesis using True Cons.prems(3) x by fastforce
  next
    case False
    obtain gs fin where w: "gap_walk gap_start gap_end (max cursor (min me gap_end)) spans = (gs, fin)" by (metis surj_pair)
    have out: "final = fin" "gaps = (if max ms gap_start > cursor then (cursor, max ms gap_start) # gs else gs)"
      using Cons.prems(4) w False x by (auto simp: Let_def)
    have "gap_start \<le> max cursor (min me gap_end)" using Cons.prems(3) by simp
    from Cons.IH [OF later(2,3) this w] have ih: "max cursor (min me gap_end) \<le> fin"
      "\<forall>x \<in> set spans. snd x \<le> fin \<or> gap_end \<le> fin \<or> gap_end \<le> fst x"
      "\<forall>(a, b) \<in> set gs. max cursor (min me gap_end) \<le> a \<and> a < b \<and> b < gap_end \<and> (\<forall>x \<in> set spans. snd x \<le> a \<or> b \<le> fst x)"
      by blast+
    have head: "cursor \<le> cursor \<and> cursor < ms \<and> ms < gap_end \<and> (\<forall>y \<in> set (x # spans). snd y \<le> cursor \<or> ms \<le> fst y) \<and> max ms gap_start = ms"
      if "max ms gap_start > cursor"
      using that Cons.prems(3) False later(1,4) x by force
    have tail: "cursor \<le> a \<and> a < b \<and> b < gap_end \<and> (\<forall>y \<in> set (x # spans). snd y \<le> a \<or> b \<le> fst y)" if "(a, b) \<in> set gs" for a b
    proof -
      have "max cursor (min me gap_end) \<le> a \<and> a < b \<and> b < gap_end \<and> (\<forall>x \<in> set spans. snd x \<le> a \<or> b \<le> fst x)" using ih(3) that by blast
      then show ?thesis using x by auto
    qed
    have "cursor \<le> a \<and> a < b \<and> b < gap_end \<and> (\<forall>y \<in> set (x # spans). snd y \<le> a \<or> b \<le> fst y)" if "(a, b) \<in> set gaps" for a b
    proof (cases "(a, b) \<in> set gs")
      case True
      then show ?thesis by (rule tail)
    next
      case False
      then have "max ms gap_start > cursor" "a = cursor" "b = max ms gap_start" using that out(2) by (auto split: if_splits)
      then show ?thesis using head by simp
    qed
    moreover have "\<forall>y \<in> set (x # spans). snd y \<le> final \<or> gap_end \<le> final \<or> gap_end \<le> fst y" using ih(1,2) x out(1) by auto
    ultimately show ?thesis using ih(1) out(1) by auto
  qed
qed simp

lemma coverage_gaps_sound:
  assumes "coverage_gaps db camera live now dur lo hi g = Some gaps" "(a, b) \<in> set gaps" "a < t" "t < b" "0 \<le> g"
    and "r \<in> set (db_rows db)" "r_camera r = camera"
  shows "\<not> (r_start r \<le> t \<and> t < r_end r)"
proof
  assume t: "r_start r \<le> t \<and> t < r_end r"
  let ?segs = "find_segments camera lo hi db"
  let ?m = "merged_segments ?segs lo hi g"
  obtain earliest latest where range: "get_recording_range camera db = Some (earliest, latest)"
    using assms(1) by (auto simp: coverage_gaps_def split: option.splits)
  define gs where "gs = max lo earliest"
  define ge where "ge = min hi (max latest (if live then now else latest))"
  obtain walked cursor where w: "gap_walk gs ge gs ?m = (walked, cursor)" by (metis surj_pair)
  have gaps: "gaps = (if cursor < ge \<and> (\<not> live \<or> ge - cursor > dur) then walked @ [(cursor, ge)] else walked)"
    using assms(1) w by (auto simp: coverage_gaps_def range Let_def gs_def ge_def split: if_splits)
  have sep: "separated g lo ?m hi" by (rule merged_separated) (rule assms(5))
  then have "sorted_wrt (\<lambda>x y. snd x \<le> fst y) ?m"
    unfolding separated_def using assms(5) by (auto elim!: sorted_wrt_mono_rel [rotated])
  moreover have "\<forall>x \<in> set ?m. fst x < snd x" using sep by (simp add: separated_def)
  ultimately have sound: "gs \<le> cursor" "\<forall>x \<in> set ?m. snd x \<le> cursor \<or> ge \<le> cursor \<or> ge \<le> fst x"
    "\<forall>(a, b) \<in> set walked. gs \<le> a \<and> a < b \<and> b < ge \<and> (\<forall>x \<in> set ?m. snd x \<le> a \<or> b \<le> fst x)"
    using gap_walk_sound [OF _ _ _ w] by blast+
  have ab: "gs \<le> a \<and> b \<le> ge \<and> (\<forall>x \<in> set ?m. snd x \<le> a \<or> b \<le> fst x)"
    using assms(2) sound unfolding gaps by (auto split: if_splits)
  then have "lo < t" "t < hi" using assms(3,4) by (auto simp: gs_def ge_def)
  moreover have "segment_of_row r \<in> set ?segs"
    using assms(6,7) t calculation by (auto simp: find_segments_def overlapping_rows_def)
  moreover have "seg_start (segment_of_row r) = r_start r" "end_epoch (segment_of_row r) = r_end r"
    by (simp_all add: segment_of_row_def end_epoch_def r_end_def)
  ultimately have "\<exists>x \<in> set ?m. span_has t x"
    using t by (intro merged_covers [OF sorted_find_segments]) (auto simp: span_has_clip)
  then show False using ab assms(3,4) by (fastforce simp: span_has_def)
qed

text \<open>
  C21. The uptime report tiles its window. The UP and DOWN events of a camera are consecutive,
  alternate, and together last exactly as long as the window; every moment an indexed segment of
  the camera covers is UP, and for a camera that is no longer recorded, with no gap
  tolerance, no other moment is.
\<close>

theorem uptime_report_exact:
  assumes "from_epoch < win_end" and "0 \<le> g"
    and "events = camera_up_down_events db camera live dur from_epoch win_end g"
  shows "tiles from_epoch win_end events \<and> distinct_adj (map is_up events) \<and>
    up_seconds events + sum_list (map event_seconds (filter (\<lambda>e. \<not> is_up e) events)) = win_end - from_epoch \<and>
    (\<forall>t r. r \<in> set (db_rows db) \<and> r_camera r = camera \<and> r_start r \<le> t \<and> t < r_end r \<and> from_epoch \<le> t \<and> t < win_end \<longrightarrow>
      up_at events t) \<and>
    (\<not> live \<and> g = 0 \<longrightarrow> (\<forall>t. up_at events t \<longrightarrow>
      (\<exists>r \<in> set (db_rows db). r_camera r = camera \<and> r_start r \<le> t \<and> t < r_end r)))"
proof -
  let ?segs = "find_segments camera from_epoch win_end db"
  let ?m = "merged_segments ?segs from_epoch win_end g" and ?x = "report_spans db camera live dur from_epoch win_end g"
  have ev: "events = up_down_walk from_epoch win_end ?x"
    by (simp add: assms(3) camera_up_down_events_def report_spans_def Let_def)
  have sep: "separated g from_epoch ?x win_end"
    using merged_separated [OF assms(2)] bridge_separated assms(1) by (simp add: report_spans_def Let_def)
  have tiles: "tiles from_epoch win_end events" unfolding ev by (rule walk_tiles [OF sep]) (use assms in auto)
  have up: "up_at events t \<longleftrightarrow> (\<exists>x \<in> set ?x. span_has t x)" for t unfolding ev by (rule walk_up_at [OF sep assms(2)])
  have covers: "up_at events t"
    if "r \<in> set (db_rows db)" "r_camera r = camera" "r_start r \<le> t" "t < r_end r" "from_epoch \<le> t" "t < win_end" for t r
  proof -
    have "segment_of_row r \<in> set ?segs"
      using that by (auto simp: find_segments_def)
    moreover have "span_has t (clip_span from_epoch win_end (segment_of_row r))"
      using that by (simp add: span_has_clip segment_of_row_def end_epoch_def r_end_def)
    ultimately have "\<exists>x \<in> set ?m. span_has t x" by (rule merged_covers [OF sorted_find_segments])
    then show ?thesis using bridge_covers by (auto simp: up report_spans_def Let_def)
  qed
  have only: "\<exists>r \<in> set (db_rows db). r_camera r = camera \<and> r_start r \<le> t \<and> t < r_end r"
    if "\<not> live" "g = 0" "up_at events t" for t
  proof -
    note h = that
    obtain x where "x \<in> set (merged_segments ?segs from_epoch win_end 0)" "span_has t x"
      using h by (auto simp: up report_spans_def Let_def)
    from merged_only [OF this] obtain s where "s \<in> set ?segs" "span_has t (clip_span from_epoch win_end s)" ..
    then show ?thesis
      by (auto simp: find_segments_def span_has_clip segment_of_row_def end_epoch_def r_end_def)
  qed
  show ?thesis
    using tiles walk_alternates [OF sep assms(2)] tiles_total [OF tiles] covers only
      sum_list_filter_split [of event_seconds is_up events]
    unfolding up_seconds_def by (auto simp: ev)
qed

theorem uptime_report_exact_witness:
  "tiles 0 100 (camera_up_down_events demo_db ''g'' False 60 0 100 2)"
  using uptime_report_exact [of 0 100 2 _ demo_db "''g''" False 60] by simp

subsection \<open>Coverage of a track\<close>

lemma merge_spans_eq:
  "merge_spans cur spans = sum_list (map (\<lambda>x. snd x - fst x)
    (merge_segments 0 (case cur of None \<Rightarrow> [] | Some x \<Rightarrow> [x]) spans))"
proof -
  have acc: "sum_list (map (\<lambda>x. snd x - fst x) (merge_segments 0 (m @ rest) spans)) =
      sum_list (map (\<lambda>x. snd x - fst x) (merge_segments 0 m spans)) + sum_list (map (\<lambda>x. snd x - fst x) rest)"
    if "m \<noteq> [] \<or> rest = []" for m rest and spans :: "(epoch \<times> epoch) list"
    using that
  proof (induction spans arbitrary: m)
    case Nil
    then show ?case by (simp add: rev_map [symmetric])
  next
    case (Cons x spans)
    obtain a b where x: "x = (a, b)" by (cases x)
    show ?case
    proof (cases m)
      case Nil
      then show ?thesis using Cons by simp
    next
      case M: (Cons y ys)
      obtain c d where "y = (c, d)" by (cases y)
      then show ?thesis
        using Cons.IH [of m] Cons.IH [of "(c, max d b) # ys"] Cons.IH [of "(a, b) # m"] x M by simp
    qed
  qed
  show ?thesis
  proof (induction cur spans rule: merge_spans.induct)
    case (2 cur a b spans)
    then show ?case
      using acc [of "[(a, b)]" "[the cur]" spans]
      by (auto simp: max_def split: option.splits)
  qed (simp split: option.split)
qed

lemma separated_sum_le: "separated 0 lo xs hi \<Longrightarrow> lo \<le> hi \<Longrightarrow> sum_list (map (\<lambda>x. snd x - fst x) xs) \<le> hi - lo"
proof (induction xs arbitrary: lo)
  case (Cons x xs)
  then have "separated 0 (snd x) xs hi" "lo \<le> fst x" "snd x \<le> hi" by (auto simp: separated_Cons)
  with Cons.IH show ?case by fastforce
qed simp

lemma sorted_fst_pairs: "sorted (map (\<lambda>(a, b). [a, b]) xs) \<Longrightarrow> sorted (map fst xs)"
  unfolding sorted_map by (erule sorted_wrt_mono_rel [rotated]) auto

text \<open>
  C22. \<open>covered_seconds\<close> is real coverage. It is the total length of disjoint spans inside the window
  whose points are exactly the points of the window that some segment covers: overlaps count
  once, parts outside the window not at all, and the result never exceeds the window.
\<close>

theorem covered_seconds_exact:
  assumes "from_epoch < to_epoch"
  shows "\<exists>spans. separated 0 from_epoch spans to_epoch \<and>
    covered_seconds segments from_epoch to_epoch = sum_list (map (\<lambda>x. snd x - fst x) spans) \<and>
    (\<forall>t. (\<exists>x \<in> set spans. span_has t x) \<longleftrightarrow>
      from_epoch \<le> t \<and> t < to_epoch \<and> (\<exists>s \<in> set segments. seg_start s \<le> t \<and> t < end_epoch s)) \<and>
    covered_seconds segments from_epoch to_epoch \<le> to_epoch - from_epoch"
proof -
  let ?spans = "sort_key (\<lambda>(a, b). [a, b]) (map (clip_span from_epoch to_epoch) segments)"
  let ?m = "merge_segments 0 [] ?spans"
  have sep: "separated 0 from_epoch ?m to_epoch"
    by (rule merge_segments_separated) (auto simp: clip_span_simps separated_def)
  have cov: "covered_seconds segments from_epoch to_epoch = sum_list (map (\<lambda>x. snd x - fst x) ?m)"
    using assms by (simp add: covered_seconds_def merge_spans_eq)
  have srt: "sorted (map fst ?spans)" by (rule sorted_fst_pairs) simp
  have "(\<exists>x \<in> set ?m. span_has t x) \<longleftrightarrow> (\<exists>s \<in> set segments. span_has t (clip_span from_epoch to_epoch s))" for t
  proof
    show "\<exists>s \<in> set segments. span_has t (clip_span from_epoch to_epoch s)" if "\<exists>x \<in> set ?m. span_has t x"
      using that merge_segments_only [of _ "[]" ?spans t] by fastforce
    show "\<exists>x \<in> set ?m. span_has t x" if "\<exists>s \<in> set segments. span_has t (clip_span from_epoch to_epoch s)"
      using that by (intro merge_segments_covers [OF srt]) auto
  qed
  moreover have "covered_seconds segments from_epoch to_epoch \<le> to_epoch - from_epoch"
    unfolding cov using sep assms by (intro separated_sum_le) auto
  ultimately show ?thesis using sep cov by (intro exI [of _ ?m]) (auto simp: span_has_clip)
qed

theorem covered_seconds_exact_witness:
  "covered_seconds [\<lparr>seg_camera = ''c'', seg_start = 0, seg_duration = 60, seg_filepath = ''p'', seg_size = 1\<rparr>] 10 100 \<le> 90"
  using covered_seconds_exact [of 10 100] by fastforce


lemma hd_sort_key_le:
  assumes "c \<in> set xs"
  shows "f (hd (sort_key f xs)) \<le> f c"
proof (cases "sort_key f xs")
  case Nil
  with assms show ?thesis by (metis empty_iff empty_set set_sort)
next
  case (Cons y ys)
  have "c \<in> set (y # ys)" using assms Cons by (metis set_sort)
  moreover have "sorted (map f (y # ys))" using Cons by (metis sorted_sort_key)
  ultimately show ?thesis using Cons by auto
qed

text \<open>
  Track selection prefers footage to cheapness. The chosen track is one of the candidates, covers
  all but one percent (or one second) of what the best candidate covers, and no candidate that covers
  as much is cheaper to serve.
\<close>

theorem select_track_optimal:
  assumes "candidates \<noteq> []"
  shows "select_track candidates \<in> set candidates \<and>
    (\<forall>c \<in> set candidates. fst (snd c) - max 1 (1 / 100 * fst (snd c)) \<le> fst (snd (select_track candidates))) \<and>
    (\<forall>c \<in> set candidates. fst (snd (select_track candidates)) \<le> fst (snd c) \<longrightarrow> fst (select_track candidates) \<le> fst c)"
proof -
  let ?cov = "\<lambda>c. fst (snd c)"
  let ?best = "Max (set (map ?cov candidates))"
  let ?tol = "max 1 (1 / 100 * ?best)"
  let ?fin = "filter (\<lambda>c. ?cov c \<ge> ?best - ?tol) candidates"
  have "?best \<in> set (map ?cov candidates)" using assms by (intro Max_in) auto
  then obtain b where b: "b \<in> set candidates" "?cov b = ?best" by auto
  then have "b \<in> set ?fin" by simp
  then have ne: "sort_key fst ?fin \<noteq> []" by (metis empty_iff empty_set set_sort)
  have sel: "select_track candidates = hd (sort_key fst ?fin)" by (simp add: select_track_def Let_def)
  have mem: "select_track candidates \<in> set ?fin"
    unfolding sel using hd_in_set [OF ne] by simp
  have least: "fst (select_track candidates) \<le> fst c" if "c \<in> set ?fin" for c
    unfolding sel using that by (rule hd_sort_key_le)
  have best: "?cov c \<le> ?best" if "c \<in> set candidates" for c using that by (intro Max_ge) auto
  have "?cov c - max 1 (1 / 100 * ?cov c) \<le> ?cov (select_track candidates)" if "c \<in> set candidates" for c
  proof -
    have "?cov c - max 1 (1 / 100 * ?cov c) \<le> ?best - ?tol"
      using best [OF that] by (auto simp: max_def field_simps)
    then show ?thesis using mem by simp
  qed
  then show ?thesis using mem least by auto
qed

theorem select_track_optimal_witness:
  "select_track [([0, 100], 3600, ''sub''), ([0, 2000], 7200, ''main'')] \<in> {([0, 100], 3600, ''sub''), ([0, 2000], 7200, ''main'')} \<and>
   7200 - 72 \<le> fst (snd (select_track [([0, 100], 3600, ''sub''), ([0, 2000], 7200, ''main'')]))"
  using select_track_optimal [of "[([0, 100], 3600, ''sub''), ([0, 2000], 7200, ''main'')]"] by (auto simp: max_def)


subsection \<open>Artifact names\<close>

lemma set_chomp: "set s \<subseteq> insert CHR 0x0A (set (chomp s))"
proof (cases s rule: rev_cases)
  case (snoc ys y)
  then show ?thesis by (auto simp: chomp_def)
qed simp

lemma split_sig_join:
  assumes "CHR ''.'' \<notin> set sig"
  shows "split_sig (stem @ CHR ''.'' # sig) = (stem, sig)"
proof -
  have "takeWhile (\<lambda>c. c \<noteq> CHR ''.'') (rev sig @ CHR ''.'' # rev stem) = rev sig"
    using assms by (auto intro!: takeWhile_stop)
  then show ?thesis by (simp add: split_sig_def Let_def)
qed

lemma split_sig_cases:
  assumes "split_sig s = (stem, sig)" and "stem \<noteq> []"
  shows "s = stem @ CHR ''.'' # sig"
proof -
  let ?P = "\<lambda>c. c \<noteq> CHR ''.''"
  have sig: "sig = rev (takeWhile ?P (rev s))" and st: "stem = take (length s - length sig - 1) s"
    and l: "length sig \<noteq> length s"
    using assms by (auto simp: split_sig_def Let_def split: if_splits)
  have s: "s = rev (dropWhile ?P (rev s)) @ sig"
    unfolding sig rev_append [symmetric] by simp
  have ne: "dropWhile ?P (rev s) \<noteq> []"
  proof
    assume "dropWhile ?P (rev s) = []"
    with s have "s = sig" by simp
    with l show False by simp
  qed
  then obtain ys where "dropWhile ?P (rev s) = CHR ''.'' # ys"
    using hd_dropWhile [OF ne] by (cases "dropWhile ?P (rev s)") auto
  with s have s': "s = rev ys @ CHR ''.'' # sig" by simp
  then have "stem = rev ys" unfolding st by (subst s') simp
  with s' show ?thesis by simp
qed

lemma hex_not_dot: "valid_sig sig \<Longrightarrow> CHR ''.'' \<notin> set sig \<and> CHR ''/'' \<notin> set sig"
proof -
  assume v: "valid_sig sig"
  have h: "\<not> is_hex CHR ''.''" "\<not> is_hex CHR ''/''" by (simp_all add: is_hex_def)
  have "\<forall>c \<in> set (chomp sig). is_hex c" using v by (simp add: valid_sig_def list_all_iff)
  with h have "CHR ''.'' \<notin> set (chomp sig)" "CHR ''/'' \<notin> set (chomp sig)" by auto
  then show ?thesis using set_chomp [of sig] by auto
qed

lemma py_endswith_rev: "py_endswith s t \<longleftrightarrow> take (length t) (rev s) = rev t"
  by (auto simp: py_endswith_def take_rev) (metis length_rev length_take min_def nat_le_linear take_rev)+

lemma drop_suffix_append [simp]: "drop_suffix (length t) (s @ t) = s"
  by (simp add: drop_suffix_def)

lemma find_kind: "List.find (\<lambda>k. py_endswith (s @ kind_suffix k') (kind_suffix k)) [Init, M4s, Ts] = Some k'"
  by (cases k') (simp_all add: py_endswith_rev)

lemma sixteen_split: "length t = 16 \<Longrightarrow> t = t ! 0 # take 8 (drop 1 t) @ t ! 9 # drop 10 t"
  using id_take_nth_drop [of 0 t] id_take_nth_drop [of 8 "drop 1 t"] by simp

lemma name_char_not_slash: "name_char c \<Longrightarrow> c \<noteq> CHR ''/'' \<and> c \<noteq> CHR ''.''"
  by (auto simp: name_char_def is_word_def)

lemma digit_name_char: "is_digit c \<Longrightarrow> name_char c"
  by (auto simp: is_digit_def name_char_def is_word_def digit_value_def Let_def split: if_splits)

lemma valid_stem_chars:
  assumes "valid_stem s" shows "\<forall>c \<in> set (chomp s). name_char c"
proof -
  let ?n = "chomp s"
  let ?t = "drop (length ?n - 16) ?n" and ?cam = "take (length ?n - 16) ?n"
  have v: "length ?n > 16" "?t ! 0 = CHR ''_''" "list_all is_digit (take 8 (drop 1 ?t))" "?t ! 9 = CHR ''_''"
     "list_all is_digit (drop 10 ?t)" "is_alnum (hd ?cam)" "list_all name_char (tl ?cam)"
    using assms by (auto simp: valid_stem_def Let_def)
  have "name_char (hd ?cam)" using v(6) by (simp add: is_alnum_def name_char_def)
  then have cam: "\<forall>c \<in> set ?cam. name_char c" using v(7) by (cases ?cam) (auto simp: list_all_iff)
  have us: "name_char CHR ''_''" by (simp add: name_char_def is_word_def)
  have "?t = ?t ! 0 # take 8 (drop 1 ?t) @ ?t ! 9 # drop 10 ?t" using v(1) by (intro sixteen_split) simp
  from arg_cong [OF this, of set] have st: "set ?t = insert (?t ! 0) (set (take 8 (drop 1 ?t)) \<union> insert (?t ! 9) (set (drop 10 ?t)))"
    by (simp only: list.set set_append Un_insert_right)
  have "\<forall>c \<in> set ?t. name_char c"
  proof
    fix c assume "c \<in> set ?t"
    then consider "c = ?t ! 0" | "c \<in> set (take 8 (drop 1 ?t))" | "c = ?t ! 9" | "c \<in> set (drop 10 ?t)"
      unfolding st by blast
    then show "name_char c"
      by cases (use v us in \<open>simp_all only: list_all_iff\<close>, auto intro: digit_name_char)
  qed
  moreover have "set ?n = set ?cam \<union> set ?t" unfolding set_append [symmetric] by simp
  ultimately show ?thesis using cam by blast
qed

lemma parse_artifact_iff:
  "parse_artifact name = Some (stem, sig, k) \<longleftrightarrow> valid_stem stem \<and> valid_sig sig \<and> name = artifact_name stem sig k"
proof
  assume h: "parse_artifact name = Some (stem, sig, k)"
  then obtain k' where f: "List.find (\<lambda>k. py_endswith name (kind_suffix k)) [Init, M4s, Ts] = Some k'"
    by (auto simp: parse_artifact_def split: option.splits)
  then have e: "py_endswith name (kind_suffix k')" by (auto split: if_splits)
  have p: "split_sig (drop_suffix (length (kind_suffix k')) name) = (stem, sig)" "valid_stem stem" "valid_sig sig" "k' = k"
    using h unfolding parse_artifact_def f option.case by (auto split: prod.splits if_splits)
  obtain hd' where n: "name = hd' @ kind_suffix k'" using e 
    unfolding py_endswith_def by (metis append_take_drop_id)
  then have "split_sig hd' = (stem, sig)" using p(1) by simp
  moreover have "stem \<noteq> []" using p(2) by (auto simp: valid_stem_def chomp_def)
  ultimately have "hd' = stem @ CHR ''.'' # sig" by (rule split_sig_cases)
  with n p show "valid_stem stem \<and> valid_sig sig \<and> name = artifact_name stem sig k"
    by (simp add: artifact_name_def)
next
  assume h: "valid_stem stem \<and> valid_sig sig \<and> name = artifact_name stem sig k"
  then have n: "name = (stem @ CHR ''.'' # sig) @ kind_suffix k" by (simp add: artifact_name_def)
  have "split_sig (stem @ CHR ''.'' # sig) = (stem, sig)" using h hex_not_dot by (intro split_sig_join) blast
  then show "parse_artifact name = Some (stem, sig, k)"
    unfolding parse_artifact_def n find_kind option.case drop_suffix_append using h by simp
qed

subsection \<open>What erasure leaves\<close>

lemma filter_delete: "filter (\<lambda>(q, i). q \<notin> D) (AList.delete p xs) = filter (\<lambda>(q, i). q \<noteq> p \<and> q \<notin> D) xs"
  by (auto simp: AList.delete_eq intro!: filter_cong)

lemma erase_rows_spec:
  "erase_rows rows f =
     (let ok = filter (\<lambda>(i, st, d, p, n). \<not> fs_unlink_err f p) rows
      in (map fst ok, map (\<lambda>(i, st, d, p, n). (p, st, st + d, n)) ok, sum_list (map (\<lambda>(i, st, d, p, n). n) ok),
          f\<lparr>fs_files := filter (\<lambda>(q, i). q \<notin> (\<lambda>(i, st, d, p, n). p) ` set ok) (fs_files f)\<rparr>))"
proof (induction rows f rule: erase_rows.induct)
  case (2 i st d p n rows f)
  show ?case
  proof (cases "fs_unlink_err f p")
    case True
    with 2(1) show ?thesis by (simp add: unlink_def)
  next
    case False
    let ?f1 = "f\<lparr>fs_files := AList.delete p (fs_files f)\<rparr>"
    from False have u: "unlink p f = Some ?f1" by (simp add: unlink_def)
    from 2(2) [OF u] False show ?thesis by (simp add: u Let_def filter_delete)
  qed
qed simp

lemma map_of_filter_out: "map_of (filter (\<lambda>(q, i). q \<notin> D) xs) p = (if p \<in> D then None else map_of xs p)"
  by (induction xs) auto

definition erased :: "string \<Rightarrow> epoch \<Rightarrow> epoch \<Rightarrow> fs \<Rightarrow> row \<Rightarrow> bool" where
  \<comment> \<open>a row that lies inside the window and whose file the file system lets go\<close>
  "erased camera a b f r \<longleftrightarrow> r_camera r = camera \<and> a \<le> r_start r \<and> r_end r \<le> b \<and> \<not> fs_unlink_err f (r_path r)"

lemma erase_ok:
  assumes "erase_recordings_range camera (Some a) (Some b) s = (Inr e, s')"
    and "\<forall>r \<in> set (db_rows (pb_db s)). 0 \<le> r_duration r" and "db_ok (pb_db s)"
  shows "er_deleted e = map (\<lambda>r. (r_path r, r_start r, r_end r, r_size r))
      (filter (erased camera a b (pb_fs s)) (overlapping_rows camera a b (pb_db s)))"
    and "db_rows (pb_db s') = filter (\<lambda>r. \<not> erased camera a b (pb_fs s) r) (db_rows (pb_db s))"
    and "er_skipped e = map (\<lambda>r. (r_path r, r_start r, r_end r))
      (filter (\<lambda>r. \<not> (a \<le> r_start r \<and> r_end r \<le> b)) (overlapping_rows camera a b (pb_db s)))"
    and "fs_files (pb_fs s') = filter (\<lambda>(q, i). q \<notin> r_path ` {r \<in> set (db_rows (pb_db s)). erased camera a b (pb_fs s) r}) (fs_files (pb_fs s))"
proof -
  let ?db = "pb_db s" and ?f = "pb_fs s"
  let ?t = "\<lambda>r. (r_id r, r_start r, r_duration r, r_path r, r_size r)"
  let ?ov = "overlapping_rows camera a b ?db"
  have ok: "filter (\<lambda>(i, st, d, p, n). \<not> fs_unlink_err ?f p) (filter (inside a b) (map ?t ?ov))
      = map ?t (filter (erased camera a b ?f) ?ov)"
    by (auto simp: filter_map comp_def inside_def r_end_def erased_def overlapping_rows_def intro!: arg_cong [where f = "map ?t"] filter_cong)
  have set: "set (filter (erased camera a b ?f) ?ov) = {r \<in> set (db_rows ?db). erased camera a b ?f r}"
    using assms(2) by (force simp: overlapping_rows_def erased_def r_end_def)
  note r = assms(1) [unfolded erase_recordings_range_def prod.case option.case select_overlapping_def erase_rows_spec Let_def ok]
  show "er_deleted e = map (\<lambda>r. (r_path r, r_start r, r_end r, r_size r)) (filter (erased camera a b ?f) ?ov)"
    using r by (auto simp: r_end_def comp_def split: if_splits)
  have "db_rows (pb_db s') = filter (\<lambda>r. r_id r \<notin> r_id ` set (filter (erased camera a b ?f) ?ov)) (db_rows ?db)"
    using r by (auto simp: comp_def split: if_splits)
  moreover have "r_id r \<notin> r_id ` {r \<in> set (db_rows ?db). erased camera a b ?f r} \<longleftrightarrow> \<not> erased camera a b ?f r" if "r \<in> set (db_rows ?db)" for r
    using that assms(3) by (auto simp: db_ok_def dest: eq_key_imp_eq_value distinct_map [THEN iffD1, THEN conjunct2, THEN inj_onD])
  ultimately show "db_rows (pb_db s') = filter (\<lambda>r. \<not> erased camera a b ?f r) (db_rows ?db)"
    unfolding set by (simp cong: filter_cong)
  show "er_skipped e = map (\<lambda>r. (r_path r, r_start r, r_end r)) (filter (\<lambda>r. \<not> (a \<le> r_start r \<and> r_end r \<le> b)) ?ov)"
    using r by (auto simp: filter_map comp_def inside_def r_end_def split: if_splits)
  have "fs_files (pb_fs s') = filter (\<lambda>(q, i). q \<notin> r_path ` set (filter (erased camera a b ?f) ?ov)) (fs_files ?f)"
    using r by (auto simp: image_image split: if_splits)
  then show "fs_files (pb_fs s') = filter (\<lambda>(q, i). q \<notin> r_path ` {r \<in> set (db_rows ?db). erased camera a b ?f r}) (fs_files ?f)"
    unfolding set .
qed

fun served_file :: "served \<Rightarrow> path" where
  "served_file (From_disk p) = p"
| "served_file (From_cache g m stem sig k) = seg_filepath g"

lemma hls_segment_Inr:
  assumes "hls_segment sha1 camera m name s = Inr srv"
  obtains stem sig k g where "parse_artifact name = Some (stem, sig, k)"
    "find_by_filename camera (stem @ ''.ts'') (pb_db s) = Some g" "file_exists (pb_fs s) (seg_filepath g)"
    "source_signature sha1 (pb_fs s) (seg_filepath g) = sig" "py_startswith stem (camera @ ''_'')"
    "srv = From_disk (seg_filepath g) \<and> m = ''ts'' \<and> k = Ts \<or> (\<exists>m'. mode_of m = Some m' \<and> m' \<noteq> Mode_ts \<and> k \<noteq> Ts \<and> srv = From_cache g m' stem sig k)"
proof -
  have ts: "m = ''ts''" if "mode_of m = Some Mode_ts" for m
    using that by (auto simp: mode_of_def split: if_splits)
  show thesis
    using assms that ts unfolding hls_segment_def by (auto split: if_splits option.splits prod.splits)
qed

lemma hls_served_exists: "hls_segment sha1 camera m name s = Inr srv \<Longrightarrow> file_exists (pb_fs s) (served_file srv)"
  by (erule hls_segment_Inr) auto


lemma file_exists_filter: "file_exists (f\<lparr>fs_files := filter (\<lambda>(q, i). q \<notin> D) xs\<rparr>) p \<longleftrightarrow> p \<notin> D \<and> map_of xs p \<noteq> None"
  by (simp add: file_exists_def map_of_filter_out)

lemma valid_artifact_no_slash:
  assumes "valid_stem stem" "valid_sig sig" shows "CHR ''/'' \<notin> set (artifact_name stem sig k)"
proof -
  have "CHR ''/'' \<notin> set (chomp stem)" using valid_stem_chars [OF assms(1)] name_char_not_slash by blast
  then have "CHR ''/'' \<notin> set stem" using set_chomp [of stem] by auto
  then show ?thesis using hex_not_dot [OF assms(2)] by (cases k) (simp_all add: artifact_name_def)
qed


text \<open>
  C23. Erasure removes what it reports and nothing else. The rows of the camera that lie fully inside the window
  and whose file can be removed leave the index, their files leave the disk and they are the
  reported deletions; every other row and file stays, the overlapping ones that stick out are reported as skipped,
  and from then on no camera's segment route answers with an erased file.
\<close>

theorem erasure_exact:
  assumes "erase_recordings_range camera (Some a) (Some b) s = (Inr e, s')"
    and "\<forall>r \<in> set (db_rows (pb_db s)). 0 \<le> r_duration r" and "db_ok (pb_db s)"
  shows "db_rows (pb_db s') = filter (\<lambda>r. \<not> erased camera a b (pb_fs s) r) (db_rows (pb_db s)) \<and>
    (\<forall>p. file_exists (pb_fs s') p \<longleftrightarrow> file_exists (pb_fs s) p \<and> p \<notin> fst ` set (er_deleted e)) \<and>
    set (er_deleted e) = (\<lambda>r. (r_path r, r_start r, r_end r, r_size r)) ` {r \<in> set (db_rows (pb_db s)). erased camera a b (pb_fs s) r} \<and>
    set (er_skipped e) = (\<lambda>r. (r_path r, r_start r, r_end r)) ` {r \<in> set (db_rows (pb_db s)).
      r_camera r = camera \<and> r_start r \<le> b \<and> a \<le> r_end r \<and> \<not> (a \<le> r_start r \<and> r_end r \<le> b)} \<and>
    (\<forall>sha1 camera' m name srv. hls_segment sha1 camera' m name s' = Inr srv \<longrightarrow> served_file srv \<notin> fst ` set (er_deleted e))"
proof -
  note ok = erase_ok [OF assms]
  let ?D = "{r \<in> set (db_rows (pb_db s)). erased camera a b (pb_fs s) r}"
  have del: "set (er_deleted e) = (\<lambda>r. (r_path r, r_start r, r_end r, r_size r)) ` ?D"
    using assms(2) unfolding ok(1) by (force simp: overlapping_rows_def erased_def r_end_def)
  have D: "fst ` set (er_deleted e) = r_path ` ?D" unfolding del by (simp add: image_image)
  have ex: "file_exists (pb_fs s') p \<longleftrightarrow> file_exists (pb_fs s) p \<and> p \<notin> fst ` set (er_deleted e)" for p
    unfolding file_exists_def ok(4) D map_of_filter_out by simp
  have "served_file srv \<notin> fst ` set (er_deleted e)" if "hls_segment sha1 camera' m name s' = Inr srv" for sha1 camera' m name srv
    using hls_served_exists [OF that] ex by blast
  then show ?thesis using ok(2) ex del by (auto simp: ok(3) overlapping_rows_def)
qed


lemma chomp_last: "s = [] \<or> last s \<noteq> CHR 0x0A \<Longrightarrow> chomp s = s"
  by (auto simp: chomp_def)

lemma length_stamp [simp]: "length (stamp_of c) = 15"
  by (cases c) (simp add: stamp_of_def)

lemma stamp_parts: "take 8 (stamp_of c) @ CHR ''_'' # drop 9 (stamp_of c) = stamp_of c"
  "list_all is_digit (take 8 (stamp_of c))" "stamp_of c ! 8 = CHR ''_''" "list_all is_digit (drop 9 (stamp_of c))"
  by (cases c; simp add: stamp_of_def is_digit_pad nth_append)+

lemma valid_stem_recorded:
  assumes "valid_camera_name camera" and "last camera \<noteq> CHR 0x0A"
  shows "valid_stem (camera @ CHR ''_'' # stamp_of c)"
proof -
  have "list_all is_digit (drop 9 (stamp_of c))" by (rule stamp_parts)
  moreover have "last (stamp_of c) \<in> set (drop 9 (stamp_of c))"
    using last_in_set [of "drop 9 (stamp_of c)"] by (simp add: last_drop)
  moreover have "\<not> is_digit CHR 0x0A" by (simp add: is_digit_def digit_value_def)
  ultimately have "last (camera @ CHR ''_'' # stamp_of c) \<noteq> CHR 0x0A"
    using length_stamp [of c] by (cases "stamp_of c = []") (auto simp: list_all_iff simp del: length_stamp)
  then have n: "chomp (camera @ CHR ''_'' # stamp_of c) = camera @ CHR ''_'' # stamp_of c" by (intro chomp_last) auto
  obtain x xs where "camera = x # xs" "is_alnum x" "length xs \<le> 63" "list_all name_char xs"
    using assms by (auto simp: valid_camera_name_def chomp_last split: list.splits if_splits)
  moreover have "drop (length (camera @ CHR ''_'' # stamp_of c) - 16) (camera @ CHR ''_'' # stamp_of c) = CHR ''_'' # stamp_of c"
    "take (length (camera @ CHR ''_'' # stamp_of c) - 16) (camera @ CHR ''_'' # stamp_of c) = camera" by simp_all
  ultimately show ?thesis
    unfolding valid_stem_def n Let_def using stamp_parts [of c] by (simp add: drop_Cons')
qed


lemma segment_stem_ts:
  assumes "CHR ''/'' \<notin> set n" and "n \<noteq> []"
  shows "segment_stem (path_join d (n @ ''.ts'')) = n"
proof -
  have "CHR ''/'' \<notin> set (n @ ''.ts'')" using assms by simp
  from base_name_join [OF this, of d] assms(2) show ?thesis by (simp add: segment_stem_def Let_def)
qed

lemma mode_of_name [simp]: "mode_of (mode_name m) = Some m"
  by (cases m) (simp_all add: mode_of_def)

lemma zero_sig: "valid_sig ''00000000''"
  by code_simp

text \<open>
  Every playlist line can be fetched. The address a playlist gives for a recorded segment
  is the base followed by a name that the segment route of the same camera and mode parses back into the
  segment's stem and signature and answers with that very file, as long as the file has not changed and
  the index finds it by its name.
\<close>

theorem playlist_entry_fetchable:
  assumes "valid_camera_name camera" and "last camera \<noteq> CHR 0x0A"
    and "seg_filepath g = path_join d (segment_name camera c)"
    and "find_by_filename camera (segment_name camera c) (pb_db s) = Some g"
    and "file_exists (pb_fs s) (seg_filepath g)"
    and "\<forall>x. valid_sig (take 8 (sha1 x))"
  shows "\<exists>name. last (playlist_entry sha1 (pb_fs s) m base later g) = base @ name \<and>
    parse_artifact name = Some (segment_stem (seg_filepath g), source_signature sha1 (pb_fs s) (seg_filepath g),
      if m = Mode_ts then Ts else M4s) \<and>
    (\<exists>srv. hls_segment sha1 camera (mode_name m) name s = Inr srv \<and> served_file srv = seg_filepath g)"
proof -
  let ?stem = "camera @ CHR ''_'' # stamp_of c" and ?k = "if m = Mode_ts then Ts else M4s"
  let ?sig = "source_signature sha1 (pb_fs s) (seg_filepath g)"
  let ?name = "artifact_name ?stem ?sig ?k"
  have vs: "valid_stem ?stem" by (rule valid_stem_recorded [OF assms(1,2)])
  have sig: "valid_sig ?sig"
    using assms(6) zero_sig by (simp add: source_signature_def split: option.split)
  have nm: "segment_name camera c = ?stem @ ''.ts''" by (simp add: segment_name_stamp)
  have "CHR ''/'' \<notin> set ?stem"
    using valid_artifact_no_slash [OF vs sig, of ?k] by (auto simp: artifact_name_def)
  then have stem: "segment_stem (seg_filepath g) = ?stem"
    unfolding assms(3) nm by (intro segment_stem_ts) auto
  have p: "parse_artifact ?name = Some (?stem, ?sig, ?k)"
    unfolding parse_artifact_iff using vs sig by simp
  have pre: "py_startswith ?stem (camera @ ''_'')" by (simp add: py_startswith_def)
  have last: "last (playlist_entry sha1 (pb_fs s) m base later g) = base @ ?name"
    by (cases m) (simp_all add: playlist_entry_def stem artifact_name_def fragment_mode_def Let_def)
  have "\<exists>srv. hls_segment sha1 camera (mode_name m) ?name s = Inr srv \<and> served_file srv = seg_filepath g"
    unfolding hls_segment_def mode_of_name p option.case prod.case using assms(1,4,5)
    by (cases m) (simp_all add: pre nm)
  then show ?thesis using last p stem by (intro exI [of _ ?name]) simp
qed

definition demo_playback :: playback where
  "demo_playback = \<lparr>pb_db = add_segment \<lparr>seg_camera = ''gate'', seg_start = 100, seg_duration = 60,
       seg_filepath = ''/n/gate/gate_20260904_173256.ts'', seg_size = 7\<rparr> empty_db,
     pb_fs = \<lparr>fs_files = [(''/n/gate/gate_20260904_173256.ts'', \<lparr>fi_size = 7, fi_mtime = 160\<rparr>)], fs_dirs = [],
       fs_unlink_err = (\<lambda>_. False), fs_stat_err = (\<lambda>_. False)\<rparr>\<rparr>"

definition demo_sha1 :: "string \<Rightarrow> string" where "demo_sha1 x = ''0123abcd''"

definition demo_segment :: segment where
  "demo_segment = \<lparr>seg_camera = ''gate'', seg_start = 100, seg_duration = 60,
     seg_filepath = ''/n/gate/gate_20260904_173256.ts'', seg_size = 7\<rparr>"

lemma demo_found:
  "segment_name ''gate'' (2026, 9, 4, 17, 32, 56) = ''gate_20260904_173256.ts''"
  "path_join ''/n/gate'' ''gate_20260904_173256.ts'' = ''/n/gate/gate_20260904_173256.ts''"
  "find_by_filename ''gate'' ''gate_20260904_173256.ts'' (pb_db demo_playback) = Some demo_segment"
  "file_exists (pb_fs demo_playback) ''/n/gate/gate_20260904_173256.ts''"
  "valid_camera_name ''gate''" "last ''gate'' \<noteq> CHR 0x0A" "valid_sig ''0123abcd''"
  by code_simp+




theorem erasure_exact_witness:
  "\<exists>e s'. erase_recordings_range ''gate'' (Some 90) (Some 200) demo_playback = (Inr e, s') \<and> db_rows (pb_db s') = []"
proof -
  have v: "valid_camera_name ''gate''" by code_simp
  let ?x = "erase_recordings_range ''gate'' (Some 90) (Some 200) demo_playback"
  obtain e s' where e: "?x = (Inr e, s')"
    using v by (auto simp: erase_recordings_range_def demo_playback_def get_cameras_def add_segment_def empty_db_def erase_rows_spec Let_def)
  have "db_rows (pb_db s') = filter (\<lambda>r. \<not> erased ''gate'' 90 200 (pb_fs demo_playback) r) (db_rows (pb_db demo_playback))"
    using erasure_exact [OF e] by (simp add: demo_playback_def add_segment_def empty_db_def db_ok_def)
  then show ?thesis using e by (auto simp: demo_playback_def add_segment_def empty_db_def erased_def r_end_def)
qed

theorem playlist_entry_fetchable_witness:
  "\<exists>name srv. hls_segment demo_sha1 ''gate'' ''fmp4'' name demo_playback = Inr srv \<and> served_file srv = ''/n/gate/gate_20260904_173256.ts''"
proof -
  have f: "seg_filepath demo_segment = ''/n/gate/gate_20260904_173256.ts''" by (simp add: demo_segment_def)
  have "\<forall>x. valid_sig (take 8 (demo_sha1 x))" using demo_found(7) by (simp add: demo_sha1_def)
  with playlist_entry_fetchable [where camera = "''gate''" and g = demo_segment and d = "''/n/gate''" and c = "(2026, 9, 4, 17, 32, 56)"
      and s = demo_playback and ?sha1.0 = demo_sha1 and m = Mode_fmp4 and base = "[]" and later = False, unfolded f demo_found(1,2), OF demo_found(5,6) refl demo_found(3,4)]
  show ?thesis by (auto simp: f)
qed


end
