(* ===== verification/Detections.thy ===== *)
theory Detections
  imports Prelude
begin

text \<open>
  What happens to the detector's boxes before identity: \<open>services/analytics/analytics/nested_boxes.py\<close> collapses
  the boxes of one object, \<open>best_frames.py\<close> keeps the best looks at a tracked vehicle under a byte budget.
  The detector and OpenCV's sharpness measure are parameters. A score is compared through its
  fourth power, which orders scores as the square and fourth roots of the code do.
\<close>

subsection \<open>Boxes\<close>

type_synonym box = "int \<times> int \<times> int \<times> int"

record detection =
  d_domain :: string
  d_xyxy :: box
  d_confidence :: rat
  d_label :: string

definition containment :: "box \<Rightarrow> box \<Rightarrow> rat" where
  "containment a b =
     (case (a, b) of ((ax1, ay1, ax2, ay2), (bx1, by1, bx2, by2)) \<Rightarrow>
        let iw = min ax2 bx2 - max ax1 bx1; ih = min ay2 by2 - max ay1 by1
        in if iw \<le> 0 \<or> ih \<le> 0 then 0
           else of_int (iw * ih) /
             min (max 1 (of_int ((ax2 - ax1) * (ay2 - ay1)))) (max 1 (of_int ((bx2 - bx1) * (by2 - by1)))))"

definition box_area :: "box \<Rightarrow> int" where
  "box_area b = (case b of (x1, y1, x2, y2) \<Rightarrow> (x2 - x1) * (y2 - y1))"

definition swallows :: "rat \<Rightarrow> detection \<Rightarrow> detection \<Rightarrow> bool" where
  \<comment> \<open>the test of the inner loop: \<open>det\<close> is dropped because of the kept \<open>other\<close>\<close>
  "swallows threshold det other \<longleftrightarrow>
     d_domain other = d_domain det \<and> containment (d_xyxy det) (d_xyxy other) \<ge> threshold"

fun suppress_loop :: "rat \<Rightarrow> detection list \<Rightarrow> nat list \<Rightarrow> nat list \<Rightarrow> nat list" where
  \<comment> \<open>the indices kept, in the order of the loop\<close>
  "suppress_loop threshold ds kept [] = kept"
| "suppress_loop threshold ds kept (i # order) =
     (if list_ex (\<lambda>j. swallows threshold (ds ! i) (ds ! j)) kept
      then suppress_loop threshold ds kept order
      else suppress_loop threshold ds (kept @ [i]) order)"

definition suppress_order :: "detection list \<Rightarrow> nat list" where
  "suppress_order ds = sort_key (\<lambda>i. - box_area (d_xyxy (ds ! i))) [0..<length ds]"

definition suppress_nested :: "rat \<Rightarrow> detection list \<Rightarrow> detection list" where
  \<comment> \<open>an index is in \<open>dropped\<close> exactly when the loop did not keep it\<close>
  "suppress_nested threshold ds =
     (if threshold \<le> 0 \<or> length ds < 2 then ds
      else let kept = suppress_loop threshold ds [] (suppress_order ds)
           in map (\<lambda>i. ds ! i) (filter (\<lambda>i. i \<in> set kept) [0..<length ds]))"

subsection \<open>One object, one box\<close>

lemma suppress_loop_mono: "set kept \<subseteq> set (suppress_loop t ds kept order)"
  by (induction t ds kept order rule: suppress_loop.induct) auto

lemma suppress_loop_subset: "set (suppress_loop t ds kept order) \<subseteq> set kept \<union> set order"
  by (induction t ds kept order rule: suppress_loop.induct) auto

lemma suppress_loop_explains:
  "i \<in> set order \<Longrightarrow> i \<notin> set (suppress_loop t ds kept order) \<Longrightarrow> sorted_wrt R (kept @ order) \<Longrightarrow>
    \<exists>j \<in> set (suppress_loop t ds kept order). swallows t (ds ! i) (ds ! j) \<and> R j i"
proof (induction t ds kept order rule: suppress_loop.induct)
  case (2 t ds kept k order)
  show ?case
  proof (cases "list_ex (\<lambda>j. swallows t (ds ! k) (ds ! j)) kept")
    case True
    show ?thesis
    proof (cases "i = k")
      case i: True
      from True obtain j where "j \<in> set kept" "swallows t (ds ! k) (ds ! j)" by (auto simp: list_ex_iff)
      moreover from this "2.prems"(3) have "R j k" by (simp add: sorted_wrt_append)
      ultimately show ?thesis using suppress_loop_mono [of kept t ds order] i True by auto
    qed (use 2 True in \<open>auto simp: sorted_wrt_append\<close>)
  next
    case False
    then have "k \<in> set (suppress_loop t ds kept (k # order))"
      using suppress_loop_mono [of "kept @ [k]" t ds order] by simp
    with "2.prems" have "i \<noteq> k" by auto
    then show ?thesis using 2 False by auto
  qed
qed simp

lemma suppress_loop_separate:
  assumes "sorted_wrt (\<lambda>j i. \<not> swallows t (ds ! i) (ds ! j)) kept"
  shows "sorted_wrt (\<lambda>j i. \<not> swallows t (ds ! i) (ds ! j)) (suppress_loop t ds kept order)"
  using assms
  by (induction t ds kept order rule: suppress_loop.induct) (auto simp: sorted_wrt_append list_ex_iff)

lemma suppress_loop_subseq_order:
  "sorted_wrt R (kept @ order) \<Longrightarrow> sorted_wrt R (suppress_loop t ds kept order)"
proof (induction t ds kept order rule: suppress_loop.induct)
  case (2 t ds kept k order)
  then show ?case by (auto simp: sorted_wrt_append)
qed simp

lemma containment_sym: "containment a b = containment b a"
  by (auto simp: containment_def min.commute max.commute Let_def split: prod.splits)

lemma swallows_sym: "swallows t a b \<longleftrightarrow> swallows t b a"
  by (auto simp: swallows_def containment_sym)

lemma sorted_wrt_pairwise:
  "sorted_wrt P xs \<Longrightarrow> (\<And>x y. P x y \<Longrightarrow> P y x) \<Longrightarrow> x \<in> set xs \<Longrightarrow> y \<in> set xs \<Longrightarrow> x \<noteq> y \<Longrightarrow> P x y"
  by (induction xs) auto

lemma set_suppress_order [simp]: "set (suppress_order ds) = {..<length ds}"
  by (auto simp: suppress_order_def)

lemma sorted_suppress_order: "sorted_wrt (\<lambda>i j. box_area (d_xyxy (ds ! j)) \<le> box_area (d_xyxy (ds ! i))) (suppress_order ds)"
  using sorted_sort_key [of "\<lambda>i. - box_area (d_xyxy (ds ! i))" "[0..<length ds]"]
  unfolding suppress_order_def by (simp add: sorted_map)


lemma map_nth_filter: "map (\<lambda>i. xs ! i) (filter (\<lambda>i. i \<in> K) [0..<length xs]) = nths xs K"
proof -
  have "map (\<lambda>i. xs ! i) (filter (\<lambda>i. i \<in> K) [0..<length xs]) = nths (map (\<lambda>i. xs ! i) [0..<length xs]) {i. i < length xs \<and> i \<in> K}"
    unfolding filter_eq_nths nths_map [symmetric] by (simp cong: conj_cong)
  also have "\<dots> = nths xs {i. i < length xs \<and> i \<in> K}" by (simp add: map_nth)
  also have "\<dots> = nths xs K" unfolding nths_def by (intro arg_cong [where f = "map fst"] filter_cong) (auto simp: set_zip)
  finally show ?thesis .
qed

text \<open>
  C38. Nested boxes collapse to the largest. What is kept keeps the detector's order; no two kept boxes of one
  domain contain one another to the threshold; and a box is dropped only when a kept
  box of its own domain, at least as large, contains it to the threshold. So every domain seen in the frame stays seen.
\<close>

theorem nested_boxes_exact:
  assumes "0 < t"
  shows "\<exists>K \<subseteq> {..<length ds}. suppress_nested t ds = nths ds K \<and>
    (\<forall>i \<in> K. \<forall>j \<in> K. i \<noteq> j \<longrightarrow> \<not> swallows t (ds ! i) (ds ! j)) \<and>
    (\<forall>i < length ds. i \<notin> K \<longrightarrow> (\<exists>j \<in> K. swallows t (ds ! i) (ds ! j) \<and>
       box_area (d_xyxy (ds ! i)) \<le> box_area (d_xyxy (ds ! j))))"
proof (cases "length ds < 2")
  case True
  then have "suppress_nested t ds = nths ds {..<length ds}"
    by (simp add: suppress_nested_def nths_all)
  with True show ?thesis by (intro exI [of _ "{..<length ds}"]) auto
next
  case False
  let ?k = "suppress_loop t ds [] (suppress_order ds)"
  have "set ?k \<subseteq> {..<length ds}" using suppress_loop_subset [of t ds "[]" "suppress_order ds"] by simp
  moreover have "suppress_nested t ds = nths ds (set ?k)"
    using False assms by (simp add: suppress_nested_def Let_def map_nth_filter)
  moreover have "\<not> swallows t (ds ! i) (ds ! j)" if "i \<in> set ?k" "j \<in> set ?k" "i \<noteq> j" for i j
    using sorted_wrt_pairwise [OF suppress_loop_separate [of t ds "[]" "suppress_order ds"], of j i] that swallows_sym by simp
  moreover have "\<exists>j \<in> set ?k. swallows t (ds ! i) (ds ! j) \<and> box_area (d_xyxy (ds ! i)) \<le> box_area (d_xyxy (ds ! j))"
    if "i < length ds" "i \<notin> set ?k" for i
    using suppress_loop_explains [of i "suppress_order ds" t ds "[]" "\<lambda>i j. box_area (d_xyxy (ds ! j)) \<le> box_area (d_xyxy (ds ! i))"]
      sorted_suppress_order [of ds] that by simp
  ultimately show ?thesis by (intro exI [of _ "set ?k"]) auto
qed

definition demo_boxes :: "detection list" where
  \<comment> \<open>a torso inside a body, and a person inside a bus\<close>
  "demo_boxes =
     [\<lparr>d_domain = ''person'', d_xyxy = (10, 14, 96, 146), d_confidence = 65 / 100, d_label = ''person''\<rparr>,
      \<lparr>d_domain = ''person'', d_xyxy = (10, 10, 112, 242), d_confidence = 51 / 100, d_label = ''person''\<rparr>,
      \<lparr>d_domain = ''vehicles'', d_xyxy = (0, 0, 400, 300), d_confidence = 9 / 10, d_label = ''bus''\<rparr>]"

theorem nested_boxes_exact_witness:
  "suppress_nested (9 / 10) demo_boxes = tl demo_boxes \<and> (\<exists>K \<subseteq> {..<3}. tl demo_boxes = nths demo_boxes K)"
proof -
  have "suppress_nested (9 / 10) demo_boxes = tl demo_boxes" by code_simp
  moreover have "length demo_boxes = 3" by (simp add: demo_boxes_def)
  ultimately show ?thesis using nested_boxes_exact [of "9 / 10" demo_boxes] by auto
qed

subsection \<open>The best looks at a track\<close>

record 'p crop =
  cr_width :: int
  cr_height :: int
  cr_bytes :: int
  cr_pixels :: 'p

record 'p candidate =
  ca_crop :: "'p crop"
  ca_ts :: epoch
  ca_score :: rat
  ca_confidence :: rat
  ca_area :: rat
  ca_sharpness :: rat

record 'p best_frames =
  bf_per_track :: nat
  bf_max_bytes :: int
  bf_by_track :: "(string, 'p candidate list) dict"
  bf_bytes :: int
  bf_offered :: int
  bf_accepted :: int
  bf_evicted :: int

definition best_frames_init :: "int \<Rightarrow> int \<Rightarrow> 'p best_frames" where
  "best_frames_init per_track max_bytes =
     \<lparr>bf_per_track = nat (max 1 per_track), bf_max_bytes = max_bytes, bf_by_track = [], bf_bytes = 0,
      bf_offered = 0, bf_accepted = 0, bf_evicted = 0\<rparr>"

definition score_crop :: "('p crop \<Rightarrow> rat) \<Rightarrow> 'p crop \<Rightarrow> rat \<Rightarrow> rat \<times> rat \<times> rat" where
  \<comment> \<open>the fourth power of the score, with its sign; \<open>sharpness\<close> is the variance OpenCV computes\<close>
  "score_crop sharpness crop confidence =
     (if cr_width crop = 0 \<or> cr_height crop = 0 then (-1, 0, 0)
      else let area = of_int (cr_width crop * cr_height crop); sharp = sharpness crop
           in (confidence * \<bar>confidence\<bar> ^ 3 * area ^ 2 * (1 + sharp), area, sharp))"

definition crop_bytes :: "'p candidate list \<Rightarrow> int" where
  "crop_bytes cs = sum_list (map (\<lambda>c. cr_bytes (ca_crop c)) cs)"

definition held :: "string \<Rightarrow> 'p best_frames \<Rightarrow> 'p candidate list" where
  "held tid b = (case map_of (bf_by_track b) tid of Some cs \<Rightarrow> cs | None \<Rightarrow> [])"

fun evict_ranked :: "(rat \<times> string) list \<Rightarrow> 'p best_frames \<Rightarrow> 'p best_frames" where
  \<comment> \<open>the loop of \<open>_enforce_budget\<close>\<close>
  "evict_ranked [] b = b"
| "evict_ranked ((score, tid) # ranked) b =
     (if bf_bytes b \<le> bf_max_bytes b then b
      else case held tid b of
             [] \<Rightarrow> evict_ranked ranked b
           | c # cs \<Rightarrow>
               let popped = last (c # cs); rest = butlast (c # cs)
               in evict_ranked ranked
                    (b\<lparr>bf_bytes := bf_bytes b - cr_bytes (ca_crop popped), bf_evicted := bf_evicted b + 1,
                      bf_by_track := (if rest = [] then AList.delete tid (bf_by_track b)
                                      else AList.update tid rest (bf_by_track b))\<rparr>))"

definition ranking :: "'p best_frames \<Rightarrow> (rat \<times> string) list" where
  "ranking b = sort_key fst (concat (map (\<lambda>(tid, cs). map (\<lambda>c. (ca_score c, tid)) cs) (bf_by_track b)))"

definition enforce_budget :: "'p best_frames \<Rightarrow> 'p best_frames" where
  "enforce_budget b = (if bf_bytes b \<le> bf_max_bytes b then b else evict_ranked (ranking b) b)"

definition offer ::
  "('p crop \<Rightarrow> rat) \<Rightarrow> string \<Rightarrow> 'p crop \<Rightarrow> rat \<Rightarrow> epoch \<Rightarrow> 'p best_frames \<Rightarrow> 'p best_frames" where
  "offer sharpness tid crop confidence ts b =
     (let b1 = b\<lparr>bf_offered := bf_offered b + 1\<rparr>; (score, area, sharp) = score_crop sharpness crop confidence
      in if score < 0 then b1
         else let old = held tid b1;
                  b2 = (if map_of (bf_by_track b1) tid = None then b1\<lparr>bf_by_track := AList.update tid [] (bf_by_track b1)\<rparr> else b1)
              in if length old \<ge> bf_per_track b \<and> score \<le> ca_score (last old) then b2
                 else let cand = \<lparr>ca_crop = crop, ca_ts = ts, ca_score = score, ca_confidence = confidence,
                            ca_area = area, ca_sharpness = sharp\<rparr>;
                          ranked = sort_key (\<lambda>c. - ca_score c) (old @ [cand]);
                          kept = take (bf_per_track b) ranked
                      in enforce_budget (b2\<lparr>bf_by_track := AList.update tid kept (bf_by_track b2),
                           bf_bytes := bf_bytes b + cr_bytes crop - crop_bytes (drop (bf_per_track b) ranked),
                           bf_accepted := bf_accepted b + 1\<rparr>))"

definition best_of_track :: "string \<Rightarrow> 'p best_frames \<Rightarrow> 'p candidate option" where
  "best_of_track tid b = (case held tid b of [] \<Rightarrow> None | c # _ \<Rightarrow> Some c)"

fun forget_looks :: "string list \<Rightarrow> 'p best_frames \<Rightarrow> 'p best_frames" where
  "forget_looks [] b = b\<lparr>bf_bytes := max 0 (bf_bytes b)\<rparr>"
| "forget_looks (tid # tids) b =
     forget_looks tids (b\<lparr>bf_bytes := bf_bytes b - crop_bytes (held tid b), bf_by_track := AList.delete tid (bf_by_track b)\<rparr>)"

subsection \<open>The byte budget\<close>

definition looks_ok :: "'p best_frames \<Rightarrow> bool" where
  "looks_ok b \<longleftrightarrow> distinct (dict_keys (bf_by_track b)) \<and> 1 \<le> bf_per_track b \<and>
     (\<forall>(tid, cs) \<in> set (bf_by_track b). cs \<noteq> [] \<and> length cs \<le> bf_per_track b \<and>
        sorted (map (\<lambda>c. - ca_score c) cs) \<and> (\<forall>c \<in> set cs. 0 \<le> cr_bytes (ca_crop c))) \<and>
     bf_bytes b = sum_list (map (crop_bytes \<circ> snd) (bf_by_track b))"

lemma crop_bytes_simps [simp]:
  "crop_bytes [] = 0" "crop_bytes (c # cs) = cr_bytes (ca_crop c) + crop_bytes cs"
  "crop_bytes (cs @ ds) = crop_bytes cs + crop_bytes ds"
  "crop_bytes (sort_key k cs) = crop_bytes cs"
  by (simp_all add: crop_bytes_def)

lemma crop_bytes_take_drop: "crop_bytes (take n cs) = crop_bytes cs - crop_bytes (drop n cs)"
  by (metis add_diff_cancel_right' append_take_drop_id crop_bytes_simps(3))

lemma crop_bytes_nonneg: "\<forall>c \<in> set cs. 0 \<le> cr_bytes (ca_crop c) \<Longrightarrow> 0 \<le> crop_bytes cs"
  by (induction cs) auto

lemma sum_update:
  fixes g :: "'v \<Rightarrow> int"
  assumes "distinct (map fst d)"
  shows "sum_list (map (g \<circ> snd) (AList.update k v d)) =
    sum_list (map (g \<circ> snd) d) + g v - (case map_of d k of Some w \<Rightarrow> g w | None \<Rightarrow> 0)"
  using assms by (induction d) (auto split: option.splits simp: map_of_eq_None_iff)

lemma sum_delete:
  fixes g :: "'v \<Rightarrow> int"
  assumes "distinct (map fst d)"
  shows "sum_list (map (g \<circ> snd) (AList.delete k d)) =
    sum_list (map (g \<circ> snd) d) - (case map_of d k of Some w \<Rightarrow> g w | None \<Rightarrow> 0)"
  using assms
proof (induction d)
  case (Cons x d)
  then show ?case
    by (cases x) (auto split: option.splits simp: AList.delete_eq map_of_eq_None_iff filter_id_conv rev_image_eqI)
qed (simp add: AList.delete_eq)

lemma held_update [simp]: "held tid (b\<lparr>bf_by_track := AList.update t cs d\<rparr>) = (if tid = t then cs else held tid (b\<lparr>bf_by_track := d\<rparr>))"
  by (simp add: held_def update_conv')

lemma held_delete [simp]: "held tid (b\<lparr>bf_by_track := AList.delete t d\<rparr>) = (if tid = t then [] else held tid (b\<lparr>bf_by_track := d\<rparr>))"
  by (simp add: held_def delete_conv')

lemma held_frame [simp]:
  "held tid (b\<lparr>bf_bytes := x\<rparr>) = held tid b" "held tid (b\<lparr>bf_evicted := y\<rparr>) = held tid b"
  "held tid (b\<lparr>bf_accepted := y\<rparr>) = held tid b" "held tid (b\<lparr>bf_offered := y\<rparr>) = held tid b"
  by (simp_all add: held_def)

definition looks :: "nat \<Rightarrow> 'p candidate list \<Rightarrow> bool" where
  "looks n cs \<longleftrightarrow> cs \<noteq> [] \<and> length cs \<le> n \<and> sorted (map (\<lambda>c. - ca_score c) cs) \<and> (\<forall>c \<in> set cs. 0 \<le> cr_bytes (ca_crop c))"

lemma looks_ok_alt:
  "looks_ok b \<longleftrightarrow> distinct (dict_keys (bf_by_track b)) \<and> 1 \<le> bf_per_track b \<and>
     (\<forall>x \<in> set (bf_by_track b). looks (bf_per_track b) (snd x)) \<and>
     bf_bytes b = sum_list (map (crop_bytes \<circ> snd) (bf_by_track b))"
  by (auto simp: looks_ok_def looks_def)

lemma looks_ok_held: "looks_ok b \<Longrightarrow> held tid b \<noteq> [] \<Longrightarrow> looks (bf_per_track b) (held tid b) \<and> map_of (bf_by_track b) tid = Some (held tid b)"
  by (auto simp: looks_ok_alt held_def dest!: map_of_SomeD split: option.splits)

lemma set_update_dict: "distinct (map fst d) \<Longrightarrow> x \<in> set (AList.update k v d) \<longleftrightarrow> x = (k, v) \<or> x \<in> set d \<and> fst x \<noteq> k"
  by (induction d) (auto simp: rev_image_eqI)

lemma set_delete_dict: "x \<in> set (AList.delete k d) \<Longrightarrow> x \<in> set d"
  by (simp add: AList.delete_eq)

lemma update_again: "AList.update k v (AList.update k w d) = AList.update k v d"
  by (induction d) auto

lemma looks_ok_put:
  assumes "looks_ok b" and "looks (bf_per_track b) cs"
    and "b' = b\<lparr>bf_by_track := AList.update tid cs (bf_by_track b), bf_bytes := bf_bytes b + crop_bytes cs - crop_bytes (held tid b)\<rparr>"
  shows "looks_ok b'"
  using assms
  by (auto simp: looks_ok_alt distinct_update set_update_dict sum_update held_def split: option.split)

lemma looks_ok_drop:
  assumes "looks_ok b"
    and "b' = b\<lparr>bf_by_track := AList.delete tid (bf_by_track b), bf_bytes := bf_bytes b - crop_bytes (held tid b)\<rparr>"
  shows "looks_ok b'"
  using assms
  by (auto simp: looks_ok_alt sum_delete held_def distinct_delete dest: set_delete_dict split: option.split)

lemma looks_ok_counters [simp]:
  "looks_ok (b\<lparr>bf_offered := x\<rparr>) = looks_ok b" "looks_ok (b\<lparr>bf_accepted := x\<rparr>) = looks_ok b"
  "looks_ok (b\<lparr>bf_evicted := x\<rparr>) = looks_ok b"
  by (simp_all add: looks_ok_alt)

lemma looks_butlast: "looks n cs \<Longrightarrow> butlast cs \<noteq> [] \<Longrightarrow> looks n (butlast cs)"
  by (auto simp: looks_def sorted_wrt_map map_butlast [symmetric] butlast_conv_take sorted_wrt_take take_map dest: in_set_takeD)

definition evict_one :: "string \<Rightarrow> 'p best_frames \<Rightarrow> 'p best_frames" where
  \<comment> \<open>one round of the eviction loop, for a track that holds something\<close>
  "evict_one tid b =
     (let cs = held tid b; rest = butlast cs
      in b\<lparr>bf_bytes := bf_bytes b - cr_bytes (ca_crop (last cs)), bf_evicted := bf_evicted b + 1,
           bf_by_track := (if rest = [] then AList.delete tid (bf_by_track b) else AList.update tid rest (bf_by_track b))\<rparr>)"

lemma evict_ranked_step:
  "evict_ranked ((score, tid) # ranked) b =
     (if bf_bytes b \<le> bf_max_bytes b then b
      else if held tid b = [] then evict_ranked ranked b else evict_ranked ranked (evict_one tid b))"
  by (auto simp: evict_one_def Let_def split: list.split)

lemma looks_ok_evict_one:
  assumes "looks_ok b" and "held tid b \<noteq> []"
  shows "looks_ok (evict_one tid b)"
proof -
  let ?cs = "held tid b"
  have cs: "?cs = butlast ?cs @ [last ?cs]" using assms(2) by simp
  then have bytes: "crop_bytes ?cs = crop_bytes (butlast ?cs) + cr_bytes (ca_crop (last ?cs))"
    by (metis crop_bytes_simps(1,2,3) add.right_neutral)
  have l: "looks (bf_per_track b) ?cs" using looks_ok_held [OF assms] ..
  show ?thesis
  proof (cases "butlast ?cs = []")
    case True
    then have "looks_ok (b\<lparr>bf_by_track := AList.delete tid (bf_by_track b), bf_bytes := bf_bytes b - crop_bytes ?cs\<rparr>)"
      by (intro looks_ok_drop [OF assms(1)]) simp
    with True bytes show ?thesis by (simp add: evict_one_def Let_def looks_ok_alt)
  next
    case False
    then have "looks_ok (b\<lparr>bf_by_track := AList.update tid (butlast ?cs) (bf_by_track b),
        bf_bytes := bf_bytes b + crop_bytes (butlast ?cs) - crop_bytes ?cs\<rparr>)"
      by (intro looks_ok_put [OF assms(1) looks_butlast [OF l]]) simp_all
    with False bytes show ?thesis by (simp add: evict_one_def Let_def looks_ok_alt)
  qed
qed

lemma evict_one_frame [simp]:
  "bf_max_bytes (evict_one tid b) = bf_max_bytes b" "bf_per_track (evict_one tid b) = bf_per_track b"
  "held t (evict_one tid b) = (if t = tid then butlast (held tid b) else held t b)"
  by (auto simp: evict_one_def Let_def held_def update_conv' delete_conv')

lemma looks_ok_evict_ranked: "looks_ok b \<Longrightarrow> looks_ok (evict_ranked ranked b)"
  by (induction ranked arbitrary: b) (auto simp: evict_ranked_step looks_ok_evict_one simp del: evict_ranked.simps(2))

lemma evict_ranked_budget:
  assumes "looks_ok b" and "0 \<le> bf_max_bytes b"
    and "\<And>tid. length (held tid b) \<le> length (filter (\<lambda>x. snd x = tid) ranked)"
  shows "bf_bytes (evict_ranked ranked b) \<le> bf_max_bytes b"
  using assms
proof (induction ranked arbitrary: b)
  case Nil
  then have none: "held tid b = []" for tid by simp
  have "bf_by_track b = []"
  proof (cases "bf_by_track b")
    case (Cons x d)
    then have "held (fst x) b = snd x" "snd x \<noteq> []" using Nil.prems(1) by (auto simp: held_def looks_ok_alt looks_def)
    with none show ?thesis by simp
  qed simp
  with Nil show ?case by (simp add: looks_ok_alt)
next
  case (Cons x ranked)
  obtain sc tid where x: "x = (sc, tid)" by (cases x)
  consider "bf_bytes b \<le> bf_max_bytes b" | "\<not> bf_bytes b \<le> bf_max_bytes b" "held tid b = []"
    | "\<not> bf_bytes b \<le> bf_max_bytes b" "held tid b \<noteq> []" by blast
  then show ?case
  proof cases
    case 2
    then have "length (held t b) \<le> length (filter (\<lambda>x. snd x = t) ranked)" for t
      using Cons.prems(3) [of t] x by (auto split: if_splits)
    with 2 Cons show ?thesis unfolding x evict_ranked_step by simp
  next
    case 3
    have "length (held t (evict_one tid b)) \<le> length (filter (\<lambda>x. snd x = t) ranked)" for t
      using Cons.prems(3) [of t] x 3 by (auto split: if_splits)
    with 3 Cons.IH [of "evict_one tid b"] Cons.prems looks_ok_evict_one [of b tid] show ?thesis
      unfolding x evict_ranked_step by simp
  qed (simp add: x evict_ranked_step del: evict_ranked.simps)
qed

lemma length_filter_sort_key [simp]: "length (filter P (sort_key f xs)) = length (filter P xs)"
  by (metis mset_filter mset_sort size_mset)

lemma ranking_complete: "length (held tid b) \<le> length (filter (\<lambda>x. snd x = tid) (ranking b))"
proof -
  have "length (case map_of d tid of Some cs \<Rightarrow> cs | None \<Rightarrow> []) \<le>
      length (filter (\<lambda>x. snd x = tid) (concat (map (\<lambda>(tid, cs). map (\<lambda>c. (ca_score c, tid)) cs) d)))"
    for d :: "(string \<times> 'a candidate list) list"
    by (induction d) (auto simp: filter_map comp_def)
  then show ?thesis by (simp add: ranking_def held_def)
qed

lemma enforce_budget_frame [simp]:
  "bf_max_bytes (enforce_budget b) = bf_max_bytes b" "bf_per_track (enforce_budget b) = bf_per_track b"
proof -
  have "bf_max_bytes (evict_ranked r b) = bf_max_bytes b \<and> bf_per_track (evict_ranked r b) = bf_per_track b" for r
    by (induction r arbitrary: b) (auto simp: evict_ranked_step simp del: evict_ranked.simps(2))
  then show "bf_max_bytes (enforce_budget b) = bf_max_bytes b" "bf_per_track (enforce_budget b) = bf_per_track b"
    by (auto simp: enforce_budget_def)
qed

lemma enforce_budget_ok: "looks_ok b \<Longrightarrow> looks_ok (enforce_budget b)"
  by (simp add: enforce_budget_def looks_ok_evict_ranked)

lemma enforce_budget_le: "looks_ok b \<Longrightarrow> 0 \<le> bf_max_bytes b \<Longrightarrow> bf_bytes (enforce_budget b) \<le> bf_max_bytes b"
  by (simp add: enforce_budget_def evict_ranked_budget ranking_complete)

definition shortlist :: "'p candidate list \<Rightarrow> 'p candidate \<Rightarrow> 'p candidate list" where
  \<comment> \<open>a track's candidates with one more, best first\<close>
  "shortlist old c = sort_key (\<lambda>c. - ca_score c) (old @ [c])"

lemma looks_shortlist:
  assumes "1 \<le> n" and "\<forall>x \<in> set (old @ [c]). 0 \<le> cr_bytes (ca_crop x)"
  shows "looks n (take n (shortlist old c))"
proof -
  have "sorted (map (\<lambda>c. - ca_score c) (shortlist old c))" by (simp add: shortlist_def)
  then have "sorted (map (\<lambda>c. - ca_score c) (take n (shortlist old c)))"
    by (simp add: take_map [symmetric] sorted_wrt_take)
  moreover have "shortlist old c \<noteq> []"
    by (metis append_is_Nil_conv length_sort list.distinct(1) length_0_conv shortlist_def)
  moreover have "set (shortlist old c) = set (old @ [c])" by (simp add: shortlist_def)
  ultimately show ?thesis using assms by (auto simp: looks_def dest!: in_set_takeD)
qed

lemma offer_cases:
  assumes "looks_ok b"
  obtains (skipped) "offer sharpness tid crop confidence ts b = b\<lparr>bf_offered := bf_offered b + 1\<rparr>"
  | (kept) c where "ca_crop c = crop" "offer sharpness tid crop confidence ts b =
      enforce_budget (b\<lparr>bf_offered := bf_offered b + 1, bf_by_track := AList.update tid (take (bf_per_track b) (shortlist (held tid b) c)) (bf_by_track b),
        bf_bytes := bf_bytes b + crop_bytes (take (bf_per_track b) (shortlist (held tid b) c)) - crop_bytes (held tid b),
        bf_accepted := bf_accepted b + 1\<rparr>)"
proof -
  obtain sc ar sh where sc: "score_crop sharpness crop confidence = (sc, ar, sh)" by (cases "score_crop sharpness crop confidence")
  let ?c = "\<lparr>ca_crop = crop, ca_ts = ts, ca_score = sc, ca_confidence = confidence, ca_area = ar, ca_sharpness = sh\<rparr>"
  let ?b1 = "b\<lparr>bf_offered := bf_offered b + 1\<rparr>" and ?s = "shortlist (held tid b) ?c"
  consider "sc < 0" | "\<not> sc < 0" "length (held tid b) \<ge> bf_per_track b \<and> sc \<le> ca_score (last (held tid b))"
    | "\<not> sc < 0" "\<not> (length (held tid b) \<ge> bf_per_track b \<and> sc \<le> ca_score (last (held tid b)))" by blast
  then show thesis
  proof cases
    case 1
    then show thesis by (intro skipped) (simp add: offer_def sc Let_def)
  next
    case 2
    moreover have "1 \<le> bf_per_track b" using assms by (simp add: looks_ok_alt)
    ultimately have "held tid b \<noteq> []" by auto
    then have "map_of (bf_by_track b) tid = Some (held tid b)" using looks_ok_held [OF assms] by simp
    with 2 show thesis by (intro skipped) (simp add: offer_def sc Let_def)
  next
    case 3
    have "crop_bytes ?s = crop_bytes (held tid b) + cr_bytes crop" by (simp add: shortlist_def)
    then have bytes: "bf_bytes b + crop_bytes (take (bf_per_track b) ?s) - crop_bytes (held tid b) =
        bf_bytes b + cr_bytes crop - crop_bytes (drop (bf_per_track b) ?s)"
      by (simp add: crop_bytes_take_drop)
    from 3 have full: "(length (held tid b) \<ge> bf_per_track b \<and> sc \<le> ca_score (last (held tid b))) = False" by blast
    show thesis
    proof (rule kept [of ?c])
      show "offer sharpness tid crop confidence ts b = enforce_budget (b\<lparr>bf_offered := bf_offered b + 1, bf_by_track := AList.update tid (take (bf_per_track b) ?s) (bf_by_track b),
          bf_bytes := bf_bytes b + crop_bytes (take (bf_per_track b) ?s) - crop_bytes (held tid b), bf_accepted := bf_accepted b + 1\<rparr>)"
        unfolding bytes using 3(1) by (simp add: offer_def sc Let_def full shortlist_def [symmetric] update_again)
    qed simp
  qed
qed


lemma offer_enforces:
  assumes "looks_ok b" and "0 \<le> cr_bytes crop"
  obtains (skipped) "offer sharpness tid crop confidence ts b = b\<lparr>bf_offered := bf_offered b + 1\<rparr>"
  | (kept) b' where "offer sharpness tid crop confidence ts b = enforce_budget b'" "looks_ok b'"
      "bf_max_bytes b' = bf_max_bytes b"
  using assms(1)
proof (cases rule: offer_cases [where sharpness = sharpness and tid = tid and crop = crop and confidence = confidence and ts = ts])
  case (kept c)
  have "\<forall>x \<in> set (held tid b @ [c]). 0 \<le> cr_bytes (ca_crop x)"
    using assms kept(1) looks_ok_held [of b tid] by (cases "held tid b = []") (auto simp: looks_def)
  then have "looks (bf_per_track b) (take (bf_per_track b) (shortlist (held tid b) c))"
    using assms(1) by (intro looks_shortlist) (auto simp: looks_ok_alt)
  from looks_ok_put [OF assms(1) this refl] show thesis
    by (intro that(2) [OF kept(2)]) (simp_all add: looks_ok_alt)
qed (rule that(1))

lemma offer_per_track [simp]: "bf_per_track (offer sharpness tid crop confidence ts b) = bf_per_track b"
  by (simp add: offer_def Let_def split: prod.split)

lemma offer_ok:
  assumes "looks_ok b" and "0 \<le> cr_bytes crop"
  shows "looks_ok (offer sharpness tid crop confidence ts b)"
  by (rule offer_enforces [OF assms, where sharpness = sharpness and tid = tid and confidence = confidence and ts = ts])
    (simp_all add: enforce_budget_ok assms)

lemma offer_budget:
  assumes "looks_ok b" and "0 \<le> cr_bytes crop" and "0 \<le> bf_max_bytes b" and "bf_bytes b \<le> bf_max_bytes b"
  shows "bf_bytes (offer sharpness tid crop confidence ts b) \<le> bf_max_bytes b \<and>
    bf_max_bytes (offer sharpness tid crop confidence ts b) = bf_max_bytes b"
  by (rule offer_enforces [OF assms(1,2), where sharpness = sharpness and tid = tid and confidence = confidence and ts = ts])
    (use assms in \<open>auto dest: enforce_budget_le\<close>)

lemma forget_looks_ok:
  "looks_ok b \<Longrightarrow> looks_ok (forget_looks tids b) \<and> bf_bytes (forget_looks tids b) \<le> bf_bytes b \<and>
    bf_max_bytes (forget_looks tids b) = bf_max_bytes b \<and> (\<forall>tid \<in> set tids. held tid (forget_looks tids b) = [])"
proof (induction tids arbitrary: b)
  case Nil
  have "0 \<le> bf_bytes b"
    using Nil by (auto simp: looks_ok_alt looks_def intro!: sum_list_nonneg crop_bytes_nonneg)
  with Nil show ?case by (simp add: looks_ok_alt)
next
  case (Cons tid tids)
  let ?b = "b\<lparr>bf_bytes := bf_bytes b - crop_bytes (held tid b), bf_by_track := AList.delete tid (bf_by_track b)\<rparr>"
  have "looks_ok (b\<lparr>bf_by_track := AList.delete tid (bf_by_track b), bf_bytes := bf_bytes b - crop_bytes (held tid b)\<rparr>)"
    by (rule looks_ok_drop [OF Cons.prems refl])
  then have ok: "looks_ok ?b" by (simp add: looks_ok_alt)
  have "0 \<le> crop_bytes (held tid b)"
    using looks_ok_held [OF Cons.prems, of tid] by (cases "held tid b = []") (auto simp: looks_def intro: crop_bytes_nonneg)
  moreover have "held tid (forget_looks tids ?b) = []"
  proof (cases "tid \<in> set tids")
    case False
    have "held tid (forget_looks tids b') = held tid b'" if "tid \<notin> set tids" for b' :: "'a best_frames"
      using that by (induction tids arbitrary: b') (auto simp: held_def delete_conv')
    with False show ?thesis by (simp add: held_def delete_conv')
  qed (use Cons.IH [OF ok] in simp)
  ultimately show ?case using Cons.IH [OF ok] by auto
qed

datatype 'p look_op =
    Offer string "'p crop" rat epoch
  | Forget "string list"

fun look_step :: "('p crop \<Rightarrow> rat) \<Rightarrow> 'p look_op \<Rightarrow> 'p best_frames \<Rightarrow> 'p best_frames" where
  "look_step sharpness (Offer tid crop confidence ts) b = offer sharpness tid crop confidence ts b"
| "look_step sharpness (Forget tids) b = forget_looks tids b"

fun look_op_ok :: "'p look_op \<Rightarrow> bool" where
  "look_op_ok (Offer tid crop confidence ts) \<longleftrightarrow> 0 \<le> cr_bytes crop"
| "look_op_ok (Forget tids) \<longleftrightarrow> True"

lemma look_step_ok:
  assumes "looks_ok b" and "look_op_ok p" and "0 \<le> bf_max_bytes b" and "bf_bytes b \<le> bf_max_bytes b"
  shows "looks_ok (look_step sharpness p b) \<and> bf_max_bytes (look_step sharpness p b) = bf_max_bytes b \<and>
    bf_bytes (look_step sharpness p b) \<le> bf_max_bytes b"
proof (cases p)
  case (Offer tid crop confidence ts)
  then show ?thesis using assms offer_ok [of b crop sharpness tid confidence ts]
        offer_budget [of b crop sharpness tid confidence ts] by simp
next
  case (Forget tids)
  then show ?thesis using assms forget_looks_ok [of b tids] by auto
qed

text \<open>
  The best-frame buffer stays inside its budget. Whatever crops are offered and whatever tracks are forgotten, the
  byte count is exactly the size of the crops held and never above the ceiling, no track holds more than its
  share, and the look a track answers with is the best one it holds.
\<close>

theorem best_frames_bounded:
  assumes "0 \<le> max_bytes" and "list_all look_op_ok ops"
    and "b = fold (look_step sharpness) ops (best_frames_init per_track max_bytes)"
  shows "bf_bytes b = sum_list (map (crop_bytes \<circ> snd) (bf_by_track b)) \<and> bf_bytes b \<le> max_bytes \<and>
    (\<forall>tid. length (held tid b) \<le> nat (max 1 per_track) \<and>
       (\<forall>c \<in> set (held tid b). \<exists>best. best_of_track tid b = Some best \<and> ca_score c \<le> ca_score best))"
proof -
  have "looks_ok b \<and> bf_max_bytes b = max_bytes \<and> bf_bytes b \<le> max_bytes \<and> bf_per_track b = nat (max 1 per_track)"
    unfolding assms(3) using assms(2)
  proof (induction ops rule: rev_induct)
    case Nil
    then show ?case using assms(1) by (simp add: best_frames_init_def looks_ok_alt)
  next
    case (snoc p ops)
    let ?b = "fold (look_step sharpness) ops (best_frames_init per_track max_bytes)"
    have "bf_per_track (look_step sharpness p ?b) = bf_per_track ?b"
    proof (cases p)
      case (Offer tid crop confidence ts)
      then show ?thesis by simp
    next
      case (Forget tids)
      have "bf_per_track (forget_looks tids x) = bf_per_track x" for x :: "'a best_frames"
        by (induction tids arbitrary: x) auto
      with Forget show ?thesis by simp
    qed
    with snoc look_step_ok [of ?b p sharpness] assms(1) show ?case by simp
  qed
  note b = this
  have "length (held tid b) \<le> nat (max 1 per_track) \<and> (\<forall>c \<in> set (held tid b). \<exists>best. best_of_track tid b = Some best \<and> ca_score c \<le> ca_score best)" for tid
  proof (cases "held tid b")
    case (Cons x xs)
    then show ?thesis using looks_ok_held [of b tid] b by (auto simp: looks_def best_of_track_def)
  qed simp
  with b show ?thesis by (simp add: looks_ok_alt)
qed

definition demo_looks :: "nat look_op list" where
  "demo_looks =
     [Offer ''t1'' \<lparr>cr_width = 4, cr_height = 2, cr_bytes = 24, cr_pixels = 0\<rparr> (1 / 2) 10,
      Offer ''t1'' \<lparr>cr_width = 8, cr_height = 4, cr_bytes = 96, cr_pixels = 0\<rparr> (1 / 2) 11,
      Offer ''t2'' \<lparr>cr_width = 2, cr_height = 2, cr_bytes = 12, cr_pixels = 0\<rparr> (1 / 2) 11,
      Forget [''t2'']]"

theorem best_frames_bounded_witness:
  "bf_bytes (fold (look_step (\<lambda>_. 0)) demo_looks (best_frames_init 3 100)) \<le> 100"
proof -
  have "list_all look_op_ok demo_looks" by (simp add: demo_looks_def)
  then show ?thesis using best_frames_bounded [OF _ _ refl, of 100 demo_looks "\<lambda>_. 0" 3] by auto
qed

end
