(* ===== verification/Tracking.thy ===== *)
theory Tracking
  imports Detections
begin

text \<open>
  Identity, \<open>services/analytics/analytics/tracking.py\<close>: which detections of successive frames are the same object.
  A cost is compared through its square. Tracks are values: a track handed out with a detection of the current
  frame is not changed again by that frame's ageing.
\<close>

subsection \<open>Tracks\<close>

datatype track_state = Tentative | Confirmed | Active | Stationary | Lost

record track =
  t_id :: string
  t_domain :: string
  t_state :: track_state
  t_first_seen :: epoch
  t_last_seen :: epoch
  t_cx :: rat
  t_by :: rat
  t_w :: rat
  t_h :: rat
  t_vx :: rat
  t_vy :: rat
  t_hits :: int
  t_still_cx :: rat
  t_still_by :: rat
  t_still_since :: epoch

definition is_confirmed :: "track \<Rightarrow> bool" where
  "is_confirmed t \<longleftrightarrow> t_state t \<in> {Confirmed, Active, Stationary, Lost}"

definition predict :: "epoch \<Rightarrow> track \<Rightarrow> rat \<times> rat" where
  "predict ts t = (let dt = max 0 (ts - t_last_seen t) in (t_cx t + t_vx t * dt, t_by t + t_vy t * dt))"

definition geometry :: "box \<Rightarrow> rat \<times> rat \<times> rat \<times> rat" where
  "geometry b = (case b of (x1, y1, x2, y2) \<Rightarrow>
     (of_int (x1 + x2) / 2, of_int y2, max 1 (of_int (x2 - x1)), max 1 (of_int (y2 - y1))))"

definition association_cost :: "rat \<times> rat \<Rightarrow> rat \<times> rat \<Rightarrow> rat \<times> rat \<times> rat \<times> rat \<Rightarrow> rat" where
  \<comment> \<open>the square of the cost\<close>
  "association_cost p sz g =
     (case (p, sz, g) of ((px, py), (pw, ph), (dx, dy, dw, dh)) \<Rightarrow>
        let scale = max (1 / 10 ^ 6) ((ph + dh) / 2);
            ndx = (dx - px) / scale; ndy = (dy - py) / scale;
            wr = max pw dw / max (1 / 10 ^ 6) (min pw dw) - 1;
            hr = max ph dh / max (1 / 10 ^ 6) (min ph dh) - 1
        in ndx * ndx + ndy * ndy + wr * wr + hr * hr)"

record tracker_cfg =
  tc_enabled :: bool
  tc_max_cost :: rat
  tc_alpha :: rat
  tc_confirm_after :: rat
  tc_max_age :: rat
  tc_stationary_after :: rat
  tc_stationary_distance :: rat
  tc_max_tracks :: nat

type_synonym track_key = "string \<times> string"

record tracker =
  tk_tracks :: "(track_key, track list) dict"
  tk_epoch :: "(string, int) dict"
  tk_nonce :: string
  tk_counter :: int
  tk_expired :: "string list"
  tk_n_created :: int
  tk_n_confirmed :: int
  tk_n_expired :: int
  tk_associations :: int
  tk_failures :: int

definition tracker_config :: "bool \<Rightarrow> rat \<Rightarrow> rat \<Rightarrow> rat \<Rightarrow> rat \<Rightarrow> rat \<Rightarrow> rat \<Rightarrow> nat \<Rightarrow> tracker_cfg" where
  "tracker_config enabled max_cost velocity_alpha confirm_after max_age stationary_after stationary_distance max_tracks =
     \<lparr>tc_enabled = enabled, tc_max_cost = max_cost, tc_alpha = min 1 (max 0 velocity_alpha), tc_confirm_after = confirm_after,
      tc_max_age = max_age, tc_stationary_after = stationary_after, tc_stationary_distance = stationary_distance,
      tc_max_tracks = max_tracks\<rparr>"

definition tracker_init :: "string \<Rightarrow> tracker" where
  \<comment> \<open>the nonce is the first six digits of a UUID\<close>
  "tracker_init nonce =
     \<lparr>tk_tracks = [], tk_epoch = [], tk_nonce = nonce, tk_counter = 0, tk_expired = [], tk_n_created = 0,
      tk_n_confirmed = 0, tk_n_expired = 0, tk_associations = 0, tk_failures = 0\<rparr>"

definition track_name :: "string \<Rightarrow> string \<Rightarrow> int \<Rightarrow> int \<Rightarrow> string" where
  "track_name camera nonce epoch n = camera @ '':'' @ nonce @ ''.'' @ show_int epoch @ '':'' @ show_int n"

definition new_id :: "string \<Rightarrow> tracker \<Rightarrow> string \<times> tracker" where
  "new_id camera s =
     (let n = tk_counter s + 1
      in (track_name camera (tk_nonce s) (case map_of (tk_epoch s) camera of Some e \<Rightarrow> e | None \<Rightarrow> 0) n,
          s\<lparr>tk_counter := n\<rparr>))"

definition born :: "string \<Rightarrow> string \<Rightarrow> track_state \<Rightarrow> epoch \<Rightarrow> rat \<times> rat \<times> rat \<times> rat \<Rightarrow> track" where
  "born tid domain st ts g =
     (case g of (cx, by', w, h) \<Rightarrow>
        \<lparr>t_id = tid, t_domain = domain, t_state = st, t_first_seen = ts, t_last_seen = ts, t_cx = cx, t_by = by',
         t_w = w, t_h = h, t_vx = 0, t_vy = 0, t_hits = 1, t_still_cx = cx, t_still_by = by', t_still_since = ts\<rparr>)"

subsection \<open>Association\<close>

definition candidate_pairs :: "tracker_cfg \<Rightarrow> epoch \<Rightarrow> track list \<Rightarrow> (rat \<times> rat \<times> rat \<times> rat) list \<Rightarrow> (rat \<times> nat \<times> nat) list" where
  \<comment> \<open>(cost, detection, track) below the threshold, tracks outermost\<close>
  "candidate_pairs cfg ts tracks geom =
     concat (map (\<lambda>(ti, t). concat (map (\<lambda>(di, g).
         let cost = association_cost (predict ts t) (t_w t, t_h t) g
         in if 0 \<le> tc_max_cost cfg \<and> cost \<le> tc_max_cost cfg * tc_max_cost cfg then [(cost, di, ti)] else [])
       (enumerate 0 geom))) (enumerate 0 tracks))"

fun greedy :: "(rat \<times> nat \<times> nat) list \<Rightarrow> (nat \<times> nat) list \<Rightarrow> (nat \<times> nat) list" where
  \<comment> \<open>one to one, cheapest first; the pairs already taken come with it\<close>
  "greedy [] matched = matched"
| "greedy ((cost, di, ti) # pairs) matched =
     (if di \<in> fst ` set matched \<or> ti \<in> snd ` set matched then greedy pairs matched
      else greedy pairs (matched @ [(di, ti)]))"

definition match :: "tracker_cfg \<Rightarrow> epoch \<Rightarrow> track list \<Rightarrow> (rat \<times> rat \<times> rat \<times> rat) list \<Rightarrow> (nat \<times> nat) list" where
  "match cfg ts tracks geom = greedy (sort_key fst (candidate_pairs cfg ts tracks geom)) []"

definition advance :: "tracker_cfg \<Rightarrow> rat \<times> rat \<times> rat \<times> rat \<Rightarrow> epoch \<Rightarrow> track \<Rightarrow> track \<times> bool" where
  \<comment> \<open>the flag says that the track was confirmed by this sight\<close>
  "advance cfg g ts t =
     (case g of (cx, by', w, h) \<Rightarrow>
        let dt = ts - t_last_seen t;
            t1 = (if dt > 0
                  then t\<lparr>t_vx := tc_alpha cfg * ((cx - t_cx t) / dt) + (1 - tc_alpha cfg) * t_vx t,
                         t_vy := tc_alpha cfg * ((by' - t_by t) / dt) + (1 - tc_alpha cfg) * t_vy t\<rparr>
                  else t);
            t2 = t1\<lparr>t_cx := cx, t_by := by', t_w := w, t_h := h, t_last_seen := ts, t_hits := t_hits t + 1\<rparr>;
            still = (\<lambda>t. t\<lparr>t_still_cx := cx, t_still_by := by', t_still_since := ts\<rparr>)
        in if \<not> is_confirmed t
           then if ts - t_first_seen t \<ge> tc_confirm_after cfg then (still (t2\<lparr>t_state := Confirmed\<rparr>), True) else (t2, False)
           else let scale = max (1 / 10 ^ 6) h
                in if hypot_ge (cx - t_still_cx t) (by' - t_still_by t) (tc_stationary_distance cfg * scale)
                   then (still (t2\<lparr>t_state := Active\<rparr>), False)
                   else if ts - t_still_since t \<ge> tc_stationary_after cfg then (t2\<lparr>t_state := Stationary\<rparr>, False)
                   else if t_state t = Confirmed then (t2\<lparr>t_state := Active\<rparr>, False)
                   else (t2, False))"

record tracked =
  td_detection :: detection
  td_track :: track
  td_is_new :: bool

subsection \<open>One frame\<close>

definition place :: "tracker_cfg \<Rightarrow> string \<Rightarrow> string \<Rightarrow> epoch \<Rightarrow> (nat \<times> nat) list \<Rightarrow> nat \<times> detection
    \<Rightarrow> tracker \<times> track list \<Rightarrow> tracked \<times> tracker \<times> track list" where
  \<comment> \<open>one detection of the frame: continue its track, or begin a new one\<close>
  "place cfg camera domain ts matched x s =
     (case (x, s) of ((di, det), (st, tracks)) \<Rightarrow>
        let g = geometry (d_xyxy det)
        in case map_of matched di of
             None \<Rightarrow>
               let b = (if tc_confirm_after cfg \<le> 0 then Confirmed else Tentative);
                   (tid, st1) = new_id camera st; t = born tid domain b ts g
               in (\<lparr>td_detection = det, td_track = t, td_is_new = True\<rparr>,
                   st1\<lparr>tk_n_confirmed := tk_n_confirmed st1 + (if b = Confirmed then 1 else 0), tk_n_created := tk_n_created st1 + 1\<rparr>,
                   tracks @ [t])
           | Some ti \<Rightarrow>
               let (t, c) = advance cfg g ts (tracks ! ti)
               in (\<lparr>td_detection = det, td_track = t, td_is_new = False\<rparr>,
                   st\<lparr>tk_n_confirmed := tk_n_confirmed st + (if c then 1 else 0)\<rparr>, tracks[ti := t]))"

fun place_all :: "tracker_cfg \<Rightarrow> string \<Rightarrow> string \<Rightarrow> epoch \<Rightarrow> (nat \<times> nat) list \<Rightarrow> (nat \<times> detection) list
    \<Rightarrow> tracker \<times> track list \<Rightarrow> tracked list \<times> tracker \<times> track list" where
  "place_all cfg camera domain ts matched [] s = ([], s)"
| "place_all cfg camera domain ts matched (x # xs) s =
     (let (td, s1) = place cfg camera domain ts matched x s; (tds, s2) = place_all cfg camera domain ts matched xs s1
      in (td # tds, s2))"

definition bound_tracks :: "tracker_cfg \<Rightarrow> track list \<Rightarrow> string list \<times> track list" where
  \<comment> \<open>the ids forgotten and the tracks kept; \<open>xs[:-0]\<close> is empty and \<open>xs[-0:]\<close> everything\<close>
  "bound_tracks cfg tracks =
     (let n = tc_max_tracks cfg
      in if length tracks > n
         then let byage = sort_key t_last_seen tracks; k = (if n = 0 then 0 else length byage - n)
              in (map t_id (take k byage), drop k byage)
         else ([], tracks))"

definition key_tracks :: "track_key \<Rightarrow> tracker \<Rightarrow> track list" where
  "key_tracks key s = (case map_of (tk_tracks s) key of Some ts \<Rightarrow> ts | None \<Rightarrow> [])"

definition update_domain :: "tracker_cfg \<Rightarrow> string \<Rightarrow> string \<Rightarrow> detection list \<Rightarrow> epoch \<Rightarrow> tracker \<Rightarrow> tracked list \<times> tracker" where
  "update_domain cfg camera domain dets ts s =
     (let tracks = key_tracks (camera, domain) s;
          matched = match cfg ts tracks (map (geometry \<circ> d_xyxy) dets);
          s1 = s\<lparr>tk_associations := tk_associations s + int (length matched),
                 tk_failures := tk_failures s + (int (length dets) - int (length matched))\<rparr>;
          (out, s2, tracks2) = place_all cfg camera domain ts matched (enumerate 0 dets) (s1, tracks);
          (dead, tracks3) = bound_tracks cfg tracks2
      in (out, s2\<lparr>tk_tracks := AList.update (camera, domain) tracks3 (tk_tracks s2), tk_expired := tk_expired s2 @ dead,
                  tk_n_expired := tk_n_expired s2 + int (length dead)\<rparr>))"

definition group_by_domain :: "detection list \<Rightarrow> (string, detection list) dict" where
  "group_by_domain ds = fold (\<lambda>d m. AList.update (d_domain d) ((case map_of m (d_domain d) of Some xs \<Rightarrow> xs | None \<Rightarrow> []) @ [d]) m) ds []"

fun update_domains :: "tracker_cfg \<Rightarrow> string \<Rightarrow> (string, detection list) dict \<Rightarrow> epoch \<Rightarrow> tracker \<Rightarrow> tracked list \<times> tracker" where
  "update_domains cfg camera [] ts s = ([], s)"
| "update_domains cfg camera ((domain, dets) # groups) ts s =
     (let (out, s1) = update_domain cfg camera domain dets ts s; (outs, s2) = update_domains cfg camera groups ts s1
      in (out @ outs, s2))"

definition age_tracks :: "tracker_cfg \<Rightarrow> epoch \<Rightarrow> track list \<Rightarrow> string list \<times> track list" where
  "age_tracks cfg ts tracks =
     (let old = (\<lambda>t. ts - t_last_seen t > tc_max_age cfg)
      in (map t_id (filter old tracks),
          map (\<lambda>t. if ts - t_last_seen t > 0 \<and> is_confirmed t then t\<lparr>t_state := Lost\<rparr> else t) (filter (\<lambda>t. \<not> old t) tracks)))"

definition age_out_tracks :: "tracker_cfg \<Rightarrow> string \<Rightarrow> epoch \<Rightarrow> tracker \<Rightarrow> tracker" where
  "age_out_tracks cfg camera ts s =
     (let dead = concat (map (\<lambda>(k, tr). if fst k = camera then fst (age_tracks cfg ts tr) else []) (tk_tracks s))
      in s\<lparr>tk_tracks := map (\<lambda>(k, tr). (k, if fst k = camera then snd (age_tracks cfg ts tr) else tr)) (tk_tracks s),
           tk_expired := tk_expired s @ dead, tk_n_expired := tk_n_expired s + int (length dead)\<rparr>)"

fun untracked_all :: "string \<Rightarrow> detection list \<Rightarrow> epoch \<Rightarrow> tracker \<Rightarrow> tracked list \<times> tracker" where
  \<comment> \<open>identity off: every detection is its own track\<close>
  "untracked_all camera [] ts s = ([], s)"
| "untracked_all camera (d # ds) ts s =
     (let (tid, s1) = new_id camera s; (out, s2) = untracked_all camera ds ts s1
      in (\<lparr>td_detection = d, td_track = born tid (d_domain d) Active ts (geometry (d_xyxy d)), td_is_new = True\<rparr> # out, s2))"

definition tracker_update :: "tracker_cfg \<Rightarrow> string \<Rightarrow> detection list \<Rightarrow> epoch \<Rightarrow> tracker \<Rightarrow> tracked list \<times> tracker" where
  "tracker_update cfg camera dets ts s =
     (if dets = [] then ([], age_out_tracks cfg camera ts s)
      else if \<not> tc_enabled cfg then untracked_all camera dets ts s
      else let (out, s1) = update_domains cfg camera (group_by_domain dets) ts s in (out, age_out_tracks cfg camera ts s1))"

definition tracker_reset :: "string \<Rightarrow> tracker \<Rightarrow> tracker" where
  "tracker_reset camera s =
     (let dead = map t_id (concat (map snd (filter (\<lambda>x. fst (fst x) = camera) (tk_tracks s))))
      in s\<lparr>tk_epoch := AList.update camera ((case map_of (tk_epoch s) camera of Some e \<Rightarrow> e | None \<Rightarrow> 0) + 1) (tk_epoch s),
           tk_tracks := filter (\<lambda>x. fst (fst x) \<noteq> camera) (tk_tracks s), tk_expired := tk_expired s @ dead,
           tk_n_expired := tk_n_expired s + int (length dead)\<rparr>)"

definition tracker_forget :: "string \<Rightarrow> tracker \<Rightarrow> tracker" where
  "tracker_forget camera s = (let s1 = tracker_reset camera s in s1\<lparr>tk_epoch := AList.delete camera (tk_epoch s1)\<rparr>)"

definition drain_expired :: "tracker \<Rightarrow> string list \<times> tracker" where
  "drain_expired s = (tk_expired s, s\<lparr>tk_expired := []\<rparr>)"

definition live_tracks :: "tracker \<Rightarrow> int" where
  "live_tracks s = sum_list (map (int \<circ> length \<circ> snd) (tk_tracks s))"

subsection \<open>The matching\<close>

lemma greedy_mono: "set matched \<subseteq> set (greedy pairs matched)"
  by (induction pairs matched rule: greedy.induct) auto

lemma greedy_sub: "set (greedy pairs matched) \<subseteq> set matched \<union> snd ` set pairs"
proof (induction pairs matched rule: greedy.induct)
  case (2 cost di ti pairs matched)
  then show ?case by (cases "di \<in> fst ` set matched \<or> ti \<in> snd ` set matched") auto
qed simp

lemma greedy_injective:
  "distinct (map fst matched) \<Longrightarrow> distinct (map snd matched) \<Longrightarrow>
    distinct (map fst (greedy pairs matched)) \<and> distinct (map snd (greedy pairs matched))"
  by (induction pairs matched rule: greedy.induct) auto

lemma greedy_stable:
  assumes "sorted_wrt (\<lambda>x y. fst x \<le> fst y) pairs"
    and "\<forall>x \<in> set matched. \<forall>p \<in> set pairs. f x \<le> fst p" and "\<forall>p \<in> set pairs. f (snd p) = fst p"
    and "(c, di, ti) \<in> set pairs"
  shows "\<exists>x \<in> set (greedy pairs matched). (fst x = di \<or> snd x = ti) \<and> f x \<le> c"
  using assms
proof (induction pairs matched rule: greedy.induct)
  case (2 cost d t pairs matched)
  show ?case
  proof (cases "d \<in> fst ` set matched \<or> t \<in> snd ` set matched")
    case True
    show ?thesis
    proof (cases "(c, di, ti) = (cost, d, t)")
      case eq: True
      from True obtain x where "x \<in> set matched" "fst x = d \<or> snd x = t" by auto
      with eq 2(4) True show ?thesis using greedy_mono [of matched pairs] by fastforce
    next
      case False
      then show ?thesis using 2(1) [OF True] 2(3-6) True by auto
    qed
  next
    case False
    show ?thesis
    proof (cases "(c, di, ti) = (cost, d, t)")
      case True
      have "(d, t) \<in> set (greedy pairs (matched @ [(d, t)]))" using greedy_mono [of "matched @ [(d, t)]" pairs] by auto
      with True False 2(5) show ?thesis by (auto intro!: bexI [of _ "(d, t)"])
    next
      case neq: False
      have "\<forall>x \<in> set (matched @ [(d, t)]). \<forall>p \<in> set pairs. f x \<le> fst p"
        using 2(3-5) by auto
      with 2(2) [OF False] 2(3,5,6) neq False show ?thesis by auto
    qed
  qed
qed simp

lemma set_concat_enumerate: "x \<in> set (concat (map f (enumerate 0 xs))) \<longleftrightarrow> (\<exists>i < length xs. x \<in> set (f (i, xs ! i)))"
  by (auto simp: in_set_enumerate_eq)

lemma set_candidate_pairs:
  "(c, di, ti) \<in> set (candidate_pairs cfg ts tracks geom) \<longleftrightarrow>
     di < length geom \<and> ti < length tracks \<and> 0 \<le> tc_max_cost cfg \<and>
     c = association_cost (predict ts (tracks ! ti)) (t_w (tracks ! ti), t_h (tracks ! ti)) (geom ! di) \<and>
     c \<le> tc_max_cost cfg * tc_max_cost cfg"
  unfolding candidate_pairs_def Let_def set_concat_enumerate prod.case by auto

definition pair_cost :: "epoch \<Rightarrow> track list \<Rightarrow> (rat \<times> rat \<times> rat \<times> rat) list \<Rightarrow> nat \<times> nat \<Rightarrow> rat" where
  "pair_cost ts tracks geom p =
     association_cost (predict ts (tracks ! snd p)) (t_w (tracks ! snd p), t_h (tracks ! snd p)) (geom ! fst p)"

lemma match_injective: "distinct (map fst (match cfg ts tracks geom)) \<and> distinct (map snd (match cfg ts tracks geom))"
  unfolding match_def by (rule greedy_injective) simp_all

lemma match_range:
  assumes "p \<in> set (match cfg ts tracks geom)"
  shows "fst p < length geom \<and> snd p < length tracks \<and> pair_cost ts tracks geom p \<le> tc_max_cost cfg * tc_max_cost cfg"
proof -
  obtain c where "(c, p) \<in> set (candidate_pairs cfg ts tracks geom)"
    using assms greedy_sub [of "sort_key fst (candidate_pairs cfg ts tracks geom)" "[]"] unfolding match_def by force
  then show ?thesis by (cases p) (simp add: set_candidate_pairs pair_cost_def)
qed

text \<open>
  Association is a stable matching. A frame's detections and a camera's tracks are paired one to one, within the
  cost limit, and whenever a detection and a track within the limit are not paired with one another, one of the two is
  paired at no greater cost. So no track absorbs two detections of one frame.
\<close>

theorem association_stable:
  shows "distinct (map fst (match cfg ts tracks geom)) \<and> distinct (map snd (match cfg ts tracks geom)) \<and>
    (\<forall>p \<in> set (match cfg ts tracks geom). fst p < length geom \<and> snd p < length tracks \<and>
       pair_cost ts tracks geom p \<le> tc_max_cost cfg * tc_max_cost cfg) \<and>
    (\<forall>di < length geom. \<forall>ti < length tracks. 0 \<le> tc_max_cost cfg \<and>
       pair_cost ts tracks geom (di, ti) \<le> tc_max_cost cfg * tc_max_cost cfg \<longrightarrow>
       (\<exists>p \<in> set (match cfg ts tracks geom). (fst p = di \<or> snd p = ti) \<and>
          pair_cost ts tracks geom p \<le> pair_cost ts tracks geom (di, ti)))"
proof -
  let ?ps = "sort_key fst (candidate_pairs cfg ts tracks geom)"
  have srt: "sorted_wrt (\<lambda>x y. fst x \<le> fst y) ?ps"
    using sorted_sort_key [of fst "candidate_pairs cfg ts tracks geom"] by (simp add: sorted_map)
  have cost: "\<forall>p \<in> set ?ps. pair_cost ts tracks geom (snd p) = fst p"
    by (auto simp: set_candidate_pairs pair_cost_def)
  have "\<exists>p \<in> set (match cfg ts tracks geom). (fst p = di \<or> snd p = ti) \<and>
      pair_cost ts tracks geom p \<le> pair_cost ts tracks geom (di, ti)"
    if "di < length geom" "ti < length tracks" "0 \<le> tc_max_cost cfg"
      "pair_cost ts tracks geom (di, ti) \<le> tc_max_cost cfg * tc_max_cost cfg" for di ti
  proof -
    have "(pair_cost ts tracks geom (di, ti), di, ti) \<in> set ?ps"
      using that by (simp add: set_candidate_pairs pair_cost_def)
    from greedy_stable [OF srt _ cost this, of "[]"] show ?thesis by (simp add: match_def)
  qed
  then show ?thesis using match_injective match_range by blast
qed

definition demo_tracker_cfg :: tracker_cfg where
  "demo_tracker_cfg = tracker_config True (7 / 4) (1 / 2) 1 3 4 (15 / 100) 64"

theorem association_stable_witness:
  "match demo_tracker_cfg 1 [born ''a'' ''person'' Active 0 (100, 200, 50, 100)] [(110, 200, 50, 100), (120, 200, 50, 100)] = [(0, 0)] \<and>
   snd (hd (match demo_tracker_cfg 1 [born ''a'' ''person'' Active 0 (100, 200, 50, 100)] [(110, 200, 50, 100), (120, 200, 50, 100)])) < 1"
proof -
  let ?m = "match demo_tracker_cfg 1 [born ''a'' ''person'' Active 0 (100, 200, 50, 100)] [(110, 200, 50, 100), (120, 200, 50, 100)]"
  have m: "?m = [(0, 0)]" by code_simp
  have "\<forall>p \<in> set ?m. snd p < 1"
    using association_stable [of demo_tracker_cfg 1 "[born ''a'' ''person'' Active 0 (100, 200, 50, 100)]" "[(110, 200, 50, 100), (120, 200, 50, 100)]"]
    by simp
  with m show ?thesis by (metis list.sel(1) list.set_intros(1))
qed

subsection \<open>Identities\<close>

lemma track_name_inj:
  assumes "track_name c v e n = track_name c' v' e' n'"
  shows "n = n'"
proof -
  have split: "ys = ys'" if "xs @ CHR '':'' # ys = xs' @ CHR '':'' # ys'" "CHR '':'' \<notin> set ys" "CHR '':'' \<notin> set ys'"
    for xs ys xs' ys' :: string
    using that by (auto simp: append_eq_append_conv2 Cons_eq_append_conv append_eq_Cons_conv)
  have colon: "CHR '':'' \<notin> set (show_int k)" for k by (rule show_int_no) (simp_all add: digit_value_def)
  have "show_int n = show_int n'"
    by (rule split [of "c @ '':'' @ v @ ''.'' @ show_int e" _ "c' @ '':'' @ v' @ ''.'' @ show_int e'"])
      (use assms colon in \<open>simp_all add: track_name_def\<close>)
  then show ?thesis by (simp add: show_int_inj)
qed

definition epoch_of :: "tracker \<Rightarrow> string \<Rightarrow> int" where
  "epoch_of s camera = (case map_of (tk_epoch s) camera of Some e \<Rightarrow> e | None \<Rightarrow> 0)"

definition issued :: "string \<Rightarrow> tracker \<Rightarrow> tracker \<Rightarrow> string list" where
  \<comment> \<open>the ids given out for a camera between two states\<close>
  "issued camera s s' = map (track_name camera (tk_nonce s) (epoch_of s camera)) [tk_counter s + 1..tk_counter s']"

definition same_tables :: "tracker \<Rightarrow> tracker \<Rightarrow> bool" where
  "same_tables s s' \<longleftrightarrow> tk_tracks s' = tk_tracks s \<and> tk_epoch s' = tk_epoch s \<and> tk_nonce s' = tk_nonce s \<and>
     tk_expired s' = tk_expired s \<and> tk_counter s \<le> tk_counter s'"

lemma issued_append:
  assumes "same_tables s s'" and "same_tables s' s''"
  shows "issued camera s s'' = issued camera s s' @ issued camera s' s''"
proof -
  have "[tk_counter s + 1..tk_counter s''] = [tk_counter s + 1..tk_counter s'] @ [tk_counter s' + 1..tk_counter s'']"
    using assms upto_split2 [of "tk_counter s + 1" "tk_counter s'" "tk_counter s''"]
    by (cases "tk_counter s + 1 \<le> tk_counter s'") (auto simp: same_tables_def dest: order.antisym)
  then show ?thesis using assms by (simp add: issued_def same_tables_def epoch_of_def)
qed

lemma same_tables_trans: "same_tables s s' \<Longrightarrow> same_tables s' s'' \<Longrightarrow> same_tables s s''"
  by (auto simp: same_tables_def)

lemma same_tables_refl [simp]: "same_tables s s"
  by (simp add: same_tables_def)

lemma new_id_issued:
  assumes "new_id camera s = (tid, s')"
  shows "same_tables s s' \<and> issued camera s s' = [tid] \<and> s' = s\<lparr>tk_counter := tk_counter s + 1\<rparr>"
  using assms by (auto simp: new_id_def same_tables_def issued_def epoch_of_def Let_def)

lemma advance_keeps [simp]:
  "t_id (fst (advance cfg g ts t)) = t_id t" "t_domain (fst (advance cfg g ts t)) = t_domain t"
  "t_last_seen (fst (advance cfg g ts t)) = ts"
  by (simp_all add: advance_def Let_def split: prod.split)

lemma born_simps [simp]: "t_id (born tid d st ts g) = tid" "t_domain (born tid d st ts g) = d" "t_last_seen (born tid d st ts g) = ts"
  by (simp_all add: born_def split: prod.split)

lemma place_cases:
  assumes "place cfg camera domain ts matched (di, det) (st, tracks) = (td, st', tracks')"
  obtains (new_track) tid where "map_of matched di = None" "same_tables st st'" "issued camera st st' = [tid]" "td_detection td = det"
      "t_id (td_track td) = tid" "t_domain (td_track td) = domain" "t_last_seen (td_track td) = ts" "tracks' = tracks @ [td_track td]"
  | (known) ti where "map_of matched di = Some ti" "same_tables st st'" "issued camera st st' = []" "td_detection td = det"
      "td_track td = fst (advance cfg (geometry (d_xyxy det)) ts (tracks ! ti))" "tracks' = tracks[ti := td_track td]"
proof (cases "map_of matched di")
  case None
  obtain tid st1 where n: "new_id camera st = (tid, st1)" by (cases "new_id camera st")
  note i = new_id_issued [OF n]
  show thesis
    using assms None n i by (intro new_track [of tid]) (auto simp: place_def Let_def same_tables_def issued_def epoch_of_def)
next
  case (Some ti)
  obtain t c where a: "advance cfg (geometry (d_xyxy det)) ts (tracks ! ti) = (t, c)" by fastforce
  show thesis
    using assms Some a by (intro known [of ti]) (auto simp: place_def Let_def same_tables_def issued_def)
qed

lemma map_of_bound: "\<forall>p \<in> set m. snd p < n \<Longrightarrow> map_of m a = Some y \<Longrightarrow> y < n"
  by (force dest: map_of_SomeD)

lemma place_all_spec:
  assumes "place_all cfg camera domain ts matched xs (st, tracks) = (out, st', tracks')"
    and "\<forall>p \<in> set matched. snd p < length tracks"
  shows "same_tables st st' \<and> map t_id tracks' = map t_id tracks @ issued camera st st' \<and>
    map td_detection out = map snd xs \<and>
    mset (map (t_id \<circ> td_track) out) =
      mset (map (\<lambda>ti. map t_id tracks ! ti) (List.map_filter (\<lambda>x. map_of matched (fst x)) xs)) + mset (issued camera st st')"
  using assms
proof (induction xs arbitrary: st tracks out)
  case Nil
  then show ?case by (simp add: issued_def map_filter_simps)
next
  case (Cons x xs)
  obtain di det where x: "x = (di, det)" by (cases x)
  obtain td st1 tracks1 where p: "place cfg camera domain ts matched (di, det) (st, tracks) = (td, st1, tracks1)"
    by (metis prod_cases3)
  obtain tds where tds: "place_all cfg camera domain ts matched xs (st1, tracks1) = (tds, st', tracks')" and out: "out = td # tds"
    using Cons.prems(1) p x by (auto split: prod.splits)
  let ?tis = "List.map_filter (\<lambda>x. map_of matched (fst x)) xs"
  have tis: "\<forall>ti \<in> set ?tis. ti < length tracks"
    using Cons.prems(2) by (auto simp: map_filter_def intro: map_of_bound)
  from p show ?case
  proof (cases rule: place_cases)
    case (new_track tid)
    have "\<forall>p \<in> set matched. snd p < length tracks1" using Cons.prems(2) new_track by (auto simp: less_SucI)
    note ih = Cons.IH [OF tds this]
    have "image_mset ((!) (map t_id tracks1)) (mset ?tis) = image_mset ((!) (map t_id tracks)) (mset ?tis)"
      using tis new_track by (intro image_mset_cong) (auto simp: nth_append)
    then show ?thesis
      using ih new_track out x same_tables_trans [OF new_track(2), of st'] issued_append [OF new_track(2), of st' camera]
      by (simp add: map_filter_simps)
  next
    case (known ti)
    have ti: "ti < length tracks" using map_of_bound [OF Cons.prems(2)] known(1) by blast
    have "\<forall>p \<in> set matched. snd p < length tracks1" using Cons.prems(2) known by auto
    note ih = Cons.IH [OF tds this]
    have ids: "map t_id tracks1 = map t_id tracks"
      using known ti by (metis advance_keeps(1) list_update_id map_update nth_map)
    show ?thesis
      using ih ids known out x ti same_tables_trans [OF known(2), of st'] issued_append [OF known(2), of st' camera]
      by (simp add: map_filter_simps)
  qed
qed

lemma nth_ids_sub:
  assumes "distinct tis" and "\<forall>ti \<in> set tis. ti < length ids"
  shows "mset (map (\<lambda>ti. ids ! ti) tis) \<subseteq># mset ids"
proof -
  have "mset tis = mset_set (set tis)" using assms(1) by (simp add: mset_set_set)
  also have "\<dots> \<subseteq># mset_set {0..<length ids}" using assms(2) by (intro subset_imp_msubset_mset_set) auto
  finally have "image_mset (\<lambda>ti. ids ! ti) (mset tis) \<subseteq># image_mset (\<lambda>ti. ids ! ti) (mset [0..<length ids])"
    by (intro image_mset_subseteq_mono) simp
  also have "image_mset (\<lambda>ti. ids ! ti) (mset [0..<length ids]) = mset ids"
    by (metis map_nth mset_map)
  finally show ?thesis by simp
qed

lemma map_filter_fst: "List.map_filter (\<lambda>x. g (fst x)) xs = List.map_filter g (map fst xs)"
  by (induction xs) (simp_all add: map_filter_simps split: option.split)

lemma matched_indices_distinct:
  assumes "distinct (map fst m)" and "distinct (map snd m)" and "distinct dis"
  shows "distinct (List.map_filter (map_of m) dis)"
  using assms(3)
proof (induction dis)
  case (Cons d dis)
  have "ti \<notin> set (List.map_filter (map_of m) dis)" if "map_of m d = Some ti" for ti
  proof
    assume "ti \<in> set (List.map_filter (map_of m) dis)"
    then obtain d' where "d' \<in> set dis" "map_of m d' = Some ti" by (auto simp: map_filter_def)
    moreover from this that have "(d', ti) \<in> set m" "(d, ti) \<in> set m" by (auto dest: map_of_SomeD)
    with assms(2) have "d = d'" by (metis distinct_map inj_onD prod.inject snd_conv)
    ultimately show False using Cons.prems by auto
  qed
  with Cons show ?case by (auto simp: map_filter_simps split: option.split)
qed (simp add: map_filter_simps)

definition table_ids :: "(track_key, track list) dict \<Rightarrow> string multiset" where
  "table_ids d = (\<Sum>x \<in># mset d. mset (map t_id (snd x)))"

definition all_ids :: "tracker \<Rightarrow> string multiset" where
  \<comment> \<open>the ids of the live tracks and of the retired ones that are still to be reported\<close>
  "all_ids s = mset (tk_expired s) + table_ids (tk_tracks s)"

lemma table_ids_simps [simp]:
  "table_ids [] = {#}" "table_ids (x # d) = mset (map t_id (snd x)) + table_ids d"
  by (simp_all add: table_ids_def)

lemma table_ids_update:
  "distinct (map fst d) \<Longrightarrow> table_ids (AList.update k v d) + mset (map t_id (case map_of d k of Some w \<Rightarrow> w | None \<Rightarrow> [])) =
    table_ids d + mset (map t_id v)"
  by (induction d) (auto split: option.splits simp: map_of_eq_None_iff add_ac)

lemma bound_tracks_ids:
  "bound_tracks cfg tracks = (dead, kept) \<Longrightarrow> mset dead + mset (map t_id kept) = mset (map t_id tracks)"
proof -
  have "mset (map t_id (take k (sort_key t_last_seen tracks))) + mset (map t_id (drop k (sort_key t_last_seen tracks))) = mset (map t_id tracks)" for k
    by (metis append_take_drop_id map_append mset_append mset_map mset_sort)
  then show "bound_tracks cfg tracks = (dead, kept) \<Longrightarrow> mset dead + mset (map t_id kept) = mset (map t_id tracks)"
    by (auto simp: bound_tracks_def Let_def split: if_splits)
qed

definition frame_ids :: "tracked list \<Rightarrow> string multiset" where
  "frame_ids out = mset (map (t_id \<circ> td_track) out)"

lemma update_domain_spec:
  assumes "update_domain cfg camera domain dets ts s = (out, s')" and "distinct (map fst (tk_tracks s))"
  shows "all_ids s' = all_ids s + mset (issued camera s s')"
    and "tk_counter s \<le> tk_counter s'" and "tk_nonce s' = tk_nonce s" and "tk_epoch s' = tk_epoch s"
    and "map td_detection out = dets"
    and "frame_ids out \<subseteq># mset (map t_id (key_tracks (camera, domain) s)) + mset (issued camera s s')"
    and "\<exists>tracks. tk_tracks s' = AList.update (camera, domain) tracks (tk_tracks s)"
proof -
  let ?tracks = "key_tracks (camera, domain) s" and ?geom = "map (geometry \<circ> d_xyxy) dets"
  let ?m = "match cfg ts ?tracks ?geom"
  let ?s1 = "s\<lparr>tk_associations := tk_associations s + int (length ?m), tk_failures := tk_failures s + (int (length dets) - int (length ?m))\<rparr>"
  obtain s2 tracks2 where p: "place_all cfg camera domain ts ?m (enumerate 0 dets) (?s1, ?tracks) = (out, s2, tracks2)"
    and s': "\<exists>dead tracks3. bound_tracks cfg tracks2 = (dead, tracks3) \<and>
      s' = s2\<lparr>tk_tracks := AList.update (camera, domain) tracks3 (tk_tracks s2), tk_expired := tk_expired s2 @ dead,
        tk_n_expired := tk_n_expired s2 + int (length dead)\<rparr>"
    using assms(1) by (auto simp: update_domain_def Let_def split: prod.splits)
  obtain dead tracks3 where b: "bound_tracks cfg tracks2 = (dead, tracks3)"
    and s'_eq: "s' = s2\<lparr>tk_tracks := AList.update (camera, domain) tracks3 (tk_tracks s2), tk_expired := tk_expired s2 @ dead,
        tk_n_expired := tk_n_expired s2 + int (length dead)\<rparr>" using s' by blast
  have bound: "\<forall>p \<in> set ?m. snd p < length ?tracks" using match_range by blast
  note sp = place_all_spec [OF p bound]
  have same: "tk_tracks s2 = tk_tracks s" "tk_expired s2 = tk_expired s" "tk_nonce s2 = tk_nonce s" "tk_epoch s2 = tk_epoch s"
    "tk_counter s \<le> tk_counter s2" using sp by (auto simp: same_tables_def)
  have iss: "issued camera ?s1 s2 = issued camera s s'" by (simp add: issued_def epoch_of_def s'_eq)
  have "table_ids (tk_tracks s') + mset (map t_id ?tracks) = table_ids (tk_tracks s) + mset (map t_id tracks3)"
    using table_ids_update [OF assms(2), of "(camera, domain)" tracks3] by (simp add: s'_eq same key_tracks_def)
  note e1 = this
  have e2: "mset dead + mset (map t_id tracks3) = mset (map t_id ?tracks) + mset (issued camera s s')"
    using bound_tracks_ids [OF b] sp iss by simp
  show "all_ids s' = all_ids s + mset (issued camera s s')"
  proof (rule multiset_eqI)
    fix x
    show "count (all_ids s') x = count (all_ids s + mset (issued camera s s')) x"
      using arg_cong [OF e1, of "\<lambda>M. count M x"] arg_cong [OF e2, of "\<lambda>M. count M x"]
      by (simp add: all_ids_def s'_eq same)
  qed
  show "tk_counter s \<le> tk_counter s'" "tk_nonce s' = tk_nonce s" "tk_epoch s' = tk_epoch s" by (simp_all add: s'_eq same)
  show "map td_detection out = dets" using sp by simp
  let ?tis = "List.map_filter (\<lambda>x. map_of ?m (fst x)) (enumerate 0 dets)"
  have "?tis = List.map_filter (map_of ?m) (map fst (enumerate 0 dets))"
    using map_filter_fst [of "map_of ?m" "enumerate 0 dets"] by simp
  moreover have "distinct (List.map_filter (map_of ?m) (map fst (enumerate 0 dets)))"
    using match_injective [of cfg ts ?tracks ?geom] by (intro matched_indices_distinct) simp_all
  ultimately have tis: "distinct ?tis" by simp
  have "\<forall>ti \<in> set ?tis. ti < length ?tracks"
    using map_of_bound [OF bound] by (auto simp: map_filter_def)
  with nth_ids_sub [OF tis, of "map t_id ?tracks"] sp iss
  show "frame_ids out \<subseteq># mset (map t_id ?tracks) + mset (issued camera s s')" by (simp add: frame_ids_def)
  show "\<exists>tracks. tk_tracks s' = AList.update (camera, domain) tracks (tk_tracks s)" by (auto simp: s'_eq same)
qed

definition same_names :: "tracker \<Rightarrow> tracker \<Rightarrow> bool" where
  "same_names s s' \<longleftrightarrow> tk_nonce s' = tk_nonce s \<and> tk_epoch s' = tk_epoch s \<and> tk_counter s \<le> tk_counter s'"

lemma issued_chain:
  assumes "same_names s s'" and "same_names s' s''"
  shows "issued camera s s'' = issued camera s s' @ issued camera s' s''"
proof -
  have "[tk_counter s + 1..tk_counter s''] = [tk_counter s + 1..tk_counter s'] @ [tk_counter s' + 1..tk_counter s'']"
    using assms upto_split2 [of "tk_counter s + 1" "tk_counter s'" "tk_counter s''"]
    by (cases "tk_counter s + 1 \<le> tk_counter s'") (auto simp: same_names_def dest: order.antisym)
  then show ?thesis using assms by (simp add: issued_def same_names_def epoch_of_def)
qed

definition group_ids :: "string \<Rightarrow> string list \<Rightarrow> tracker \<Rightarrow> string multiset" where
  "group_ids camera domains s = sum_list (map (\<lambda>d. mset (map t_id (key_tracks (camera, d) s))) domains)"

lemma group_ids_Cons [simp]: "group_ids camera (d # ds) s = mset (map t_id (key_tracks (camera, d) s)) + group_ids camera ds s"
  by (simp add: group_ids_def)

lemma sum_list_except:
  fixes f :: "'k \<Rightarrow> 'a multiset"
  assumes "distinct ks" and "f k0 = {#}"
  shows "sum_list (map (\<lambda>k. if k = k0 then A else f k) ks) = (if k0 \<in> set ks then A else {#}) + sum_list (map f ks)"
  using assms(1)
proof (induction ks)
  case (Cons k ks)
  then show ?case using assms(2) by (auto simp: add_ac)
qed simp

lemma group_ids_sub:
  assumes "distinct domains" and "distinct (map fst (tk_tracks s))"
  shows "group_ids camera domains s \<subseteq># table_ids (tk_tracks s)"
proof -
  have "sum_list (map (\<lambda>k. mset (map t_id (case map_of d k of Some w \<Rightarrow> w | None \<Rightarrow> []))) ks) \<subseteq># table_ids d"
    if "distinct (map fst d)" "distinct ks" for d :: "(track_key, track list) dict" and ks
    using that(1)
  proof (induction d)
    case (Cons x d)
    obtain k0 v where x: "x = (k0, v)" by (cases x)
    let ?f = "\<lambda>k. mset (map t_id (case map_of d k of Some w \<Rightarrow> w | None \<Rightarrow> []))"
    have "map_of d k0 = None" using Cons.prems x by (simp add: map_of_eq_None_iff)
    then have "sum_list (map (\<lambda>k. if k = k0 then mset (map t_id v) else ?f k) ks) =
        (if k0 \<in> set ks then mset (map t_id v) else {#}) + sum_list (map ?f ks)"
      using that(2) by (intro sum_list_except) simp_all
    moreover have "(\<lambda>k. mset (map t_id (case map_of (x # d) k of Some w \<Rightarrow> w | None \<Rightarrow> []))) = (\<lambda>k. if k = k0 then mset (map t_id v) else ?f k)"
      by (auto simp: x)
    ultimately show ?case using Cons x by (auto intro!: mset_subset_eq_mono_add subset_mset.add_increasing)
  qed (simp add: sum_list_0)
  from this [OF assms(2), of "map (Pair camera) domains"] assms(1) show ?thesis
    by (simp add: group_ids_def key_tracks_def comp_def distinct_map inj_on_def)
qed

lemma key_tracks_update [simp]:
  "tk_tracks s' = AList.update k v (tk_tracks s) \<Longrightarrow> key_tracks k' s' = (if k' = k then v else key_tracks k' s)"
  by (simp add: key_tracks_def update_conv')

lemma update_domains_spec:
  assumes "update_domains cfg camera groups ts s = (out, s')" and "distinct (map fst groups)"
    and "distinct (map fst (tk_tracks s))"
  shows "all_ids s' = all_ids s + mset (issued camera s s') \<and> same_names s s' \<and> distinct (map fst (tk_tracks s')) \<and>
    map td_detection out = concat (map snd groups) \<and>
    frame_ids out \<subseteq># group_ids camera (map fst groups) s + mset (issued camera s s')"
  using assms
proof (induction groups arbitrary: s out)
  case Nil
  then show ?case by (simp add: issued_def same_names_def frame_ids_def group_ids_def)
next
  case (Cons x groups)
  obtain domain dets where x: "x = (domain, dets)" by (cases x)
  obtain o1 s1 where u: "update_domain cfg camera domain dets ts s = (o1, s1)" by fastforce
  obtain o2 where us: "update_domains cfg camera groups ts s1 = (o2, s')" and out: "out = o1 @ o2"
    using Cons.prems(1) u x by (auto split: prod.splits)
  note d = update_domain_spec [OF u Cons.prems(3)]
  obtain tracks where tr: "tk_tracks s1 = AList.update (camera, domain) tracks (tk_tracks s)" using d(7) ..
  have "distinct (map fst (tk_tracks s1))" using Cons.prems(3) by (simp add: tr distinct_update)
  note ih = Cons.IH [OF us _ this]
  have names: "same_names s s1" using d by (simp add: same_names_def)
  have "group_ids camera (map fst groups) s1 = group_ids camera (map fst groups) s"
    using Cons.prems(2) x unfolding group_ids_def by (auto simp: tr intro!: arg_cong [where f = sum_list])
  then have f2: "frame_ids o2 \<subseteq># group_ids camera (map fst groups) s + mset (issued camera s1 s')"
    using ih Cons.prems(2) by simp
  have chain: "issued camera s s' = issued camera s s1 @ issued camera s1 s'"
    using ih Cons.prems(2) names by (intro issued_chain) auto
  have "frame_ids out = frame_ids o1 + frame_ids o2" by (simp add: frame_ids_def out)
  also have "\<dots> \<subseteq># (mset (map t_id (key_tracks (camera, domain) s)) + mset (issued camera s s1)) +
      (group_ids camera (map fst groups) s + mset (issued camera s1 s'))"
    by (rule mset_subset_eq_mono_add [OF d(6) f2])
  finally have "frame_ids out \<subseteq># group_ids camera (map fst (x # groups)) s + mset (issued camera s s')"
    by (simp add: x chain add_ac)
  moreover have "same_names s s'" using names ih Cons.prems(2) by (auto simp: same_names_def)
  ultimately show ?case using ih d Cons.prems(2) x out chain by simp
qed

lemma group_by_domain_spec:
  "distinct (map fst (group_by_domain ds)) \<and> mset (concat (map snd (group_by_domain ds))) = mset ds \<and>
    (\<forall>x \<in> set (group_by_domain ds). snd x \<noteq> [] \<and> (\<forall>d \<in> set (snd x). d_domain d = fst x))"
proof (induction ds rule: rev_induct)
  case (snoc d ds)
  define old where "old = (case map_of (group_by_domain ds) (d_domain d) of Some xs \<Rightarrow> xs | None \<Rightarrow> [])"
  have g: "group_by_domain (ds @ [d]) = AList.update (d_domain d) (old @ [d]) (group_by_domain ds)"
    by (simp add: group_by_domain_def old_def)
  have m: "mset (concat (map snd (AList.update k (v @ [y]) m))) = add_mset y (mset (concat (map snd m)))"
    if "distinct (map fst m)" "v = (case map_of m k of Some xs \<Rightarrow> xs | None \<Rightarrow> [])" for k v y and m :: "(string, detection list) dict"
    using that by (induction m) (auto split: option.splits if_splits simp: map_of_eq_None_iff)
  have "\<forall>x \<in> set old. d_domain x = d_domain d"
    using snoc by (fastforce simp: old_def split: option.splits dest!: map_of_SomeD)
  then show ?case
    using snoc m [of "group_by_domain ds" old "d_domain d" d] unfolding g
    by (auto simp: distinct_update set_update_dict old_def [symmetric])
qed (simp add: group_by_domain_def)

lemma mset_map_filter_split: "mset (map f (filter P xs)) + mset (map f (filter (\<lambda>x. \<not> P x) xs)) = mset (map f xs)"
  by (induction xs) auto

lemma age_tracks_ids: "mset (fst (age_tracks cfg ts tr)) + mset (map t_id (snd (age_tracks cfg ts tr))) = mset (map t_id tr)"
proof -
  have "map t_id (map (\<lambda>t. if P t then t\<lparr>t_state := Lost\<rparr> else t) xs) = map t_id xs" for P and xs :: "track list"
    by simp
  then show ?thesis unfolding age_tracks_def Let_def fst_conv snd_conv by (simp only: mset_map_filter_split)
qed

lemma aged_table_ids:
  "mset (concat (map (\<lambda>(k, tr). if fst k = camera then fst (age_tracks cfg ts tr) else []) d)) +
    table_ids (map (\<lambda>(k, tr). (k, if fst k = camera then snd (age_tracks cfg ts tr) else tr)) d) = table_ids d"
proof (induction d)
  case (Cons x d)
  obtain k tr where x: "x = (k, tr)" by (cases x)
  show ?case
  proof (rule multiset_eqI)
    fix i
    show "count (mset (concat (map (\<lambda>(k, tr). if fst k = camera then fst (age_tracks cfg ts tr) else []) (x # d))) +
        table_ids (map (\<lambda>(k, tr). (k, if fst k = camera then snd (age_tracks cfg ts tr) else tr)) (x # d))) i = count (table_ids (x # d)) i"
      using arg_cong [OF Cons, of "\<lambda>M. count M i"] arg_cong [OF age_tracks_ids [of cfg ts tr], of "\<lambda>M. count M i"]
      by (auto simp: x)
  qed
qed simp

lemma age_out_ids [simp]: "all_ids (age_out_tracks cfg camera ts s) = all_ids s"
  using aged_table_ids [of camera cfg ts "tk_tracks s"] by (simp add: all_ids_def age_out_tracks_def Let_def add.assoc)

lemma age_out_frame [simp]:
  "tk_nonce (age_out_tracks cfg camera ts s) = tk_nonce s" "tk_epoch (age_out_tracks cfg camera ts s) = tk_epoch s"
  "tk_counter (age_out_tracks cfg camera ts s) = tk_counter s"
  "map fst (tk_tracks (age_out_tracks cfg camera ts s)) = map fst (tk_tracks s)"
  by (simp_all add: age_out_tracks_def Let_def comp_def split_def)

lemma untracked_spec:
  "untracked_all camera ds ts s = (out, s') \<Longrightarrow> same_tables s s' \<and> map td_detection out = ds \<and>
    map (t_id \<circ> td_track) out = issued camera s s'"
proof (induction ds arbitrary: s out)
  case Nil
  then show ?case by (simp add: issued_def)
next
  case (Cons d ds)
  obtain tid s1 where n: "new_id camera s = (tid, s1)" by (cases "new_id camera s")
  obtain o' where u: "untracked_all camera ds ts s1 = (o', s')"
    and out: "out = \<lparr>td_detection = d, td_track = born tid (d_domain d) Active ts (geometry (d_xyxy d)), td_is_new = True\<rparr> # o'"
    using Cons.prems n by (auto split: prod.splits)
  have i: "same_tables s s1" "issued camera s s1 = [tid]" using new_id_issued [OF n] by blast+
  have "issued camera s s' = tid # issued camera s1 s'" using issued_append [of s s1 s' camera] Cons.IH [OF u] i by simp
  moreover have "same_tables s s'" using same_tables_trans [of s s1 s'] Cons.IH [OF u] i by blast
  ultimately show ?case using Cons.IH [OF u] by (simp add: out)
qed

lemma update_spec:
  assumes "tracker_update cfg camera dets ts s = (out, s')" and "distinct (map fst (tk_tracks s))"
  shows "same_names s s' \<and> distinct (map fst (tk_tracks s')) \<and> mset (map td_detection out) = mset dets \<and>
    (\<exists>new. set new \<subseteq> set (issued camera s s') \<and> distinct new \<and> all_ids s' = all_ids s + mset new) \<and>
    frame_ids out \<subseteq># table_ids (tk_tracks s) + mset (issued camera s s')"
proof -
  consider (empty) "dets = []" | (off) "dets \<noteq> []" "\<not> tc_enabled cfg" | (on) "dets \<noteq> []" "tc_enabled cfg" by blast
  then show ?thesis
  proof cases
    case empty
    with assms show ?thesis
      by (auto simp: tracker_update_def same_names_def frame_ids_def intro!: exI [of _ "[]"])
  next
    case off
    with assms(1) have "untracked_all camera dets ts s = (out, s')" by (simp add: tracker_update_def)
    from untracked_spec [OF this] have u: "same_tables s s'" "map td_detection out = dets" "frame_ids out = mset (issued camera s s')"
      by (simp_all add: frame_ids_def)
    then show ?thesis using assms(2)
      by (auto simp: same_tables_def same_names_def all_ids_def intro!: exI [of _ "[]"])
  next
    case on
    with assms(1) obtain s1 where u: "update_domains cfg camera (group_by_domain dets) ts s = (out, s1)"
      and s': "s' = age_out_tracks cfg camera ts s1" by (auto simp: tracker_update_def split: prod.splits)
    note g = group_by_domain_spec [of dets]
    note d = update_domains_spec [OF u _ assms(2)]
    have "issued camera s s1 = issued camera s s'" by (simp add: issued_def s')
    moreover have "distinct (issued camera s s1)" by (auto simp: issued_def distinct_map inj_on_def dest: track_name_inj)
    moreover have "group_ids camera (map fst (group_by_domain dets)) s \<subseteq># table_ids (tk_tracks s)"
      using g assms(2) by (intro group_ids_sub) auto
    then have "group_ids camera (map fst (group_by_domain dets)) s + mset (issued camera s s1) \<subseteq># table_ids (tk_tracks s) + mset (issued camera s s1)"
      by simp
    then have "frame_ids out \<subseteq># table_ids (tk_tracks s) + mset (issued camera s s1)"
      using d g by (meson subset_mset.order_trans)
    ultimately show ?thesis using d g by (auto simp: s' same_names_def intro!: exI [of _ "issued camera s s1"])
  qed
qed

lemma reset_ids: "all_ids (tracker_reset camera s) = all_ids s"
proof -
  have "mset (map t_id (concat (map snd (filter (\<lambda>x. fst (fst x) = camera) d)))) + table_ids (filter (\<lambda>x. fst (fst x) \<noteq> camera) d) = table_ids d"
    for d :: "(track_key, track list) dict"
    by (induction d) (auto simp: add_ac)
  from this [of "tk_tracks s"] show ?thesis by (simp add: all_ids_def tracker_reset_def Let_def add.assoc)
qed

subsection \<open>Every object keeps its own name\<close>

inductive tracker_step :: "tracker_cfg \<Rightarrow> tracker \<times> string list \<Rightarrow> tracker \<times> string list \<Rightarrow> bool" for cfg where
  \<comment> \<open>the second component collects the ids reported as expired\<close>
  Frame: "tracker_update cfg camera dets ts s = (out, s') \<Longrightarrow> tracker_step cfg (s, r) (s', r)"
| Reset: "tracker_step cfg (s, r) (tracker_reset camera s, r)"
| Forgotten: "tracker_step cfg (s, r) (tracker_forget camera s, r)"
| Drained: "drain_expired s = (ids, s') \<Longrightarrow> tracker_step cfg (s, r) (s', r @ ids)"

inductive_cases tracker_stepE: "tracker_step cfg (s, r) (s', r')"

definition known_ids :: "tracker \<times> string list \<Rightarrow> string multiset" where
  "known_ids x = mset (snd x) + all_ids (fst x)"

definition identity_ok :: "tracker \<times> string list \<Rightarrow> bool" where
  "identity_ok x \<longleftrightarrow> distinct (map fst (tk_tracks (fst x))) \<and> (\<forall>i. count (known_ids x) i \<le> 1) \<and>
     (\<forall>i \<in># known_ids x. \<exists>c v e n. i = track_name c v e n \<and> n \<le> tk_counter (fst x))"

lemma distinct_count_le: "distinct xs \<longleftrightarrow> (\<forall>i. count (mset xs) i \<le> 1)"
proof
  assume h: "\<forall>i. count (mset xs) i \<le> 1"
  have "count (mset xs) i = (if i \<in> set xs then 1 else 0)" for i
  proof (cases "i \<in> set xs")
    case True
    then have "0 < count (mset xs) i" by simp
    with h True show ?thesis by (simp add: order.antisym Suc_le_eq)
  qed (simp add: count_eq_zero_iff)
  then show "distinct xs" by (simp add: distinct_count_atmost_1)
qed (simp add: distinct_count_atmost_1)

lemma issued_fresh:
  assumes "i \<in> set (issued camera s s')" and "i = track_name c v e n"
  shows "tk_counter s < n \<and> n \<le> tk_counter s'"
proof -
  obtain k where "tk_counter s + 1 \<le> k" "k \<le> tk_counter s'" "i = track_name camera (tk_nonce s) (epoch_of s camera) k"
    using assms(1) by (auto simp: issued_def)
  moreover from this assms(2) have "n = k" by (metis track_name_inj)
  ultimately show ?thesis by simp
qed

lemma identity_frame:
  assumes "identity_ok (s, r)" and "tracker_update cfg camera dets ts s = (out, s')"
  shows "identity_ok (s', r)"
proof -
  have k: "distinct (map fst (tk_tracks s))" using assms(1) by (simp add: identity_ok_def)
  obtain new where new: "set new \<subseteq> set (issued camera s s')" "distinct new" "all_ids s' = all_ids s + mset new"
    and names: "same_names s s'" and keys: "distinct (map fst (tk_tracks s'))"
    using update_spec [OF assms(2) k] by blast
  have le: "tk_counter s \<le> tk_counter s'" using names by (simp add: same_names_def)
  have ids: "known_ids (s', r) = known_ids (s, r) + mset new" by (simp add: known_ids_def new(3))
  have old: "\<exists>c v e n. i = track_name c v e n \<and> n \<le> tk_counter s" if "i \<in># known_ids (s, r)" for i
    using assms(1) that by (auto simp: identity_ok_def)
  have "count (known_ids (s', r)) i \<le> 1" for i
  proof (cases "i \<in> set new")
    case True
    have "i \<notin># known_ids (s, r)"
    proof
      assume "i \<in># known_ids (s, r)"
      from old [OF this] obtain c v e n where "i = track_name c v e n" "n \<le> tk_counter s" by blast
      with issued_fresh [of i camera s s' c v e n] True new(1) show False by auto
    qed
    then show ?thesis using new(2) by (simp add: ids not_in_iff distinct_count_le)
  next
    case False
    then have "count (known_ids (s', r)) i = count (known_ids (s, r)) i"
      unfolding ids by (metis add.right_neutral count_eq_zero_iff count_union set_mset_mset)
    then show ?thesis using assms(1) by (simp add: identity_ok_def)
  qed
  moreover have "\<exists>c v e n. i = track_name c v e n \<and> n \<le> tk_counter s'" if "i \<in># known_ids (s', r)" for i
  proof (cases "i \<in> set new")
    case True
    then have "i \<in> set (issued camera s s')" using new(1) by blast
    then show ?thesis unfolding issued_def by force
  next
    case False
    then show ?thesis using that old [of i] le by (fastforce simp: ids)
  qed
  ultimately show ?thesis using keys by (simp add: identity_ok_def)
qed

lemma identity_reset: "identity_ok (s, r) \<Longrightarrow> identity_ok (tracker_reset camera s, r)"
  by (simp add: identity_ok_def known_ids_def reset_ids) (simp add: tracker_reset_def Let_def distinct_map_filter_key)

interpretation identity: invariant_system "\<lambda>x. \<exists>nonce. x = (tracker_init nonce, [])" "tracker_step cfg" identity_ok for cfg
proof
  show "identity_ok x" if "\<exists>nonce. x = (tracker_init nonce, [])" for x
    using that by (auto simp: identity_ok_def known_ids_def all_ids_def tracker_init_def)
  show "identity_ok y" if "identity_ok x" "tracker_step cfg x y" for x y
    using that(2,1)
  proof (induction rule: tracker_step.induct)
    case (Frame camera dets ts s out s' r)
    then show ?case by (rule identity_frame [rotated])
  next
    case (Reset s r camera)
    then show ?case by (rule identity_reset)
  next
    case (Forgotten s r camera)
    from identity_reset [OF this, of camera] show ?case
      by (simp add: identity_ok_def known_ids_def all_ids_def tracker_forget_def Let_def)
  next
    case (Drained s ids s' r)
    then show ?case by (auto simp: drain_expired_def identity_ok_def known_ids_def all_ids_def add_ac)
  qed
qed

definition live_ids :: "tracker \<Rightarrow> string list" where
  "live_ids s = map t_id (concat (map snd (tk_tracks s)))"

lemma mset_live_ids: "mset (live_ids s) = table_ids (tk_tracks s)"
proof -
  have "mset (map t_id (concat (map snd d))) = table_ids d" for d :: "(track_key, track list) dict"
    by (induction d) auto
  then show ?thesis by (simp add: live_ids_def)
qed

text \<open>
  C36. Identities are never shared and never return. Whatever frames, reconnects and removals a tracker goes through, no two live tracks
  have the same id, an id is reported as expired at most once, and a reported id is never that of a live track again. A frame gives
  every detection back exactly once, and no two of its detections get the same id.
\<close>

theorem identities_never_shared:
  assumes "rtranclp (tracker_step cfg) (tracker_init nonce, []) (s, reported)"
    and "tracker_update cfg camera dets ts s = (out, s')"
  shows "distinct (reported @ tk_expired s @ live_ids s) \<and> mset (map td_detection out) = mset dets \<and>
    distinct (map (t_id \<circ> td_track) out)"
proof -
  have ok: "identity_ok (s, reported)" by (rule identity.reachable_inv [OF _ assms(1)]) blast
  have "mset (reported @ tk_expired s @ live_ids s) = known_ids (s, reported)"
    by (simp add: known_ids_def all_ids_def mset_live_ids)
  then have d1: "distinct (reported @ tk_expired s @ live_ids s)"
    using ok unfolding distinct_count_le by (simp add: identity_ok_def)
  have keys: "distinct (map fst (tk_tracks s))" using ok by (simp add: identity_ok_def)
  note u = update_spec [OF assms(2) keys]
  have fresh: "i \<notin># table_ids (tk_tracks s)" if "i \<in> set (issued camera s s')" for i
  proof
    assume "i \<in># table_ids (tk_tracks s)"
    then have "i \<in># known_ids (s, reported)" by (simp add: known_ids_def all_ids_def)
    then obtain c v e n where "i = track_name c v e n" "n \<le> tk_counter s" using ok by (auto simp: identity_ok_def)
    with issued_fresh [OF that this(1)] show False by simp
  qed
  have "count (frame_ids out) i \<le> 1" for i
  proof -
    have "count (frame_ids out) i \<le> count (table_ids (tk_tracks s)) i + count (mset (issued camera s s')) i"
      using u mset_subset_eq_count [of "frame_ids out" "table_ids (tk_tracks s) + mset (issued camera s s')" i] by simp
    moreover have "distinct (issued camera s s')" by (auto simp: issued_def distinct_map inj_on_def dest: track_name_inj)
    moreover have "count (table_ids (tk_tracks s)) i \<le> 1"
      using ok unfolding identity_ok_def known_ids_def all_ids_def by (metis add_leE count_union fst_conv)
    ultimately show ?thesis using fresh [of i] unfolding distinct_count_le
      by (cases "i \<in> set (issued camera s s')")
        (metis One_nat_def add_cancel_left_left count_eq_zero_iff le_trans, metis add.right_neutral count_eq_zero_iff le_trans set_mset_mset)
  qed
  then have "distinct (map (t_id \<circ> td_track) out)" by (simp add: frame_ids_def distinct_count_le)
  with d1 u show ?thesis by blast
qed

definition demo_person :: "int \<Rightarrow> detection" where
  "demo_person x = \<lparr>d_domain = ''person'', d_xyxy = (x, 0, x + 40, 100), d_confidence = 8 / 10, d_label = ''person''\<rparr>"

theorem identities_never_shared_witness:
  "\<exists>out s'. tracker_update demo_tracker_cfg ''gate'' [demo_person 10, demo_person 200] 2
      (snd (tracker_update demo_tracker_cfg ''gate'' [demo_person 0] 1 (tracker_init ''ab12cd''))) = (out, s') \<and>
    mset (map td_detection out) = {#demo_person 10, demo_person 200#} \<and> distinct (map (t_id \<circ> td_track) out)"
proof -
  obtain o1 s1 where u1: "tracker_update demo_tracker_cfg ''gate'' [demo_person 0] 1 (tracker_init ''ab12cd'') = (o1, s1)" by fastforce
  then have step: "rtranclp (tracker_step demo_tracker_cfg) (tracker_init ''ab12cd'', []) (s1, [])" by (intro r_into_rtranclp Frame)
  obtain o2 s2 where u2: "tracker_update demo_tracker_cfg ''gate'' [demo_person 10, demo_person 200] 2 s1 = (o2, s2)" by fastforce
  from identities_never_shared [OF step u2] show ?thesis using u1 u2 by simp
qed

text \<open>
  A track that was lost stays lost while its object stands still. When an object returns to where it rested, less than the stationary
  period after it stopped, the sight refreshes the track but its state remains \<^term>\<open>Lost\<close>, although it was seen in this very frame.
\<close>

theorem lost_track_stays_lost:
  assumes "t_state t = Lost"
    and "\<not> hypot_ge (cx - t_still_cx t) (by' - t_still_by t) (tc_stationary_distance cfg * max (1 / 10 ^ 6) h)"
    and "ts - t_still_since t < tc_stationary_after cfg"
  shows "t_state (fst (advance cfg (cx, by', w, h) ts t)) = Lost \<and> t_last_seen (fst (advance cfg (cx, by', w, h) ts t)) = ts"
  using assms by (simp add: advance_def Let_def is_confirmed_def)

theorem lost_track_stays_lost_witness:
  "t_state (fst (advance demo_tracker_cfg (100, 200, 50, 100) 2 ((born ''a'' ''person'' Active 0 (100, 200, 50, 100))\<lparr>t_state := Lost\<rparr>))) = Lost"
proof -
  let ?t = "(born ''a'' ''person'' Active 0 (100, 200, 50, 100))\<lparr>t_state := Lost\<rparr>"
  have "\<not> hypot_ge (100 - t_still_cx ?t) (200 - t_still_by ?t) (tc_stationary_distance demo_tracker_cfg * max (1 / 10 ^ 6) 100)"
    by code_simp
  moreover have "2 - t_still_since ?t < tc_stationary_after demo_tracker_cfg" by code_simp
  ultimately show ?thesis using lost_track_stays_lost [of ?t] by simp
qed

end
