(* ===== verification/Detection_Pipeline.thy ===== *)
theory Detection_Pipeline
  imports Tracking
begin

text \<open>
  The indexing policy and the detection worker, \<open>services/analytics/analytics/indexing_policy.py\<close> and \<open>pipeline.py\<close>: whether an
  observation of a known object earns a row, and one frame from the detector's boxes to the observations handed to
  the sink. The detector and the motion gate's verdict are parameters; plates, faces and pictures are left out.
\<close>

subsection \<open>The indexing policy\<close>

datatype reason = First_sight | Displacement | Scale_change | Heartbeat | Quality_gain | Suppression_off | Untracked

record anchor =
  an_ts :: epoch
  an_cx :: rat
  an_by :: rat
  an_h :: rat
  an_confidence :: rat
  an_area :: rat

record policy_cfg =
  po_suppression :: bool
  po_displacement :: rat
  po_scale_ratio :: rat
  po_scale_persist :: int
  po_heartbeat :: rat
  po_quality_gain :: rat
  po_min_interval :: rat

definition policy_config :: "bool \<Rightarrow> rat \<Rightarrow> rat \<Rightarrow> int \<Rightarrow> rat \<Rightarrow> rat \<Rightarrow> rat \<Rightarrow> policy_cfg" where
  "policy_config suppression displacement scale_ratio scale_persist heartbeat quality_gain min_interval =
     \<lparr>po_suppression = suppression, po_displacement = displacement, po_scale_ratio = max (1 + 1 / 10 ^ 6) scale_ratio,
      po_scale_persist = max 1 scale_persist, po_heartbeat = heartbeat, po_quality_gain = quality_gain,
      po_min_interval = max 0 min_interval\<rparr>"

record policy =
  py_anchors :: "(string, anchor) dict"
  py_pending :: "(string, int) dict"
  py_indexed :: int
  py_suppressed :: int
  py_by_reason :: "(reason, int) dict"

definition policy_init :: policy where
  "policy_init = \<lparr>py_anchors = [], py_pending = [], py_indexed = 0, py_suppressed = 0, py_by_reason = []\<rparr>"

definition box_area_f :: "box \<Rightarrow> rat" where
  "box_area_f b = (case b of (x1, y1, x2, y2) \<Rightarrow> max 1 (of_int (x2 - x1) * max 1 (of_int (y2 - y1))))"

definition scale_holds :: "policy_cfg \<Rightarrow> rat \<Rightarrow> anchor \<Rightarrow> bool" where
  "scale_holds cfg h a \<longleftrightarrow> max h (an_h a) / max (1 / 10 ^ 6) (min h (an_h a)) \<ge> po_scale_ratio cfg"

definition rule_that_fires :: "policy_cfg \<Rightarrow> rat \<Rightarrow> bool \<Rightarrow> int \<Rightarrow> bool \<Rightarrow> reason option" where
  \<comment> \<open>the rules in their order, for a track last recorded so many seconds ago\<close>
  "rule_that_fires cfg since moved_far persisted better =
     (if po_min_interval cfg > 0 \<and> since < po_min_interval cfg then None
      else if moved_far then Some Displacement
      else if persisted \<ge> po_scale_persist cfg then Some Scale_change
      else if po_heartbeat cfg > 0 \<and> since \<ge> po_heartbeat cfg then Some Heartbeat
      else if better then Some Quality_gain
      else None)"

definition decide :: "policy_cfg \<Rightarrow> string \<Rightarrow> detection \<Rightarrow> epoch \<Rightarrow> policy \<Rightarrow> reason option \<times> policy" where
  "decide cfg tid det ts p =
     (if \<not> po_suppression cfg then (Some Suppression_off, p)
      else case map_of (py_anchors p) tid of
             None \<Rightarrow> (Some First_sight, p)
           | Some a \<Rightarrow>
               let (cx, by', w, h) = geometry (d_xyxy det); area = box_area_f (d_xyxy det);
                   scale = max (1 / 10 ^ 6) ((h + an_h a) / 2);
                   moved_far = hypot_ge (cx - an_cx a) (by' - an_by a) (po_displacement cfg * scale);
                   persisted = (if scale_holds cfg h a then (case map_of (py_pending p) tid of Some n \<Rightarrow> n | None \<Rightarrow> 0) + 1 else 0);
                   p1 = p\<lparr>py_pending := (if scale_holds cfg h a then AList.update tid persisted (py_pending p)
                                         else AList.delete tid (py_pending p))\<rparr>
               in (rule_that_fires cfg (ts - an_ts a) moved_far persisted
                     (d_confidence det \<ge> an_confidence a + po_quality_gain cfg \<and> area \<ge> an_area a), p1))"

definition record_anchor :: "string \<Rightarrow> detection \<Rightarrow> epoch \<Rightarrow> reason \<Rightarrow> policy \<Rightarrow> policy" where
  "record_anchor tid det ts why p =
     (let (cx, by', w, h) = geometry (d_xyxy det)
      in p\<lparr>py_anchors := AList.update tid \<lparr>an_ts = ts, an_cx = cx, an_by = by', an_h = h, an_confidence = d_confidence det,
             an_area = box_area_f (d_xyxy det)\<rparr> (py_anchors p),
           py_pending := AList.delete tid (py_pending p), py_indexed := py_indexed p + 1,
           py_by_reason := AList.update why ((case map_of (py_by_reason p) why of Some n \<Rightarrow> n | None \<Rightarrow> 0) + 1) (py_by_reason p)\<rparr>)"

definition note_suppressed :: "policy \<Rightarrow> policy" where
  "note_suppressed p = p\<lparr>py_suppressed := py_suppressed p + 1\<rparr>"

definition forget_anchors :: "string list \<Rightarrow> policy \<Rightarrow> policy" where
  "forget_anchors tids p = p\<lparr>py_anchors := fold AList.delete tids (py_anchors p), py_pending := fold AList.delete tids (py_pending p)\<rparr>"

subsection \<open>The frame\<close>

record pipeline_cfg =
  pc_queue_size :: nat
  pc_motion_enabled :: bool
  pc_nested_containment :: rat
  pc_min_crop_width :: int
  pc_min_crop_height :: int
  pc_index_tentative :: bool
  pc_tracker :: "tracker_cfg option"      \<comment> \<open>\<^term>\<open>None\<close> when tracking is off\<close>
  pc_policy :: policy_cfg

record observation =
  ob_camera :: string
  ob_ts :: epoch
  ob_detection :: detection
  ob_tracker_id :: "string option"
  ob_reason :: reason

record frame_box =
  fb_detection :: detection
  fb_tracker_id :: "string option"
  fb_recorded :: bool

record pipeline =
  pl_domains :: "(string, string list) dict"
  pl_tracker :: tracker
  pl_policy :: policy
  pl_looks :: "string best_frames"
  pl_skipped_no_motion :: int
  pl_gated_by_broker :: int
  pl_detector_calls :: int
  pl_seen :: int
  pl_nested :: int
  pl_tentative :: int
  pl_too_small :: int
  pl_suppressed :: int
  pl_sent :: "(observation \<times> frame_box list) list"    \<comment> \<open>what the sink was given, in order\<close>

datatype gate =
    No_motion                      \<comment> \<open>\<open>regions is None\<close>\<close>
  | Regions "box list"             \<comment> \<open>empty: the whole frame\<close>

type_synonym detector = "box option \<Rightarrow> detection list"
  \<comment> \<open>what the detector finds in the whole frame, or in a region of it, in the coordinates of the region\<close>

definition shift :: "box \<Rightarrow> detection \<Rightarrow> detection" where
  "shift r d = (case (r, d_xyxy d) of ((rx1, ry1, rx2, ry2), (x1, y1, x2, y2)) \<Rightarrow>
     d\<lparr>d_xyxy := (x1 + rx1, y1 + ry1, x2 + rx1, y2 + ry1)\<rparr>)"

definition empty_crop :: "int \<times> int \<Rightarrow> box \<Rightarrow> bool" where
  \<comment> \<open>\<open>frame[y1:y2, x1:x2].size == 0\<close> for a frame of so many columns and rows, bounds not negative\<close>
  "empty_crop sz b = (case (sz, b) of ((w, h), (x1, y1, x2, y2)) \<Rightarrow> min x2 w \<le> x1 \<or> min y2 h \<le> y1)"

definition detect_raw :: "pipeline_cfg \<Rightarrow> detector \<Rightarrow> int \<times> int \<Rightarrow> bool \<Rightarrow> gate \<Rightarrow> pipeline \<Rightarrow> detection list \<times> pipeline" where
  "detect_raw cfg detect sz by_broker g s =
     (if \<not> pc_motion_enabled cfg then (detect None, s\<lparr>pl_detector_calls := pl_detector_calls s + 1\<rparr>)
      else let s1 = s\<lparr>pl_gated_by_broker := pl_gated_by_broker s + (if by_broker then 1 else 0)\<rparr>
           in case g of
                No_motion \<Rightarrow> ([], s1\<lparr>pl_skipped_no_motion := pl_skipped_no_motion s1 + 1\<rparr>)
              | Regions [] \<Rightarrow> (detect None, s1\<lparr>pl_detector_calls := pl_detector_calls s1 + 1\<rparr>)
              | Regions rs \<Rightarrow>
                  let shown = filter (\<lambda>r. \<not> empty_crop sz r) rs
                  in (concat (map (\<lambda>r. map (shift r) (detect (Some r))) shown),
                      s1\<lparr>pl_detector_calls := pl_detector_calls s1 + int (length shown)\<rparr>))"

definition detect_frame :: "pipeline_cfg \<Rightarrow> detector \<Rightarrow> int \<times> int \<Rightarrow> bool \<Rightarrow> gate \<Rightarrow> pipeline \<Rightarrow> detection list \<times> pipeline" where
  "detect_frame cfg detect sz by_broker g s =
     (let (found, s1) = detect_raw cfg detect sz by_broker g s
      in if length found < 2 then (found, s1)
         else let kept = suppress_nested (pc_nested_containment cfg) found
              in (kept, s1\<lparr>pl_nested := pl_nested s1 + (int (length found) - int (length kept))\<rparr>))"

definition domains_for :: "pipeline \<Rightarrow> string \<Rightarrow> string list" where
  "domains_for s slug = (case map_of (pl_domains s) slug of Some ds \<Rightarrow> ds | None \<Rightarrow> [''person'', ''vehicles''])"

definition crop_big_enough :: "pipeline_cfg \<Rightarrow> detection \<Rightarrow> bool" where
  "crop_big_enough cfg d = (case d_xyxy d of (x1, y1, x2, y2) \<Rightarrow>
     x2 - x1 \<ge> pc_min_crop_width cfg \<and> y2 - y1 \<ge> pc_min_crop_height cfg)"

definition name_detections :: "pipeline_cfg \<Rightarrow> string \<Rightarrow> detection list \<Rightarrow> epoch \<Rightarrow> pipeline
    \<Rightarrow> (detection \<times> track option) list \<times> pipeline" where
  \<comment> \<open>identity: the tracker's answer, and the retired tracks forgotten\<close>
  "name_detections cfg slug dets ts s =
     (case pc_tracker cfg of
        None \<Rightarrow> (map (\<lambda>d. (d, None)) dets, s)
      | Some tc \<Rightarrow>
          let (out, t1) = tracker_update tc slug dets ts (pl_tracker s); (gone, t2) = drain_expired t1
          in (map (\<lambda>td. (td_detection td, Some (td_track td))) out,
              s\<lparr>pl_tracker := t2, pl_policy := (if gone = [] then pl_policy s else forget_anchors gone (pl_policy s)),
                pl_looks := (if gone = [] then pl_looks s else forget_looks gone (pl_looks s))\<rparr>))"

definition too_young :: "pipeline_cfg \<Rightarrow> track option \<Rightarrow> bool" where
  "too_young cfg tr = (case tr of Some t \<Rightarrow> \<not> is_confirmed t \<and> \<not> pc_index_tentative cfg | None \<Rightarrow> False)"

type_synonym pending = "detection \<times> track option \<times> reason"

definition judge :: "pipeline_cfg \<Rightarrow> epoch \<Rightarrow> detection \<times> track option \<Rightarrow> pipeline \<Rightarrow> frame_box option \<times> pending option \<times> pipeline" where
  \<comment> \<open>one round of the loop: the box drawn, and the observation pending\<close>
  "judge cfg ts x s =
     (case x of (det, tr) \<Rightarrow>
        if too_young cfg tr then (None, None, s\<lparr>pl_tentative := pl_tentative s + 1\<rparr>)
        else let (why, p1) = (case tr of Some t \<Rightarrow> decide (pc_policy cfg) (t_id t) det ts (pl_policy s) | None \<Rightarrow> (Some Untracked, pl_policy s));
                 box = \<lparr>fb_detection = det, fb_tracker_id = map_option t_id tr, fb_recorded = why \<noteq> None\<rparr>
             in case why of
                  None \<Rightarrow> (Some box, None, s\<lparr>pl_policy := note_suppressed p1, pl_suppressed := pl_suppressed s + 1\<rparr>)
                | Some r \<Rightarrow> (Some box, Some (det, tr, r),
                    s\<lparr>pl_policy := (case tr of Some t \<Rightarrow> record_anchor (t_id t) det ts r p1 | None \<Rightarrow> p1)\<rparr>))"

definition opt_Cons :: "'a option \<Rightarrow> 'a list \<Rightarrow> 'a list" where
  "opt_Cons x xs = (case x of Some y \<Rightarrow> y # xs | None \<Rightarrow> xs)"

fun judge_all :: "pipeline_cfg \<Rightarrow> epoch \<Rightarrow> (detection \<times> track option) list \<Rightarrow> pipeline \<Rightarrow> frame_box list \<times> pending list \<times> pipeline" where
  "judge_all cfg ts [] s = ([], [], s)"
| "judge_all cfg ts (x # xs) s =
     (let (b, p, s1) = judge cfg ts x s; (boxes, pending, s2) = judge_all cfg ts xs s1
      in (opt_Cons b boxes, opt_Cons p pending, s2))"

definition max_frame_boxes :: nat where "max_frame_boxes = 40"

definition emit_all :: "string \<Rightarrow> int \<times> int \<Rightarrow> epoch \<Rightarrow> frame_box list \<Rightarrow> pending list \<Rightarrow> pipeline \<Rightarrow> pipeline" where
  "emit_all slug sz ts drawn pending s =
     s\<lparr>pl_sent := pl_sent s @ map (\<lambda>(det, tr, r). (\<lparr>ob_camera = slug, ob_ts = ts, ob_detection = det,
         ob_tracker_id = map_option t_id tr, ob_reason = r\<rparr>, drawn)) (filter (\<lambda>(det, tr, r). \<not> empty_crop sz (d_xyxy det)) pending)\<rparr>"

definition process_frame :: "pipeline_cfg \<Rightarrow> detector \<Rightarrow> string \<Rightarrow> int \<times> int \<Rightarrow> epoch \<Rightarrow> bool \<Rightarrow> gate \<Rightarrow> pipeline \<Rightarrow> pipeline" where
  "process_frame cfg detect slug sz ts by_broker g s =
     (let (found, s1) = detect_frame cfg detect sz by_broker g s; wanted = domains_for s1 slug;
          dets = filter (\<lambda>d. d_domain d \<in> set wanted) found
      in if dets = [] then s1
         else let big = filter (crop_big_enough cfg) dets;
                  s2 = s1\<lparr>pl_seen := pl_seen s1 + int (length dets), pl_too_small := pl_too_small s1 + (int (length dets) - int (length big))\<rparr>
              in if big = [] then s2
                 else let (named, s3) = name_detections cfg slug big ts s2; (boxes, pending, s4) = judge_all cfg ts named s3
                      in emit_all slug sz ts (take max_frame_boxes boxes) pending s4)"

definition reset_gate :: "pipeline_cfg \<Rightarrow> string \<Rightarrow> pipeline \<Rightarrow> pipeline" where
  \<comment> \<open>the motion gate's own reset is not shown\<close>
  "reset_gate cfg slug s =
     (case pc_tracker cfg of
        None \<Rightarrow> s
      | Some tc \<Rightarrow>
          let (gone, t) = drain_expired (tracker_forget slug (pl_tracker s))
          in s\<lparr>pl_tracker := t, pl_policy := (if gone = [] then pl_policy s else forget_anchors gone (pl_policy s)),
               pl_looks := (if gone = [] then pl_looks s else forget_looks gone (pl_looks s))\<rparr>)"

definition set_domains :: "string \<Rightarrow> string list \<Rightarrow> pipeline \<Rightarrow> pipeline" where
  "set_domains slug ds s = s\<lparr>pl_domains := AList.update slug ds (pl_domains s)\<rparr>"

definition forget_domains :: "string \<Rightarrow> pipeline \<Rightarrow> pipeline" where
  "forget_domains slug s = s\<lparr>pl_domains := AList.delete slug (pl_domains s)\<rparr>"

subsection \<open>How often an object is recorded\<close>

lemma decide_known_ex:
  assumes "po_suppression cfg" and "map_of (py_anchors p) tid = Some a"
  shows "\<exists>m h b. fst (decide cfg tid det ts p) = rule_that_fires cfg (ts - an_ts a) m h b"
  unfolding decide_def Let_def split_beta using assms
  by (simp only: option.case if_True if_False fst_conv not_True_eq_False) (intro exI, rule refl)

lemma decide_known:
  assumes "po_suppression cfg" and "map_of (py_anchors p) tid = Some a"
  obtains m h b where "fst (decide cfg tid det ts p) = rule_that_fires cfg (ts - an_ts a) m h b"
  using decide_known_ex [OF assms] by blast

lemma decide_anchors: "py_anchors (snd (decide cfg tid det ts p)) = py_anchors p"
proof -
  have upd: "py_anchors (p\<lparr>py_pending := x\<rparr>) = py_anchors p" for x by simp
  show ?thesis
    unfolding decide_def Let_def split_beta
    by (cases "po_suppression cfg"; cases "map_of (py_anchors p) tid")
      (simp_all only: option.case if_True if_False snd_conv not_True_eq_False not_False_eq_True upd simp_thms)
qed

lemma decide_anchors_eq [simp]: "decide cfg tid det ts p = (why, p') \<Longrightarrow> py_anchors p' = py_anchors p"
  using decide_anchors [of cfg tid det ts p] by simp

lemma record_anchor_anchors [simp]:
  "map_of (py_anchors (record_anchor tid det ts why p)) = (map_of (py_anchors p))(tid \<mapsto>
     \<lparr>an_ts = ts, an_cx = fst (geometry (d_xyxy det)), an_by = fst (snd (geometry (d_xyxy det))),
      an_h = snd (snd (snd (geometry (d_xyxy det)))), an_confidence = d_confidence det, an_area = box_area_f (d_xyxy det)\<rparr>)"
  by (simp add: record_anchor_def Let_def update_conv' split: prod.split)

lemma note_suppressed_anchors [simp]: "py_anchors (note_suppressed p) = py_anchors p"
  by (simp add: note_suppressed_def)

lemma decide_first: "map_of (py_anchors p) tid = None \<Longrightarrow> fst (decide cfg tid det ts p) \<noteq> None"
  unfolding decide_def by (cases "po_suppression cfg") (simp_all only: option.case fst_conv if_True if_False not_True_eq_False not_False_eq_True option.distinct simp_thms)

lemma decide_floor:
  assumes "po_suppression cfg" and "map_of (py_anchors p) tid = Some a" and "fst (decide cfg tid det ts p) \<noteq> None"
  shows "po_min_interval cfg \<le> 0 \<or> po_min_interval cfg \<le> ts - an_ts a"
  using assms(3) by (rule_tac decide_known [OF assms(1,2), of det ts]) (auto simp: rule_that_fires_def split: if_splits)

lemma decide_heartbeat:
  assumes "po_suppression cfg" and "0 < po_heartbeat cfg" and "po_min_interval cfg \<le> po_heartbeat cfg"
    and "map_of (py_anchors p) tid = Some a" and "fst (decide cfg tid det ts p) = None"
  shows "ts - an_ts a < po_heartbeat cfg"
  using assms(2,3,5) by (rule_tac decide_known [OF assms(1,4), of det ts]) (auto simp: rule_that_fires_def split: if_splits)

fun observe :: "policy_cfg \<Rightarrow> string \<Rightarrow> (detection \<times> epoch) list \<Rightarrow> policy \<Rightarrow> epoch list" where
  \<comment> \<open>the times at which the sights of one track earn a row, decided and recorded as \<open>_process\<close> does\<close>
  "observe cfg tid [] p = []"
| "observe cfg tid ((det, ts) # xs) p =
     (case decide cfg tid det ts p of
        (None, p1) \<Rightarrow> observe cfg tid xs (note_suppressed p1)
      | (Some why, p1) \<Rightarrow> ts # observe cfg tid xs (record_anchor tid det ts why p1))"

lemma observe_from_anchor:
  assumes "po_suppression cfg" and "0 \<le> po_min_interval cfg" and "map_of (py_anchors p) tid = Some a"
    and "sorted (an_ts a # map snd xs)"
  shows "sorted_wrt (\<lambda>r r'. r + po_min_interval cfg \<le> r') (an_ts a # observe cfg tid xs p) \<and>
    (0 < po_heartbeat cfg \<and> po_min_interval cfg \<le> po_heartbeat cfg \<longrightarrow>
      (\<forall>x \<in> set xs. \<exists>r \<in> set (an_ts a # observe cfg tid xs p). r \<le> snd x \<and> snd x < r + po_heartbeat cfg))"
  using assms(3,4)
proof (induction xs arbitrary: p a)
  case (Cons x xs)
  obtain det ts where x: "x = (det, ts)" by (cases x)
  obtain why p1 where d: "decide cfg tid det ts p = (why, p1)" by (cases "decide cfg tid det ts p")
  show ?case
  proof (cases why)
    case None
    have "map_of (py_anchors (note_suppressed p1)) tid = Some a" using Cons.prems(1) d by simp
    note ih = Cons.IH [OF this]
    have "ts < an_ts a + po_heartbeat cfg" if "0 < po_heartbeat cfg" "po_min_interval cfg \<le> po_heartbeat cfg"
      using decide_heartbeat [OF assms(1) that Cons.prems(1), of det ts] d None by simp
    then show ?thesis using ih Cons.prems(2) x d None by auto
  next
    case (Some r)
    let ?p = "record_anchor tid det ts r p1"
    obtain a' where a': "map_of (py_anchors ?p) tid = Some a'" "an_ts a' = ts" by simp
    have "sorted (an_ts a' # map snd xs)" using Cons.prems(2) x a' by simp
    note ih = Cons.IH [OF a'(1) this]
    have step: "an_ts a + po_min_interval cfg \<le> ts"
      using decide_floor [OF assms(1) Cons.prems(1), of det ts] d Some assms(2) Cons.prems(2) x by auto
    have "sorted_wrt (\<lambda>r r'. r + po_min_interval cfg \<le> r') (an_ts a # observe cfg tid (x # xs) p)"
      using ih step x d Some a' assms(2) by force
    moreover have "\<exists>q \<in> set (observe cfg tid (x # xs) p). q \<le> snd y \<and> snd y < q + po_heartbeat cfg"
      if "y \<in> set (x # xs)" "0 < po_heartbeat cfg" "po_min_interval cfg \<le> po_heartbeat cfg" for y
      using ih that x d Some a' by (cases "y = x") auto
    ultimately show ?thesis by (meson list.set_intros(2))
  qed
qed simp

text \<open>
  C37. How often a tracked object earns a row. With suppression on, an object seen at a rising series of times is recorded at its first sight,
  two rows of it are never closer than the minimum interval, and as long as the heartbeat is on and no shorter than that
  interval, every sight falls less than one heartbeat after a row: the object is never longer than that out of the index.
\<close>

theorem rows_spaced_and_fresh:
  assumes "po_suppression cfg" and "0 \<le> po_min_interval cfg" and "map_of (py_anchors p) tid = None"
    and "sorted (map snd xs)" and "xs \<noteq> []"
  shows "hd (observe cfg tid xs p) = snd (hd xs) \<and>
    sorted_wrt (\<lambda>r r'. r + po_min_interval cfg \<le> r') (observe cfg tid xs p) \<and>
    (0 < po_heartbeat cfg \<and> po_min_interval cfg \<le> po_heartbeat cfg \<longrightarrow>
      (\<forall>x \<in> set xs. \<exists>r \<in> set (observe cfg tid xs p). r \<le> snd x \<and> snd x < r + po_heartbeat cfg))"
proof -
  obtain det ts rest where xs: "xs = (det, ts) # rest" using assms(5) by (cases xs) auto
  obtain r p1 where d: "decide cfg tid det ts p = (Some r, p1)"
    using decide_first [OF assms(3), of cfg det ts] by (cases "decide cfg tid det ts p") auto
  let ?p = "record_anchor tid det ts r p1"
  obtain a where a: "map_of (py_anchors ?p) tid = Some a" "an_ts a = ts" by simp
  have "sorted (an_ts a # map snd rest)" using assms(4) xs a by simp
  from observe_from_anchor [OF assms(1,2) a(1) this] show ?thesis
    using xs d a(2) by auto
qed

definition demo_policy_cfg :: policy_cfg where
  "demo_policy_cfg = policy_config True (3 / 2) (3 / 2) 2 60 (15 / 100) 10"

theorem rows_spaced_and_fresh_witness:
  "hd (observe demo_policy_cfg ''gate:1'' (map (\<lambda>t. (demo_person 0, t)) [0, 5, 30, 65]) policy_init) = 0"
  using rows_spaced_and_fresh [of demo_policy_cfg policy_init "''gate:1''" "map (\<lambda>t. (demo_person 0, t)) [0, 5, 30, 65]"]
  by (simp add: demo_policy_cfg_def policy_config_def policy_init_def)

subsection \<open>Every object of a frame is in the index\<close>

definition pipeline_init :: "string \<Rightarrow> pipeline" where
  "pipeline_init nonce =
     \<lparr>pl_domains = [], pl_tracker = tracker_init nonce, pl_policy = policy_init, pl_looks = best_frames_init 3 (64 * 1024 * 1024),
      pl_skipped_no_motion = 0, pl_gated_by_broker = 0, pl_detector_calls = 0, pl_seen = 0, pl_nested = 0, pl_tentative = 0,
      pl_too_small = 0, pl_suppressed = 0, pl_sent = []\<rparr>"

definition accepted :: "pipeline_cfg \<Rightarrow> detector \<Rightarrow> string \<Rightarrow> int \<times> int \<Rightarrow> bool \<Rightarrow> gate \<Rightarrow> pipeline \<Rightarrow> detection list" where
  \<comment> \<open>the boxes of a frame that pass the domain and size filters\<close>
  "accepted cfg detect slug sz by_broker g s =
     filter (crop_big_enough cfg) (filter (\<lambda>d. d_domain d \<in> set (domains_for s slug)) (fst (detect_frame cfg detect sz by_broker g s)))"

definition same_core :: "pipeline \<Rightarrow> pipeline \<Rightarrow> bool" where
  "same_core s s' \<longleftrightarrow> pl_tracker s' = pl_tracker s \<and> pl_policy s' = pl_policy s \<and> pl_sent s' = pl_sent s \<and> pl_domains s' = pl_domains s \<and>
     pl_looks s' = pl_looks s"

lemma detect_frame_core: "same_core s (snd (detect_frame cfg detect sz by_broker g s))"
  by (auto simp: detect_frame_def detect_raw_def same_core_def Let_def split: prod.splits gate.splits list.splits if_splits)

lemma process_frame_cases:
  obtains (idle) "accepted cfg detect slug sz by_broker g s = []" "same_core s (process_frame cfg detect slug sz ts by_broker g s)"
  | (busy) s2 named s3 boxes pending s4 where "accepted cfg detect slug sz by_broker g s \<noteq> []" "same_core s s2"
      "name_detections cfg slug (accepted cfg detect slug sz by_broker g s) ts s2 = (named, s3)"
      "judge_all cfg ts named s3 = (boxes, pending, s4)"
      "process_frame cfg detect slug sz ts by_broker g s = emit_all slug sz ts (take max_frame_boxes boxes) pending s4"
proof -
  obtain found s1 where f: "detect_frame cfg detect sz by_broker g s = (found, s1)" by fastforce
  have core: "same_core s s1" using detect_frame_core [of s cfg detect sz by_broker g] f by simp
  then have dom: "domains_for s1 slug = domains_for s slug" by (simp add: same_core_def domains_for_def)
  let ?dets = "filter (\<lambda>d. d_domain d \<in> set (domains_for s slug)) found"
  let ?big = "filter (crop_big_enough cfg) ?dets"
  have acc: "accepted cfg detect slug sz by_broker g s = ?big" by (simp add: accepted_def f)
  define s2 where "s2 = s1\<lparr>pl_seen := pl_seen s1 + int (length ?dets), pl_too_small := pl_too_small s1 + (int (length ?dets) - int (length ?big))\<rparr>"
  have core2: "same_core s s2" using core by (simp add: same_core_def s2_def)
  have p: "process_frame cfg detect slug sz ts by_broker g s =
      (if ?dets = [] then s1 else if ?big = [] then s2
       else let (named, s3) = name_detections cfg slug ?big ts s2; (boxes, pending, s4) = judge_all cfg ts named s3
            in emit_all slug sz ts (take max_frame_boxes boxes) pending s4)"
    unfolding process_frame_def f Let_def prod.case dom s2_def by (rule refl)
  show thesis
  proof (cases "?big = []")
    case True
    then show thesis using core core2 by (intro idle) (simp_all add: acc p)
  next
    case False
    then have "?dets \<noteq> []" by (metis filter.simps(1))
    obtain named s3 where n: "name_detections cfg slug ?big ts s2 = (named, s3)" by fastforce
    obtain boxes pending s4 where j: "judge_all cfg ts named s3 = (boxes, pending, s4)" by (metis prod_cases3)
    show thesis
      by (rule busy [OF _ core2 _ j]) (use False n j \<open>?dets \<noteq> []\<close> in \<open>simp_all add: acc p del: filter_filter\<close>)
  qed
qed

definition backed :: "(string \<Rightarrow> anchor option) \<Rightarrow> (observation \<times> frame_box list) list \<Rightarrow> bool" where
  \<comment> \<open>every anchor stands for a row that was sent\<close>
  "backed anchors rows \<longleftrightarrow>
     (\<forall>tid a. anchors tid = Some a \<longrightarrow> (\<exists>x \<in> set rows. ob_tracker_id (fst x) = Some tid \<and> ob_ts (fst x) = an_ts a))"

definition anchored :: "pipeline \<Rightarrow> bool" where
  "anchored s \<longleftrightarrow> backed (map_of (py_anchors (pl_policy s))) (pl_sent s)"

lemma fold_delete_anchors: "map_of (fold AList.delete tids d) tid = (if tid \<in> set tids then None else map_of d tid)"
  by (induction tids arbitrary: d) (auto simp: delete_conv')

lemma backed_forget: "backed (map_of (py_anchors p)) rows \<Longrightarrow> backed (map_of (py_anchors (forget_anchors tids p))) rows"
  by (auto simp: backed_def forget_anchors_def fold_delete_anchors)

lemma name_detections_spec:
  assumes "name_detections cfg slug dets ts s = (named, s')" and "distinct (map fst (tk_tracks (pl_tracker s)))"
  shows "pl_sent s' = pl_sent s \<and> mset (map fst named) = mset dets \<and> (anchored s \<longrightarrow> anchored s')"
proof (cases "pc_tracker cfg")
  case None
  have "map fst (map (\<lambda>d. (d, None :: track option)) dets) = dets" by (induction dets) auto
  with None assms show ?thesis by (auto simp: name_detections_def simp del: map_map mset_map)
next
  case (Some tc)
  obtain out t1 where u: "tracker_update tc slug dets ts (pl_tracker s) = (out, t1)" by fastforce
  have "mset (map td_detection out) = mset dets" using update_spec [OF u assms(2)] by blast
  moreover have "map fst (map (\<lambda>td. (td_detection td, Some (td_track td))) out) = map td_detection out" by simp
  ultimately have m: "mset (map fst (map (\<lambda>td. (td_detection td, Some (td_track td))) out)) = mset dets" by (simp only:)
  show ?thesis
    using assms(1) Some u backed_forget m
    by (auto simp: name_detections_def drain_expired_def anchored_def simp del: map_map mset_map split: if_splits)
qed


lemma judge_cases:
  assumes "judge cfg ts (det, tr) s = (b, p, s')"
  obtains (young) "too_young cfg tr" "p = None" "s' = s\<lparr>pl_tentative := pl_tentative s + 1\<rparr>"
  | (untracked) "tr = None" "p = Some (det, None, Untracked)" "s' = s"
  | (suppressed) t p1 where "tr = Some t" "decide (pc_policy cfg) (t_id t) det ts (pl_policy s) = (None, p1)" "p = None"
      "s' = s\<lparr>pl_policy := note_suppressed p1, pl_suppressed := pl_suppressed s + 1\<rparr>"
  | (recorded) t r p1 where "tr = Some t" "decide (pc_policy cfg) (t_id t) det ts (pl_policy s) = (Some r, p1)"
      "p = Some (det, tr, r)" "s' = s\<lparr>pl_policy := record_anchor (t_id t) det ts r p1\<rparr>"
proof (cases "too_young cfg tr")
  case True
  with assms show thesis by (intro young) (simp_all add: judge_def)
next
  case False
  show thesis
  proof (cases tr)
    case None
    with False assms show thesis by (intro untracked) (simp_all add: judge_def)
  next
    case (Some t)
    obtain why p1 where d: "decide (pc_policy cfg) (t_id t) det ts (pl_policy s) = (why, p1)" by fastforce
    show thesis
      using assms Some False d by (cases why) (auto simp: judge_def intro: suppressed recorded)
  qed
qed

lemma judge_frame: "judge cfg ts x s = (b, p, s') \<Longrightarrow> pl_sent s' = pl_sent s \<and> (\<forall>y. p = Some y \<longrightarrow> fst y = fst x)"
  by (cases x) (auto elim!: judge_cases)

lemma judge_anchor:
  assumes "judge cfg ts (det, tr) s = (b, p, s')" and "map_of (py_anchors (pl_policy s')) tid = Some a"
  shows "map_of (py_anchors (pl_policy s)) tid = Some a \<or> an_ts a = ts \<and> (\<exists>t r. p = Some (det, Some t, r) \<and> t_id t = tid)"
  using assms(1)
proof (cases rule: judge_cases)
  case (recorded t r p1)
  then show ?thesis using assms(2) by (auto split: if_splits)
qed (use assms(2) in auto)



lemma judge_all_frame: "judge_all cfg ts xs s = (boxes, pending, s') \<Longrightarrow> pl_sent s' = pl_sent s \<and> fst ` set pending \<subseteq> fst ` set xs"
proof (induction xs arbitrary: s boxes pending)
  case (Cons x xs)
  obtain b p s1 where j: "judge cfg ts x s = (b, p, s1)" by (metis prod_cases3)
  obtain bs pe where js: "judge_all cfg ts xs s1 = (bs, pe, s')" and pe: "pending = opt_Cons p pe"
    using Cons.prems(1) j by (auto split: prod.splits)
  show ?case
    using judge_frame [OF j] Cons.IH [OF js] by (cases p) (auto simp: pe opt_Cons_def)
qed simp

lemma judge_all_anchor:
  "judge_all cfg ts xs s = (boxes, pending, s') \<Longrightarrow> map_of (py_anchors (pl_policy s')) tid = Some a \<Longrightarrow>
    map_of (py_anchors (pl_policy s)) tid = Some a \<or> an_ts a = ts \<and> (\<exists>det t r. (det, Some t, r) \<in> set pending \<and> t_id t = tid)"
proof (induction xs arbitrary: s boxes pending)
  case (Cons x xs)
  obtain det tr where x: "x = (det, tr)" by (cases x)
  obtain b p s1 where j: "judge cfg ts (det, tr) s = (b, p, s1)" by (metis prod_cases3)
  obtain bs pe where js: "judge_all cfg ts xs s1 = (bs, pe, s')" and pe: "pending = opt_Cons p pe"
    using Cons.prems(1) j x by (auto split: prod.splits)
  have sub: "set pe \<subseteq> set pending" by (auto simp: pe opt_Cons_def split: option.split)
  from Cons.IH [OF js Cons.prems(2)] consider "map_of (py_anchors (pl_policy s1)) tid = Some a"
    | "an_ts a = ts \<and> (\<exists>det t r. (det, Some t, r) \<in> set pe \<and> t_id t = tid)" by blast
  then show ?case
  proof cases
    case 1
    from judge_anchor [OF j 1] show ?thesis by (fastforce simp: pe opt_Cons_def)
  qed (use sub in blast)
qed simp


lemma tracker_keys_process:
  "distinct (map fst (tk_tracks (pl_tracker s))) \<Longrightarrow>
    distinct (map fst (tk_tracks (pl_tracker (process_frame cfg detect slug sz ts by_broker g s))))"
proof (cases rule: process_frame_cases [where cfg = cfg and detect = detect and slug = slug and sz = sz and ts = ts and by_broker = by_broker and g = g and s = s])
  case idle
  then show "distinct (map fst (tk_tracks (pl_tracker s))) \<Longrightarrow> ?thesis" by (simp add: same_core_def)
next
  case (busy s2 named s3 boxes pending s4)
  assume k: "distinct (map fst (tk_tracks (pl_tracker s)))"
  have "pl_tracker s4 = pl_tracker s3"
    using busy(4)
  proof (induction named arbitrary: s3 boxes pending)
    case (Cons x named)
    obtain b p s1 where j: "judge cfg ts x s3 = (b, p, s1)" by (metis prod_cases3)
    then have "pl_tracker s1 = pl_tracker s3" by (cases x) (auto elim!: judge_cases)
    with Cons j show ?case by (fastforce split: prod.splits)
  qed simp
  moreover have "distinct (map fst (tk_tracks (pl_tracker s3)))"
  proof (cases "pc_tracker cfg")
    case None
    with busy(2,3) k show ?thesis by (auto simp: name_detections_def same_core_def)
  next
    case (Some tc)
    obtain out t1 where u: "tracker_update tc slug (accepted cfg detect slug sz by_broker g s) ts (pl_tracker s) = (out, t1)" by fastforce
    with Some busy(2,3) update_spec [OF u k] show ?thesis
      by (auto simp: name_detections_def same_core_def drain_expired_def)
  qed
  ultimately show ?thesis using busy(5) by (simp add: emit_all_def)
qed

inductive pipeline_step :: "pipeline_cfg \<Rightarrow> pipeline \<Rightarrow> pipeline \<Rightarrow> bool" for cfg where
  Frame_seen: "(\<forall>d \<in> set (accepted cfg detect slug sz by_broker g s). \<not> empty_crop sz (d_xyxy d)) \<Longrightarrow>
    pipeline_step cfg s (process_frame cfg detect slug sz ts by_broker g s)"
| Reconnected: "pipeline_step cfg s (reset_gate cfg slug s)"
| Domains_set: "pipeline_step cfg s (set_domains slug ds s)"
| Domains_forgotten: "pipeline_step cfg s (forget_domains slug s)"

definition rows_ok :: "pipeline \<Rightarrow> bool" where
  "rows_ok s \<longleftrightarrow> anchored s \<and> distinct (map fst (tk_tracks (pl_tracker s)))"

lemma anchored_process:
  assumes "rows_ok s" and "\<forall>d \<in> set (accepted cfg detect slug sz by_broker g s). \<not> empty_crop sz (d_xyxy d)"
  shows "anchored (process_frame cfg detect slug sz ts by_broker g s)"
proof (cases rule: process_frame_cases [where cfg = cfg and detect = detect and slug = slug and sz = sz and ts = ts and by_broker = by_broker and g = g and s = s])
  case idle
  then show ?thesis using assms(1) by (simp add: same_core_def anchored_def rows_ok_def)
next
  case (busy s2 named s3 boxes pending s4)
  have k: "distinct (map fst (tk_tracks (pl_tracker s2)))" and a2: "anchored s2"
    using busy(2) assms(1) by (simp_all add: same_core_def rows_ok_def anchored_def)
  note n = name_detections_spec [OF busy(3) k]
  have "set (map fst named) = set (accepted cfg detect slug sz by_broker g s)" using n by (metis set_mset_mset)
  then have crops: "\<forall>x \<in> set pending. \<not> empty_crop sz (d_xyxy (fst x))"
    using judge_all_frame [OF busy(4)] assms(2) by force
  let ?s' = "emit_all slug sz ts (take max_frame_boxes boxes) pending s4"
  have "\<exists>x \<in> set (pl_sent ?s'). ob_tracker_id (fst x) = Some tid \<and> ob_ts (fst x) = an_ts a"
    if "map_of (py_anchors (pl_policy ?s')) tid = Some a" for tid a
  proof -
    have "map_of (py_anchors (pl_policy s4)) tid = Some a" using that by (simp add: emit_all_def)
    from judge_all_anchor [OF busy(4) this] consider "map_of (py_anchors (pl_policy s3)) tid = Some a"
      | det t r where "an_ts a = ts" "(det, Some t, r) \<in> set pending" "t_id t = tid" by blast
    then show ?thesis
    proof cases
      case 1
      then have "\<exists>x \<in> set (pl_sent s3). ob_tracker_id (fst x) = Some tid \<and> ob_ts (fst x) = an_ts a"
        using n a2 by (auto simp: anchored_def backed_def)
      then show ?thesis using judge_all_frame [OF busy(4)] by (auto simp: emit_all_def)
    next
      case (2 det t r)
      then show ?thesis using crops by (force simp: emit_all_def)
    qed
  qed
  then show ?thesis unfolding busy(5) by (simp add: anchored_def backed_def)
qed

lemma reset_gate_ok: "rows_ok s \<Longrightarrow> rows_ok (reset_gate cfg slug s)"
  by (auto simp: rows_ok_def anchored_def reset_gate_def drain_expired_def tracker_forget_def tracker_reset_def Let_def
      distinct_map_filter_key backed_forget split: option.split)

interpretation rows: invariant_system "\<lambda>s. \<exists>nonce. s = pipeline_init nonce" "pipeline_step cfg" rows_ok for cfg
proof
  show "rows_ok s" if "\<exists>nonce. s = pipeline_init nonce" for s
    using that by (auto simp: rows_ok_def anchored_def backed_def pipeline_init_def policy_init_def tracker_init_def)
  show "rows_ok t" if "rows_ok s" "pipeline_step cfg s t" for s t
    using that(2,1)
  proof (induction rule: pipeline_step.induct)
    case (Frame_seen detect slug sz by_broker g s ts)
    then show ?case using anchored_process tracker_keys_process by (simp add: rows_ok_def)
  next
    case (Reconnected s slug)
    then show ?case by (rule reset_gate_ok)
  qed (simp_all add: rows_ok_def anchored_def set_domains_def forget_domains_def)
qed






subsection \<open>A stale identity\<close>

lemma quiet_frame_ages_nobody:
  "accepted cfg detect slug sz by_broker g s = [] \<Longrightarrow> pl_tracker (process_frame cfg detect slug sz ts by_broker g s) = pl_tracker s"
  by (rule process_frame_cases [where cfg = cfg and detect = detect and slug = slug and sz = sz and ts = ts and by_broker = by_broker and g = g and s = s])
    (simp_all add: same_core_def)

lemma same_place_costs_nothing:
  assumes "t_vx t = 0" and "t_vy t = 0" and "geometry (d_xyxy d) = (t_cx t, t_by t, t_w t, t_h t)"
  shows "association_cost (predict ts t) (t_w t, t_h t) (geometry (d_xyxy d)) = 0"
proof -
  obtain x1 y1 x2 y2 where "d_xyxy d = (x1, y1, x2, y2)" by (cases "d_xyxy d")
  with assms(3) have "1 \<le> t_w t" "1 \<le> t_h t" by (auto simp: geometry_def)
  then show ?thesis
    by (simp add: association_cost_def predict_def assms Let_def)
qed

lemma lone_match:
  assumes "t_vx t = 0" and "t_vy t = 0" and "geometry (d_xyxy d) = (t_cx t, t_by t, t_w t, t_h t)" and "0 \<le> tc_max_cost tc"
  shows "match tc ts [t] [geometry (d_xyxy d)] = [(0, 0)]"
  using same_place_costs_nothing [OF assms(1-3), of ts] assms(4)
  by (simp add: match_def candidate_pairs_def Let_def)

text \<open>
  An identity outlives its age limit when nothing moves. Frames without an accepted detection never age a track, and the frame that
  ends such a pause associates before it ages: however long ago the last sight, a detection where a resting track was last seen is
  given that track's id. So a different object, hours later, inherits the identity that \<open>max_age_seconds\<close> was to end.
\<close>

theorem stale_identity_returns:
  assumes "tc_enabled tc" and "0 \<le> tc_max_cost tc" and "key_tracks (camera, d_domain d) s = [t]"
    and "t_vx t = 0" and "t_vy t = 0" and "geometry (d_xyxy d) = (t_cx t, t_by t, t_w t, t_h t)"
    and "tc_max_age tc < ts - t_last_seen t"
  shows "map (t_id \<circ> td_track) (fst (tracker_update tc camera [d] ts s)) = [t_id t]"
proof -
  have m: "match tc ts [t] [geometry (d_xyxy d)] = [(0, 0)]" by (rule lone_match) (use assms in auto)
  obtain t' c where a: "advance tc (geometry (d_xyxy d)) ts t = (t', c)" by fastforce
  have id: "t_id t' = t_id t" using advance_keeps(1) [of tc "geometry (d_xyxy d)" ts t] a by simp
  have "map (t_id \<circ> td_track) (fst (update_domain tc camera (d_domain d) [d] ts s)) = [t_id t]"
    using assms(3) a id by (simp add: update_domain_def Let_def place_def m split: prod.splits)
  moreover have "group_by_domain [d] = [(d_domain d, [d])]" by (simp add: group_by_domain_def)
  ultimately show ?thesis
    using assms(1) by (simp add: tracker_update_def split_beta)
qed

theorem stale_identity_returns_witness:
  "map (t_id \<circ> td_track) (fst (tracker_update demo_tracker_cfg ''gate'' [demo_person 10] 3600
     ((tracker_init ''ab12cd'')\<lparr>tk_tracks := [((''gate'', ''person''), [born ''gate:ab12cd.0:1'' ''person'' Active 0 (geometry (10, 0, 50, 100))])]\<rparr>)))
   = [''gate:ab12cd.0:1'']"
proof -
  let ?t = "born ''gate:ab12cd.0:1'' ''person'' Active 0 (geometry (10, 0, 50, 100))"
  have t: "t_vx ?t = 0" "t_vy ?t = 0" "geometry (10, 0, 50, 100) = (t_cx ?t, t_by ?t, t_w ?t, t_h ?t)" "t_last_seen ?t = 0"
    by (simp_all add: born_def geometry_def)
  have c: "tc_enabled demo_tracker_cfg" "0 \<le> tc_max_cost demo_tracker_cfg" "tc_max_age demo_tracker_cfg = 3"
    by (simp_all add: demo_tracker_cfg_def tracker_config_def)
  have d: "d_xyxy (demo_person 10) = (10, 0, 50, 100)" "d_domain (demo_person 10) = ''person''" by (simp_all add: demo_person_def)
  show ?thesis
    using stale_identity_returns [OF c(1,2) _ t(1,2), of "''gate''" "demo_person 10" "(tracker_init ''ab12cd'')\<lparr>tk_tracks := [((''gate'', ''person''), [?t])]\<rparr>" 3600]
      t(3,4) c(3) d by (simp add: key_tracks_def)
qed

end
