(* ===== verification/Audit_Chain.thy ===== *)
theory Audit_Chain
  imports Prelude
begin

text \<open>
  The audit trail, \<open>services/camera-mgmt/backend/services/audit.py\<close>: canonical payloads, the hash chain, its verification, and the
  capture of login events. SHA-256 is a parameter; the table is the list of its rows in id order, and one call of \<open>log_event\<close> is one
  step, because an advisory lock holds for the whole transaction. Redis and Keycloak answer through parameters.
\<close>

subsection \<open>Canonical JSON\<close>

datatype jvalue =
    TNull
  | TBool bool
  | TNum string                         \<comment> \<open>a number, as the text \<open>json.dumps\<close> prints for it\<close>
  | TStr string
  | TArr "jvalue list"
  | TObj "(string \<times> jvalue) list"

definition hex_char :: "nat \<Rightarrow> char" where
  "hex_char d = (if d < 10 then char_of (48 + d) else char_of (87 + d))"

definition escape_char :: "char \<Rightarrow> string" where
  \<comment> \<open>\<open>ensure_ascii\<close>: everything but the printable ASCII characters is escaped\<close>
  "escape_char c =
     (let n = of_char c :: nat
      in if c = CHR 0x22 then [CHR 0x5C, CHR 0x22] else if n = 92 then [CHR 0x5C, CHR 0x5C]
         else if n = 10 then [CHR 0x5C, CHR ''n''] else if n = 13 then [CHR 0x5C, CHR ''r'']
         else if n = 9 then [CHR 0x5C, CHR ''t''] else if n = 12 then [CHR 0x5C, CHR ''f'']
         else if n = 8 then [CHR 0x5C, CHR ''b'']
         else if n < 32 \<or> 126 < n then [CHR 0x5C, CHR ''u'', CHR ''0'', CHR ''0'', hex_char (n div 16), hex_char (n mod 16)]
         else [c])"

definition quoted :: "string \<Rightarrow> string" where
  "quoted s = CHR 0x22 # concat (map escape_char s) @ [CHR 0x22]"

fun canonical :: "jvalue \<Rightarrow> string" where
  \<comment> \<open>\<open>json.dumps(v, sort_keys=True, separators=(",", ":"))\<close>\<close>
  "canonical TNull = ''null''"
| "canonical (TBool b) = (if b then ''true'' else ''false'')"
| "canonical (TNum s) = s"
| "canonical (TStr s) = quoted s"
| "canonical (TArr xs) = ''['' @ join_with '','' (map canonical xs) @ '']''"
| "canonical (TObj kvs) = ''{'' @ join_with '','' (map snd (sort_key fst (map (\<lambda>(k, v). (k, quoted k @ '':'' @ canonical v)) kvs))) @ ''}''"

subsection \<open>Rows\<close>

type_synonym detail = "(string \<times> jvalue) list"

record audit_event =
  ev_ts :: string                       \<comment> \<open>\<open>ts.isoformat()\<close>\<close>
  ev_actor_type :: string
  ev_actor :: "string option"
  ev_action :: string
  ev_target :: "string option"
  ev_detail :: detail                   \<comment> \<open>\<open>None\<close> and an empty dictionary are the same\<close>
  ev_source_ip :: "string option"
  ev_outcome :: string

record audit_row =
  au_id :: int
  au_event :: audit_event
  au_prev_hash :: "string option"
  au_entry_hash :: string

definition opt_text :: "string option \<Rightarrow> jvalue" where
  "opt_text x = (case x of None \<Rightarrow> TNull | Some s \<Rightarrow> TStr s)"

definition payload :: "audit_event \<Rightarrow> jvalue" where
  "payload e = TObj
     [(''ts'', TStr (ev_ts e)), (''actor_type'', TStr (ev_actor_type e)), (''actor'', opt_text (ev_actor e)),
      (''action'', TStr (ev_action e)), (''target'', opt_text (ev_target e)), (''detail'', TObj (ev_detail e)),
      (''source_ip'', opt_text (ev_source_ip e)), (''outcome'', TStr (ev_outcome e))]"

definition or_empty :: "string option \<Rightarrow> string" where
  "or_empty x = (case x of Some s \<Rightarrow> s | None \<Rightarrow> [])"

definition entry_hash_for :: "(string \<Rightarrow> string) \<Rightarrow> audit_row \<Rightarrow> string" where
  "entry_hash_for sha row = sha (or_empty (au_prev_hash row) @ canonical (payload (au_event row)))"

definition is_intact :: "(string \<Rightarrow> string) \<Rightarrow> audit_row \<Rightarrow> bool" where
  "is_intact sha row \<longleftrightarrow> entry_hash_for sha row = au_entry_hash row"

record audit_log =
  al_rows :: "audit_row list"
  al_seq :: int

definition log_event :: "(string \<Rightarrow> string) \<Rightarrow> bool \<Rightarrow> audit_event \<Rightarrow> audit_log \<Rightarrow> audit_log" where
  \<comment> \<open>the flag says that the transaction commits; a failed one only burns an id\<close>
  "log_event sha ok e s =
     (let i = al_seq s + 1; prev_hash = (if al_rows s = [] then [] else au_entry_hash (last (al_rows s)));
          row = \<lparr>au_id = i, au_event = e, au_prev_hash = (if prev_hash = [] then None else Some prev_hash),
                 au_entry_hash = sha (prev_hash @ canonical (payload e))\<rparr>
      in if ok then \<lparr>al_rows = al_rows s @ [row], al_seq = i\<rparr> else s\<lparr>al_seq := i\<rparr>)"

record chain_report =
  cr_ok :: bool
  cr_count :: nat
  cr_first_broken :: "int option"

fun chain_walk :: "(string \<Rightarrow> string) \<Rightarrow> string \<Rightarrow> audit_row list \<Rightarrow> int option" where
  "chain_walk sha prev [] = None"
| "chain_walk sha prev (row # rows) =
     (if or_empty (au_prev_hash row) \<noteq> prev \<or> \<not> is_intact sha row then Some (au_id row)
      else chain_walk sha (au_entry_hash row) rows)"

definition verify_chain :: "(string \<Rightarrow> string) \<Rightarrow> audit_log \<Rightarrow> chain_report" where
  "verify_chain sha s =
     (case chain_walk sha [] (al_rows s) of
        Some i \<Rightarrow> \<lparr>cr_ok = False, cr_count = length (al_rows s), cr_first_broken = Some i\<rparr>
      | None \<Rightarrow> \<lparr>cr_ok = True, cr_count = length (al_rows s), cr_first_broken = None\<rparr>)"

subsection \<open>Who and where from\<close>

record principal =
  pr_kind :: string
  pr_subject :: "string option"
  pr_session :: "string option"

definition actor_of :: "principal option \<Rightarrow> string \<times> string option" where
  "actor_of p =
     (case p of
        None \<Rightarrow> (''unknown'', None)
      | Some x \<Rightarrow>
          if pr_kind x = ''user'' then (''user'', pr_subject x)
          else if pr_kind x = ''dev'' then (''user'', Some ''dev'')
          else if pr_kind x = ''service'' then (''service'', Some ''internal'')
          else (''unknown'', pr_subject x))"

record request =
  rq_forwarded :: "string option"        \<comment> \<open>the \<open>X-Forwarded-For\<close> header\<close>
  rq_peer :: "string option"

definition client_ip :: "request option \<Rightarrow> string option" where
  "client_ip r =
     (case r of
        None \<Rightarrow> None
      | Some q \<Rightarrow>
          (case rq_forwarded q of
             Some xff \<Rightarrow> if xff \<noteq> [] then Some (py_strip (hd (split_on CHR '','' xff))) else rq_peer q
           | None \<Rightarrow> rq_peer q))"

definition audit_record ::
  "(string \<Rightarrow> string) \<Rightarrow> bool \<Rightarrow> string \<Rightarrow> request option \<Rightarrow> principal option \<Rightarrow> string \<Rightarrow> string option \<Rightarrow> detail \<Rightarrow> string
    \<Rightarrow> audit_log \<Rightarrow> audit_log" where
  \<comment> \<open>\<open>record\<close>\<close>
  "audit_record sha ok now rq p action target detail outcome s =
     (case actor_of p of (actor_type, actor) \<Rightarrow>
        log_event sha ok \<lparr>ev_ts = now, ev_actor_type = actor_type, ev_actor = actor, ev_action = action, ev_target = target,
          ev_detail = detail, ev_source_ip = client_ip rq, ev_outcome = outcome\<rparr> s)"

record login_state =
  ls_log :: audit_log
  ls_sessions :: "string list"           \<comment> \<open>the session keys Redis holds\<close>

definition record_login_once ::
  "(string \<Rightarrow> string) \<Rightarrow> bool \<Rightarrow> bool \<Rightarrow> string \<Rightarrow> request option \<Rightarrow> principal option \<Rightarrow> login_state \<Rightarrow> login_state" where
  \<comment> \<open>the flags say that the audit write commits and that Redis answers; its keys expire after a week, which is not shown\<close>
  "record_login_once sha ok redis now rq p s =
     (case p of
        None \<Rightarrow> s
      | Some x \<Rightarrow>
          if pr_kind x \<noteq> ''user'' \<or> pr_session x \<in> {None, Some []} then s
          else let sid = the (pr_session x);
                   write = (\<lambda>s. s\<lparr>ls_log := audit_record sha ok now rq p ''auth.login'' None [] ''success'' (ls_log s)\<rparr>)
               in if \<not> redis then write s
                  else if sid \<in> set (ls_sessions s) then s
                  else write (s\<lparr>ls_sessions := sid # ls_sessions s\<rparr>))"

subsection \<open>The canonical form determines the payload\<close>

fun normal :: "jvalue \<Rightarrow> jvalue" where
  \<comment> \<open>the value with the keys of every object in order\<close>
  "normal (TArr xs) = TArr (map normal xs)"
| "normal (TObj kvs) = TObj (sort_key fst (map (\<lambda>(k, v). (k, normal v)) kvs))"
| "normal v = v"

fun printed :: "jvalue \<Rightarrow> string" where
  \<comment> \<open>\<open>canonical\<close> without the sorting\<close>
  "printed TNull = ''null''"
| "printed (TBool b) = (if b then ''true'' else ''false'')"
| "printed (TNum s) = s"
| "printed (TStr s) = quoted s"
| "printed (TArr xs) = ''['' @ join_with '','' (map printed xs) @ '']''"
| "printed (TObj kvs) = ''{'' @ join_with '','' (map (\<lambda>(k, v). quoted k @ '':'' @ printed v) kvs) @ ''}''"

lemma insort_map_values: "insort_key fst (k, f k v) (map (\<lambda>(k, v). (k, f k v)) xs) = map (\<lambda>(k, v). (k, f k v)) (insort_key fst (k, v) xs)"
  by (induction xs) auto

lemma sort_map_values: "sort_key fst (map (\<lambda>(k, v). (k, f k v)) xs) = map (\<lambda>(k, v). (k, f k v)) (sort_key fst xs)"
proof (induction xs)
  case (Cons x xs)
  then show ?case using insort_map_values [of "fst x" f "snd x" "sort_key fst xs"] by (cases x) simp
qed simp

lemma canonical_printed: "canonical v = printed (normal v)"
proof (induction v rule: canonical.induct)
  case (5 xs)
  then have "map canonical xs = map (\<lambda>x. printed (normal x)) xs" by simp
  then show ?case by (simp only: canonical.simps normal.simps printed.simps map_map comp_def)
next
  case (6 kvs)
  have "map (\<lambda>(k, v). (k, quoted k @ '':'' @ canonical v)) kvs = map (\<lambda>(k, v). (k, quoted k @ '':'' @ printed v)) (map (\<lambda>(k, v). (k, normal v)) kvs)"
    using 6 by auto
  then show ?case
    by (simp only: canonical.simps normal.simps printed.simps sort_map_values) (simp add: comp_def split_def)
qed simp_all

definition hex_value :: "char \<Rightarrow> nat" where
  "hex_value c = (if of_char c < (58 :: nat) then of_char c - 48 else of_char c - 87)"

definition unescape :: "string \<Rightarrow> char \<times> string" where
  \<comment> \<open>the first character of an escaped text, and the rest of the text\<close>
  "unescape s =
     (if hd s \<noteq> CHR 0x5C then (hd s, tl s)
      else let k = s ! 1
           in if k = CHR ''n'' then (char_of (10 :: nat), drop 2 s) else if k = CHR ''r'' then (char_of (13 :: nat), drop 2 s)
              else if k = CHR ''t'' then (char_of (9 :: nat), drop 2 s) else if k = CHR ''f'' then (char_of (12 :: nat), drop 2 s)
              else if k = CHR ''b'' then (char_of (8 :: nat), drop 2 s)
              else if k = CHR ''u'' then (char_of (16 * hex_value (s ! 4) + hex_value (s ! 5)), drop 6 s)
              else (k, drop 2 s))"

lemma hex_value_char: "d < 16 \<Longrightarrow> hex_value (hex_char d) = d"
  by (auto simp: hex_value_def hex_char_def)

lemma unescape_escape: "unescape (escape_char c @ x) = (c, x)"
proof -
  have n: "of_char c < (256 :: nat)" by simp
  have u: "c = char_of (of_char c :: nat)" by simp
  have b: "char_of (92 :: nat) = CHR 0x5C" by code_simp
  consider "c = CHR 0x22" | "of_char c \<in> {92, 10, 13, 9, 12, 8 :: nat}"
    | "c \<noteq> CHR 0x22" "of_char c \<notin> {92, 10, 13, 9, 12, 8 :: nat}" "of_char c < (32 :: nat) \<or> 126 < (of_char c :: nat)"
    | "c \<noteq> CHR 0x22" "of_char c \<notin> {92, 10, 13, 9, 12, 8 :: nat}" "\<not> (of_char c < (32 :: nat) \<or> 126 < (of_char c :: nat))"
    by blast
  then show ?thesis
  proof cases
    case 1
    then show ?thesis by (simp add: escape_char_def unescape_def)
  next
    case 2
    then show ?thesis using u b by (elim insertE emptyE) (simp_all add: escape_char_def unescape_def Let_def)
  next
    case 3
    have "(of_char c :: nat) div 16 < 16" using n by (simp add: less_mult_imp_div_less)
    then have "char_of (16 * hex_value (hex_char (of_char c div 16)) + hex_value (hex_char (of_char c mod 16))) = c"
      by (simp add: hex_value_char)
    then show ?thesis using 3 by (simp add: escape_char_def unescape_def Let_def)
  next
    case 4
    have "c \<noteq> CHR 0x5C" using 4(2) by auto
    then show ?thesis using 4 by (simp add: escape_char_def unescape_def Let_def)
  qed
qed

lemma escape_head: "escape_char c \<noteq> [] \<and> hd (escape_char c) \<noteq> CHR 0x22"
  by (simp add: escape_char_def Let_def)

lemma quoted_prefix: "quoted s @ x = quoted t @ y \<Longrightarrow> s = t \<and> x = y"
proof -
  have "concat (map escape_char s) @ CHR 0x22 # x = concat (map escape_char t) @ CHR 0x22 # y \<Longrightarrow> s = t \<and> x = y"
  proof (induction s arbitrary: t)
    case Nil
    then show ?case using escape_head by (cases t) (auto simp: hd_append, metis append_is_Nil_conv hd_append2 list.sel(1))
  next
    case (Cons c s)
    show ?case
    proof (cases t)
      case Nil
      then show ?thesis using Cons.prems escape_head [of c] by (cases "escape_char c") auto
    next
      case (Cons d u)
      then have eq: "escape_char c @ concat (map escape_char s) @ CHR 0x22 # x = escape_char d @ concat (map escape_char u) @ CHR 0x22 # y"
        using Cons.prems by simp
      then have "(c, concat (map escape_char s) @ CHR 0x22 # x) = (d, concat (map escape_char u) @ CHR 0x22 # y)"
        using unescape_escape by metis
      then show ?thesis using Cons Cons.IH by simp
    qed
  qed
  then show "quoted s @ x = quoted t @ y \<Longrightarrow> s = t \<and> x = y" by (simp add: quoted_def)
qed

definition delimited :: "string \<Rightarrow> bool" where
  "delimited r \<longleftrightarrow> r = [] \<or> hd r \<in> {CHR '','', CHR '']'', CHR ''}''}"

definition number_text :: "string \<Rightarrow> bool" where
  \<comment> \<open>what \<open>json.dumps\<close> prints for a number: no delimiter in it, and no other value begins like it\<close>
  "number_text s \<longleftrightarrow> s \<noteq> [] \<and> set s \<inter> {CHR '','', CHR '']'', CHR ''}''} = {} \<and>
     hd s \<notin> {CHR ''n'', CHR ''t'', CHR ''f'', CHR 0x22, CHR ''['', CHR ''{''}"

fun numbers_ok :: "jvalue \<Rightarrow> bool" where
  "numbers_ok (TNum s) = number_text s"
| "numbers_ok (TArr xs) = (\<forall>x \<in> set xs. numbers_ok x)"
| "numbers_ok (TObj kvs) = (\<forall>x \<in> set kvs. numbers_ok (snd x))"
| "numbers_ok _ = True"

lemma number_prefix:
  assumes "number_text s" "number_text t" "delimited x" "delimited y" "s @ x = t @ y"
  shows "s = t \<and> x = y"
proof -
  let ?D = "{CHR '','', CHR '']'', CHR ''}''}"
  have tw: "number_text s \<Longrightarrow> delimited x \<Longrightarrow> takeWhile (\<lambda>c. c \<notin> ?D) (s @ x) = s" for s x
    by (cases x) (auto simp: number_text_def delimited_def takeWhile_append takeWhile_eq_all_conv disjoint_iff)
  show ?thesis using tw [OF assms(1,3)] tw [OF assms(2,4)] assms(5) by (metis append_same_eq same_append_eq)
qed

definition kind_of :: "jvalue \<Rightarrow> nat" where
  "kind_of v = (case v of TNull \<Rightarrow> 0 | TBool b \<Rightarrow> if b then 1 else 2 | TNum _ \<Rightarrow> 3 | TStr _ \<Rightarrow> 4 | TArr _ \<Rightarrow> 5 | TObj _ \<Rightarrow> 6)"

definition kind_of_head :: "char \<Rightarrow> nat" where
  "kind_of_head c = (if c = CHR ''n'' then 0 else if c = CHR ''t'' then 1 else if c = CHR ''f'' then 2
     else if c = CHR 0x22 then 4 else if c = CHR ''['' then 5 else if c = CHR ''{'' then 6 else 3)"

lemma printed_head: "numbers_ok v \<Longrightarrow> kind_of_head (hd (printed v @ x)) = kind_of v \<and> printed v \<noteq> []"
  by (cases v) (auto simp: kind_of_def kind_of_head_def number_text_def quoted_def hd_append)

lemma join_prefix:
  assumes "\<And>a b r q. a \<in> set xs \<Longrightarrow> b \<in> set ys \<Longrightarrow> delimited r \<Longrightarrow> delimited q \<Longrightarrow> f a @ r = f b @ q \<Longrightarrow> a = b \<and> r = q"
    and "\<And>a. a \<in> set xs \<union> set ys \<Longrightarrow> f a \<noteq> [] \<and> hd (f a) \<noteq> c"
    and "c = CHR '']'' \<or> c = CHR ''}''"
    and "join_with '','' (map f xs) @ c # r = join_with '','' (map f ys) @ c # q"
  shows "xs = ys \<and> r = q"
  using assms
proof (induction xs arbitrary: ys)
  case Nil
  show ?case
  proof (cases ys)
    case (Cons b bs)
    then show ?thesis using Nil.prems(2) [of b] Nil.prems(4) by (cases "f b") (auto simp: join_with_Cons split: if_splits)
  qed (use Nil.prems(4) in simp)
next
  case (Cons a xs)
  show ?case
  proof (cases ys)
    case Nil
    then show ?thesis using Cons.prems(2) [of a] Cons.prems(4) by (cases "f a") (auto simp: join_with_Cons split: if_splits)
  next
    case (Cons b bs)
    define R where "R = (\<lambda>l r. if l = [] then c # r else CHR '','' # join_with '','' (map f l) @ c # r)"
    have d: "delimited (R l r)" for l r using Cons.prems(3) by (auto simp: R_def delimited_def)
    have "f a @ R xs r = f b @ R bs q" using Cons.prems(4) Cons by (auto simp: join_with_Cons R_def)
    then have ab: "a = b" and rest: "R xs r = R bs q"
      using Cons.prems(1) [OF _ _ d d, of a b] Cons by auto
    have "xs = bs \<and> r = q"
    proof (cases "xs = [] \<or> bs = []")
      case True
      then show ?thesis using rest Cons.prems(3) by (auto simp: R_def split: if_splits)
    next
      case False
      then have "join_with '','' (map f xs) @ c # r = join_with '','' (map f bs) @ c # q" using rest by (simp add: R_def)
      then show ?thesis using Cons.prems Cons by (intro Cons.IH) auto
    qed
    then show ?thesis using ab Cons by simp
  qed
qed

lemma printed_not_closing: "numbers_ok v \<Longrightarrow> printed v \<noteq> [] \<and> hd (printed v) \<notin> {CHR '']'', CHR ''}''}"
  by (cases v) (auto simp: number_text_def quoted_def disjoint_iff hd_in_set)

lemma same_kind: "numbers_ok v \<Longrightarrow> numbers_ok w \<Longrightarrow> printed v @ x = printed w @ y \<Longrightarrow> kind_of w = kind_of v"
  using printed_head by metis

lemma kind_of_shape:
  "kind_of w = 0 \<Longrightarrow> w = TNull" "kind_of w = 1 \<Longrightarrow> w = TBool True" "kind_of w = 2 \<Longrightarrow> w = TBool False"
  "kind_of w = 3 \<Longrightarrow> \<exists>s. w = TNum s" "kind_of w = 4 \<Longrightarrow> \<exists>s. w = TStr s" "kind_of w = 5 \<Longrightarrow> \<exists>xs. w = TArr xs"
  "kind_of w = 6 \<Longrightarrow> \<exists>kvs. w = TObj kvs"
  by (simp_all add: kind_of_def split: jvalue.splits if_splits)

lemma printed_prefix:
  "numbers_ok v \<Longrightarrow> numbers_ok w \<Longrightarrow> delimited x \<Longrightarrow> delimited y \<Longrightarrow> printed v @ x = printed w @ y \<Longrightarrow> v = w \<and> x = y"
proof (induction v arbitrary: w x y)
  case (TNum s)
  then have "kind_of w = 3" using same_kind [of "TNum s" w x y] by (simp add: kind_of_def)
  then obtain u where "w = TNum u" using kind_of_shape(4) by blast
  then show ?case using TNum number_prefix [of s u x y] by simp
next
  case (TArr xs)
  then have "kind_of w = 5" using same_kind [of "TArr xs" w x y] by (simp add: kind_of_def)
  then obtain ys where w: "w = TArr ys" using kind_of_shape(6) by blast
  have "xs = ys \<and> x = y"
  proof (rule join_prefix [where f = printed and c = "CHR '']''"])
    show "a = b \<and> r = q" if "a \<in> set xs" "b \<in> set ys" "delimited r" "delimited q" "printed a @ r = printed b @ q" for a b r q
      using that TArr.IH [of a b r q] TArr.prems w by simp
    show "printed a \<noteq> [] \<and> hd (printed a) \<noteq> CHR '']''" if "a \<in> set xs \<union> set ys" for a
      using that printed_not_closing [of a] TArr.prems w by auto
  qed (use TArr.prems w in auto)
  then show ?case using w by simp
next
  case (TObj kvs)
  then have "kind_of w = 6" using same_kind [of "TObj kvs" w x y] by (simp add: kind_of_def)
  then obtain lws where w: "w = TObj lws" using kind_of_shape(7) by blast
  have "kvs = lws \<and> x = y"
  proof (rule join_prefix [where f = "\<lambda>(k, v). quoted k @ '':'' @ printed v" and c = "CHR ''}''"])
    show "a = b \<and> r = q"
      if "a \<in> set kvs" "b \<in> set lws" "delimited r" "delimited q"
        "(case a of (k, v) \<Rightarrow> quoted k @ '':'' @ printed v) @ r = (case b of (k, v) \<Rightarrow> quoted k @ '':'' @ printed v) @ q" for a b r q
    proof -
      obtain k v l u where ab: "a = (k, v)" "b = (l, u)" by (metis surj_pair)
      with that have "k = l \<and> printed v @ r = printed u @ q"
        using quoted_prefix [of k "'':'' @ printed v @ r" l "'':'' @ printed u @ q"] by simp
      moreover have "numbers_ok v" "numbers_ok u" using that ab TObj.prems w by force+
      ultimately show ?thesis using that ab TObj.IH [of a v u r q] by simp
    qed
  qed (use TObj.prems w in \<open>auto simp: quoted_def\<close>)
  then show ?case using w by simp
next
  case (TStr s)
  then have "kind_of w = 4" using same_kind [of "TStr s" w x y] by (simp add: kind_of_def)
  then obtain u where "w = TStr u" using kind_of_shape(5) by blast
  then show ?case using TStr quoted_prefix [of s x u y] by simp
next
  case (TBool b)
  then have "kind_of w = (if b then 1 else 2)" using same_kind [of "TBool b" w x y] by (simp add: kind_of_def)
  then have "w = TBool b" using kind_of_shape(2,3) by (cases b) auto
  then show ?case using TBool by simp
next
  case TNull
  then have "kind_of w = 0" using same_kind [of TNull w x y] by (simp add: kind_of_def)
  then have "w = TNull" by (rule kind_of_shape(1))
  then show ?case using TNull by simp
qed

lemma numbers_ok_normal: "numbers_ok (normal v) = numbers_ok v"
  by (induction v) auto

lemma canonical_determines:
  assumes "numbers_ok v" "numbers_ok w"
  shows "canonical v = canonical w \<longleftrightarrow> normal v = normal w"
  using printed_prefix [of "normal v" "normal w" "[]" "[]"] assms
  by (auto simp: canonical_printed numbers_ok_normal delimited_def)

subsection \<open>What the chain promises\<close>

definition log_start :: audit_log where
  "log_start = \<lparr>al_rows = [], al_seq = 0\<rparr>"

definition log_all :: "(string \<Rightarrow> string) \<Rightarrow> (bool \<times> audit_event) list \<Rightarrow> audit_log" where
  \<comment> \<open>a history of appends, each with whether its transaction committed\<close>
  "log_all sha evs = fold (\<lambda>(ok, e). log_event sha ok e) evs log_start"

definition chain_end :: "string \<Rightarrow> audit_row list \<Rightarrow> string" where
  "chain_end prev rows = (if rows = [] then prev else au_entry_hash (last rows))"

lemma chain_end_simps [simp]:
  "chain_end prev [] = prev" "chain_end prev (row # rows) = chain_end (au_entry_hash row) rows"
  "chain_end prev (rows @ [row]) = au_entry_hash row"
  by (simp_all add: chain_end_def)

lemma chain_walk_append:
  "chain_walk sha prev (rows @ later) =
     (case chain_walk sha prev rows of Some i \<Rightarrow> Some i | None \<Rightarrow> chain_walk sha (chain_end prev rows) later)"
  by (induction rows arbitrary: prev) (auto split: option.splits)

definition chain_inv :: "(string \<Rightarrow> string) \<Rightarrow> audit_log \<Rightarrow> bool" where
  "chain_inv sha s \<longleftrightarrow> chain_walk sha [] (al_rows s) = None \<and> sorted_wrt (<) (map au_id (al_rows s)) \<and>
     (\<forall>r \<in> set (al_rows s). au_id r \<le> al_seq s)"

lemma or_empty_back: "or_empty (if h = [] then None else Some h) = h"
  by (simp add: or_empty_def)

lemma chain_inv_step: "chain_inv sha s \<Longrightarrow> chain_inv sha (log_event sha ok e s)"
  by (auto simp: chain_inv_def log_event_def Let_def chain_walk_append chain_end_def is_intact_def entry_hash_for_def or_empty_back
      sorted_wrt_append)

lemma chain_inv_all: "chain_inv sha s \<Longrightarrow> chain_inv sha (fold (\<lambda>(ok, e). log_event sha ok e) evs s)"
  by (induction evs arbitrary: s) (auto intro: chain_inv_step)

lemma log_events: "map au_event (al_rows (fold (\<lambda>(ok, e). log_event sha ok e) evs s)) = map au_event (al_rows s) @ map snd (filter fst evs)"
  by (induction evs arbitrary: s) (auto simp: log_event_def Let_def)

lemma log_all_inv: "chain_inv sha (log_all sha evs)"
  unfolding log_all_def by (rule chain_inv_all) (simp add: chain_inv_def log_start_def)

text \<open>
  Every history of appends leaves a log that verifies: whatever was appended, and whichever of the transactions failed (a failed
  one only burns an id), \<open>verify_chain\<close> reports it sound and counts its rows, the ids are strictly increasing, and the rows hold exactly
  the events whose transactions committed, in order.
\<close>

theorem chain_always_verifies:
  "verify_chain sha (log_all sha evs) = \<lparr>cr_ok = True, cr_count = length (filter fst evs), cr_first_broken = None\<rparr> \<and>
   sorted_wrt (<) (map au_id (al_rows (log_all sha evs))) \<and> map au_event (al_rows (log_all sha evs)) = map snd (filter fst evs)"
proof -
  have e: "map au_event (al_rows (log_all sha evs)) = map snd (filter fst evs)"
    by (simp add: log_all_def log_events log_start_def)
  moreover have "length (al_rows (log_all sha evs)) = length (filter fst evs)" using e by (metis length_map)
  ultimately show ?thesis using log_all_inv [of sha evs] by (simp add: verify_chain_def chain_inv_def)
qed

definition hashed_text :: "audit_row \<Rightarrow> string" where
  \<comment> \<open>the text whose hash the row stores\<close>
  "hashed_text row = or_empty (au_prev_hash row) @ canonical (payload (au_event row))"

definition hash_clash :: "(string \<Rightarrow> string) \<Rightarrow> audit_row list \<Rightarrow> audit_row list \<Rightarrow> bool" where
  \<comment> \<open>a collision in hand: two different texts, both hashed in these chains, with one hash\<close>
  "hash_clash sha xs ys \<longleftrightarrow> (\<exists>x \<in> set xs. \<exists>y \<in> set ys. hashed_text x \<noteq> hashed_text y \<and> sha (hashed_text x) = sha (hashed_text y))"

definition hash_shape :: "(string \<Rightarrow> string) \<Rightarrow> bool" where
  \<comment> \<open>a hash is a non-empty text of hexadecimal digits\<close>
  "hash_shape sha \<longleftrightarrow> (\<forall>x. sha x \<noteq> [] \<and> CHR ''{'' \<notin> set (sha x))"

definition same_event :: "audit_event \<Rightarrow> audit_event \<Rightarrow> bool" where
  \<comment> \<open>equal but for the order of the keys inside \<open>detail\<close>, which the database does not keep\<close>
  "same_event d e \<longleftrightarrow> normal (TObj (ev_detail d)) = normal (TObj (ev_detail e)) \<and> d\<lparr>ev_detail := []\<rparr> = e\<lparr>ev_detail := []\<rparr>"

definition event_numbers :: "audit_event \<Rightarrow> bool" where
  "event_numbers e \<longleftrightarrow> numbers_ok (TObj (ev_detail e))"

lemma opt_text_inj [simp]: "normal (opt_text x) = opt_text x" "opt_text x = opt_text y \<longleftrightarrow> x = y" "numbers_ok (opt_text x)"
  by (auto simp: opt_text_def split: option.splits)

lemma payload_determines:
  assumes "event_numbers d" "event_numbers e" "canonical (payload d) = canonical (payload e)"
  shows "same_event d e"
proof -
  have "normal (payload d) = normal (payload e)"
    using assms canonical_determines [of "payload d" "payload e"] by (simp add: payload_def event_numbers_def)
  then show ?thesis by (simp add: payload_def same_event_def insort_key_def)
qed

definition same_row :: "audit_row \<Rightarrow> audit_row \<Rightarrow> bool" where
  "same_row x y \<longleftrightarrow> or_empty (au_prev_hash x) = or_empty (au_prev_hash y) \<and> au_entry_hash x = au_entry_hash y \<and> same_event (au_event x) (au_event y)"

lemma walk_hashes:
  "chain_walk sha prev rows = None \<Longrightarrow> r \<in> set rows \<Longrightarrow> au_entry_hash r = sha (hashed_text r)"
  by (induction rows arbitrary: prev) (auto simp: is_intact_def entry_hash_for_def hashed_text_def split: if_splits)

lemma walk_end_hash: "hash_shape sha \<Longrightarrow> chain_walk sha [] rows = None \<Longrightarrow> chain_end [] rows = [] \<or> chain_end [] rows \<in> range sha"
  using walk_hashes [of sha "[]" rows "last rows"] by (auto simp: chain_end_def)

lemma walk_end_Nil: "hash_shape sha \<Longrightarrow> chain_walk sha [] rows = None \<Longrightarrow> chain_end [] rows = [] \<longleftrightarrow> rows = []"
  using walk_hashes [of sha "[]" rows "last rows"] by (auto simp: chain_end_def hash_shape_def)

lemma hashed_split:
  assumes "CHR ''{'' \<notin> set p" "CHR ''{'' \<notin> set q" "p @ canonical (payload d) = q @ canonical (payload e)"
  shows "p = q \<and> canonical (payload d) = canonical (payload e)"
proof -
  have "takeWhile (\<lambda>c. c \<noteq> CHR ''{'') (p @ canonical (payload d)) = p" if "CHR ''{'' \<notin> set p" for p d
    using that by (auto simp: payload_def takeWhile_append takeWhile_eq_all_conv)
  from this [OF assms(1), of d] this [OF assms(2), of e] assms(3) show ?thesis by (metis same_append_eq)
qed

lemma equal_ends:
  assumes shape: "hash_shape sha"
  shows "chain_walk sha [] xs = None \<Longrightarrow> chain_walk sha [] ys = None \<Longrightarrow> \<forall>r \<in> set (xs @ ys). event_numbers (au_event r) \<Longrightarrow>
    chain_end [] xs = chain_end [] ys \<Longrightarrow> \<not> hash_clash sha xs ys \<Longrightarrow> list_all2 same_row xs ys"
proof (induction xs arbitrary: ys rule: rev_induct)
  case Nil
  then show ?case using walk_end_Nil [OF shape, of ys] by simp
next
  case (snoc x xs)
  have "ys \<noteq> []" using snoc.prems walk_end_Nil [OF shape, of "xs @ [x]"] by auto
  then obtain us y where ys: "ys = us @ [y]" by (cases ys rule: rev_cases) auto
  have wx: "chain_walk sha [] xs = None" "or_empty (au_prev_hash x) = chain_end [] xs" "is_intact sha x"
    using snoc.prems(1) by (auto simp: chain_walk_append split: option.splits if_splits)
  have wy: "chain_walk sha [] us = None" "or_empty (au_prev_hash y) = chain_end [] us" "is_intact sha y"
    using snoc.prems(2) ys by (auto simp: chain_walk_append split: option.splits if_splits)
  have heq: "au_entry_hash x = au_entry_hash y" using snoc.prems(4) ys by simp
  then have "sha (hashed_text x) = sha (hashed_text y)"
    using wx(3) wy(3) by (simp add: is_intact_def entry_hash_for_def hashed_text_def)
  then have "hashed_text x = hashed_text y" using snoc.prems(5) ys by (auto simp: hash_clash_def)
  moreover have "CHR ''{'' \<notin> set (chain_end [] xs)" "CHR ''{'' \<notin> set (chain_end [] us)"
    using walk_end_hash [OF shape wx(1)] walk_end_hash [OF shape wy(1)] shape by (auto simp: hash_shape_def)
  ultimately have prev: "chain_end [] xs = chain_end [] us" and can: "canonical (payload (au_event x)) = canonical (payload (au_event y))"
    using hashed_split [of "chain_end [] xs" "chain_end [] us"] wx(2) wy(2) by (auto simp: hashed_text_def)
  have "list_all2 same_row xs us"
    using snoc.prems ys wx(1) wy(1) prev by (intro snoc.IH) (auto simp: hash_clash_def)
  moreover have "same_event (au_event x) (au_event y)" using payload_determines can snoc.prems(3) ys by simp
  ultimately show ?case using heq wx(2) wy(2) prev unfolding ys
    by (intro list_all2_appendI) (simp_all add: same_row_def [of x y])
qed

text \<open>
  C39. Tampering shows: if two logs both verify and end in the same hash (say the log as it was when its last hash was noted down, and the
  log as it is now) then they have the same number of rows and every row has the same hashes and the same event, up to the order of the
  keys inside \<open>detail\<close>, which the database does not keep; or else the two chains contain a collision of the hash function.
\<close>

theorem tampering_detected:
  assumes "hash_shape sha" and "cr_ok (verify_chain sha s)" and "cr_ok (verify_chain sha t)"
    and "chain_end [] (al_rows s) = chain_end [] (al_rows t)"
    and "list_all (\<lambda>r. event_numbers (au_event r)) (al_rows s @ al_rows t)"
  shows "list_all2 same_row (al_rows s) (al_rows t) \<or> hash_clash sha (al_rows s) (al_rows t)"
proof -
  have "chain_walk sha [] (al_rows s) = None" "chain_walk sha [] (al_rows t) = None"
    using assms(2,3) by (auto simp: verify_chain_def split: option.splits)
  then show ?thesis using equal_ends [OF assms(1)] assms(4,5) by (auto simp: list_all_iff)
qed

definition toy_hash :: "string \<Rightarrow> string" where
  "toy_hash x = [hex_char (length x mod 16)]"

definition sample_event :: "detail \<Rightarrow> audit_event" where
  "sample_event d = \<lparr>ev_ts = ''9'', ev_actor_type = ''u'', ev_actor = Some ''a'', ev_action = ''x'', ev_target = None,
     ev_detail = d, ev_source_ip = None, ev_outcome = ''s''\<rparr>"

definition sample_log :: "detail \<Rightarrow> audit_log" where
  "sample_log d = log_all toy_hash [(True, sample_event d), (False, sample_event []), (True, sample_event [(''n'', TNum ''7'')])]"

lemma toy_hash_shape: "hash_shape toy_hash"
proof -
  have "hex_char d \<noteq> CHR ''{''" if "d < 16" for d
    using that hex_value_char [of d] by (auto simp: hex_value_def)
  from this [THEN not_sym] show ?thesis by (simp add: hash_shape_def toy_hash_def)
qed

lemma sample_log_ok: "cr_ok (verify_chain toy_hash (sample_log d))"
  using log_all_inv [of toy_hash] by (simp add: verify_chain_def chain_inv_def sample_log_def)

theorem tampering_detected_witness:
  "list_all2 same_row (al_rows (sample_log [(''c'', TNum ''3''), (''a'', TBool True)])) (al_rows (sample_log [(''a'', TBool True), (''c'', TNum ''3'')]))
   \<or> hash_clash toy_hash (al_rows (sample_log [(''c'', TNum ''3''), (''a'', TBool True)])) (al_rows (sample_log [(''a'', TBool True), (''c'', TNum ''3'')]))"
  by (rule tampering_detected [where sha = toy_hash, OF toy_hash_shape sample_log_ok sample_log_ok]) code_simp+

lemma tail_loss_unnoticed:
  \<comment> \<open>what the chain alone cannot show: rows cut off at its end\<close>
  "cr_ok (verify_chain sha s) \<Longrightarrow> cr_ok (verify_chain sha (s\<lparr>al_rows := take n (al_rows s)\<rparr>))"
  using chain_walk_append [of sha "[]" "take n (al_rows s)" "drop n (al_rows s)"]
  by (auto simp: verify_chain_def split: option.splits)

subsection \<open>The events of Keycloak\<close>

text \<open>
  Failed logins and logouts are polled from Keycloak by every worker process. A worker reads the events and the high-water mark, takes
  the newer events one by one, oldest first, each guarded by a \<open>SET NX\<close> on its key, and writes the mark when it is done. Times
  are in milliseconds. What Keycloak returns (at most 200 events, newest first) and whether Redis answers are
  parameters; the expiry of the keys after an hour is a step of its own.
\<close>

record kc_event =
  ke_time :: "int option"
  ke_type :: "string option"
  ke_user :: "string option"
  ke_session :: "string option"
  ke_ip :: "string option"
  ke_username :: "string option"
  ke_error :: "string option"            \<comment> \<open>the field \<open>error\<close>\<close>
  ke_inner_error :: "string option"      \<comment> \<open>the same inside \<open>details\<close>\<close>

definition py_get :: "string option \<Rightarrow> string" where
  \<comment> \<open>how an f-string prints what \<open>dict.get\<close> returned\<close>
  "py_get x = (case x of None \<Rightarrow> ''None'' | Some s \<Rightarrow> s)"

definition ke_time_or_0 :: "kc_event \<Rightarrow> int" where
  "ke_time_or_0 ev = (case ke_time ev of None \<Rightarrow> 0 | Some t \<Rightarrow> t)"

definition kc_event_key :: "kc_event \<Rightarrow> string" where
  "kc_event_key ev = ''audit:kc:seen:'' @ py_get (map_option show_int (ke_time ev)) @ '':'' @ py_get (ke_type ev) @ '':'' @
     py_get (ke_user ev) @ '':'' @ py_get (ke_session ev) @ '':'' @ py_get (ke_ip ev)"

definition first_text :: "string option \<Rightarrow> string option \<Rightarrow> string option" where
  \<comment> \<open>\<open>a or b\<close>: an empty text counts as none\<close>
  "first_text a b = (if a \<in> {None, Some []} then b else a)"

definition kc_error_label :: "string \<Rightarrow> string" where
  "kc_error_label err =
     (case map_of
        [(''invalid_user_credentials'', ''invalid credentials''), (''user_not_found'', ''unknown user''),
         (''user_temporarily_disabled'', ''account temporarily locked''), (''user_disabled'', ''account disabled''),
         (''account_temporarily_disabled'', ''account temporarily locked''), (''invalid_token'', ''invalid token''),
         (''expired_code'', ''expired code'')] err of Some l \<Rightarrow> l | None \<Rightarrow> err)"

definition kc_lockout :: "string \<Rightarrow> bool" where
  "kc_lockout err \<longleftrightarrow> err \<in> {''user_temporarily_disabled'', ''account_temporarily_disabled'', ''user_disabled''}"

definition resolve_username ::
  "(string \<Rightarrow> string option) \<Rightarrow> string option \<Rightarrow> (string \<times> string) list \<Rightarrow> string option \<times> (string \<times> string) list" where
  \<comment> \<open>the parameter is Keycloak's answer: \<open>None\<close> for an error or a user without a name\<close>
  "resolve_username ask user cache =
     (if user \<in> {None, Some []} then (None, cache)
      else let u = the user
           in case map_of cache u of
                Some name \<Rightarrow> (Some name, cache)
              | None \<Rightarrow>
                  (case ask u of
                     Some name \<Rightarrow> if name \<noteq> [] then (Some name, AList.update u name cache) else (Some u, cache)
                   | None \<Rightarrow> (Some u, cache)))"

definition kc_audit_event :: "(int \<Rightarrow> string) \<Rightarrow> string \<Rightarrow> string option \<Rightarrow> kc_event \<Rightarrow> audit_event option" where
  \<comment> \<open>the row that \<open>_ingest_kc_event\<close> appends, if any; \<open>clock\<close> prints a time, \<open>now\<close> stands in for a missing one\<close>
  "kc_audit_event clock now who ev =
     (let ts = (if ke_time_or_0 ev \<noteq> 0 then clock (ke_time_or_0 ev) else now)
      in if ke_type ev = Some ''LOGIN_ERROR'' then
           (let err = (case first_text (ke_error ev) (first_text (ke_inner_error ev) None) of Some x \<Rightarrow> x | None \<Rightarrow> ''login_failed'')
            in Some \<lparr>ev_ts = ts, ev_actor_type = ''unknown'', ev_actor = who, ev_action = ''auth.login_failed'', ev_target = None,
                 ev_detail = [(''error'', TStr (kc_error_label err)), (''locked'', TBool (kc_lockout err))],
                 ev_source_ip = ke_ip ev, ev_outcome = ''failure''\<rparr>)
         else if ke_type ev = Some ''LOGOUT'' then
           Some \<lparr>ev_ts = ts, ev_actor_type = ''user'', ev_actor = who, ev_action = ''auth.logout'', ev_target = None,
             ev_detail = [], ev_source_ip = ke_ip ev, ev_outcome = ''success''\<rparr>
         else None)"

record kc_shared =
  ks_log :: audit_log
  ks_seen :: "string list"                \<comment> \<open>the keys Redis holds\<close>
  ks_mark :: int                          \<comment> \<open>the high-water mark, 0 when there is none\<close>
  ks_done :: "kc_event list"              \<comment> \<open>the events ingested so far; a record of the history, which no code reads\<close>

record kc_worker =
  kw_todo :: "kc_event list"              \<comment> \<open>the rest of \<open>fresh\<close>\<close>
  kw_high :: int
  kw_new :: int                           \<comment> \<open>\<open>new_high\<close>\<close>
  kw_names :: "(string \<times> string) list"   \<comment> \<open>\<open>_username_cache\<close>, one per process\<close>

definition kc_begin :: "bool \<Rightarrow> kc_event list \<Rightarrow> kc_shared \<Rightarrow> kc_worker \<Rightarrow> kc_worker" where
  \<comment> \<open>the flag says that Redis answers\<close>
  "kc_begin redis events s w =
     (let high = (if redis then ks_mark s else 0)
      in w\<lparr>kw_todo := sort_key ke_time_or_0 (filter (\<lambda>e. ke_time_or_0 e > high) events), kw_high := high, kw_new := high\<rparr>)"

definition ingest ::
  "(string \<Rightarrow> string) \<Rightarrow> (int \<Rightarrow> string) \<Rightarrow> bool \<Rightarrow> string \<Rightarrow> (string \<Rightarrow> string option) \<Rightarrow> kc_event \<Rightarrow> kc_shared \<Rightarrow> kc_worker
    \<Rightarrow> kc_shared \<times> kc_worker" where
  \<comment> \<open>\<open>_ingest_kc_event\<close>\<close>
  "ingest sha clock ok now ask ev s w =
     (let (who, names) = (if ke_username ev \<in> {None, Some []} then resolve_username ask (ke_user ev) (kw_names w) else (ke_username ev, kw_names w));
          s1 = (case kc_audit_event clock now who ev of None \<Rightarrow> s | Some e \<Rightarrow> s\<lparr>ks_log := log_event sha ok e (ks_log s)\<rparr>)
      in (s1\<lparr>ks_done := ks_done s1 @ [ev]\<rparr>, w\<lparr>kw_names := names\<rparr>))"

definition kc_next ::
  "(string \<Rightarrow> string) \<Rightarrow> (int \<Rightarrow> string) \<Rightarrow> bool \<Rightarrow> bool \<Rightarrow> string \<Rightarrow> (string \<Rightarrow> string option) \<Rightarrow> kc_shared \<Rightarrow> kc_worker
    \<Rightarrow> kc_shared \<times> kc_worker" where
  \<comment> \<open>one round of the loop over \<open>fresh\<close>; \<open>SET NX\<close> is atomic\<close>
  "kc_next sha clock redis ok now ask s w =
     (case kw_todo w of
        [] \<Rightarrow> (s, w)
      | ev # rest \<Rightarrow>
          let first = (\<not> redis \<or> kc_event_key ev \<notin> set (ks_seen s));
              s1 = (if redis \<and> first then s\<lparr>ks_seen := kc_event_key ev # ks_seen s\<rparr> else s);
              (s2, w2) = (if first then ingest sha clock ok now ask ev s1 w else (s1, w))
          in (s2, w2\<lparr>kw_todo := rest, kw_new := max (kw_new w2) (ke_time_or_0 ev)\<rparr>))"

definition kc_finish :: "bool \<Rightarrow> kc_worker \<Rightarrow> kc_shared \<Rightarrow> kc_shared" where
  "kc_finish redis w s = (if kw_new w > kw_high w \<and> redis then s\<lparr>ks_mark := kw_new w\<rparr> else s)"

type_synonym kc_state = "kc_shared \<times> (nat \<Rightarrow> kc_worker)"

inductive kc_step :: "(string \<Rightarrow> string) \<Rightarrow> (int \<Rightarrow> string) \<Rightarrow> kc_state \<Rightarrow> kc_state \<Rightarrow> bool" for sha clock where
  begins: "kc_step sha clock (s, ws) (s, ws(i := kc_begin True events s (ws i)))"
| takes: "kc_next sha clock True ok now ask s (ws i) = (s1, w1) \<Longrightarrow> kc_step sha clock (s, ws) (s1, ws(i := w1))"
| finishes: "kw_todo (ws i) = [] \<Longrightarrow> kc_step sha clock (s, ws) (kc_finish True (ws i) s, ws)"

definition kc_start :: "kc_state \<Rightarrow> bool" where
  \<comment> \<open>no event was ingested, and no worker is in a round; the log and the mark are as an earlier life of the service left them\<close>
  "kc_start c \<longleftrightarrow> (case c of (s, ws) \<Rightarrow> ks_seen s = [] \<and> ks_done s = [] \<and> (\<forall>i. kw_todo (ws i) = []))"

definition kc_inv :: "kc_state \<Rightarrow> bool" where
  "kc_inv c \<longleftrightarrow> distinct (map kc_event_key (ks_done (fst c))) \<and> kc_event_key ` set (ks_done (fst c)) = set (ks_seen (fst c))"

lemma ingest_simps:
  "ks_done (fst (ingest sha clock ok now ask ev s w)) = ks_done s @ [ev]" "ks_seen (fst (ingest sha clock ok now ask ev s w)) = ks_seen s"
  "ks_mark (fst (ingest sha clock ok now ask ev s w)) = ks_mark s" "kw_new (snd (ingest sha clock ok now ask ev s w)) = kw_new w"
  "kw_high (snd (ingest sha clock ok now ask ev s w)) = kw_high w"
  by (auto simp: ingest_def Let_def split: option.splits prod.splits)

lemma kc_next_cases:
  assumes "kw_todo w = ev # rest"
  shows "ks_done (fst (kc_next sha clock True ok now ask s w)) = ks_done s @ (if kc_event_key ev \<in> set (ks_seen s) then [] else [ev])"
    and "set (ks_seen (fst (kc_next sha clock True ok now ask s w))) = insert (kc_event_key ev) (set (ks_seen s))"
    and "kw_todo (snd (kc_next sha clock True ok now ask s w)) = rest"
    and "kw_new (snd (kc_next sha clock True ok now ask s w)) = max (kw_new w) (ke_time_or_0 ev)"
    and "kw_high (snd (kc_next sha clock True ok now ask s w)) = kw_high w"
  using assms by (simp_all add: kc_next_def Let_def split_def ingest_simps insert_absorb)

lemma kc_inv_next: "kc_inv (s, ws) \<Longrightarrow> kc_inv (fst (kc_next sha clock True ok now ask s w), vs)"
proof (cases "kw_todo w")
  case Nil
  then show "kc_inv (s, ws) \<Longrightarrow> ?thesis" by (simp add: kc_next_def kc_inv_def)
next
  case (Cons ev rest)
  then show "kc_inv (s, ws) \<Longrightarrow> ?thesis" by (auto simp: kc_inv_def kc_next_cases [OF Cons])
qed

interpretation kc: invariant_system kc_start "kc_step sha clock" kc_inv for sha clock
proof unfold_locales
  show "kc_inv c" if "kc_start c" for c using that by (simp add: kc_start_def kc_inv_def split: prod.splits)
  show "kc_inv d" if "kc_inv c" "kc_step sha clock c d" for c d
    using that(2,1)
  proof cases
    case (takes ok now ask s ws i s1 w1)
    then show ?thesis using that(1) kc_inv_next [of s ws sha clock ok now ask "ws i" "ws(i := w1)"] by simp
  qed (auto simp: kc_inv_def kc_finish_def)
qed





lemma missed_event_is_lost:
  \<comment> \<open>what the mark costs: an event that a poll did not return, because it came later with an earlier time or fell out of the 200 newest\<close>
  "ke_time_or_0 e \<le> ks_mark s \<Longrightarrow> e \<notin> set (kw_todo (kc_begin True events s w))"
  by (auto simp: kc_begin_def Let_def)





end
