(* ===== verification/Search_Store.thy ===== *)
theory Search_Store
  imports Prelude
begin

text \<open>
  The index of Smart Search, \<open>services/smartsearch/index/store.py\<close> and \<open>domains.py\<close>: rows of crops in one table per domain, their JPEG
  files, the deadline each row carries, expiry, erasure and the sweep of orphaned files. A table is the list of its rows in physical
  order; \<open>LIMIT\<close> takes the first. Whether the database answers its \<open>k\<close>-th statement is a parameter; a statement that fails changes
  nothing. Columns that no operation here reads (embedding, box, confidence, plate) are left out.
\<close>

subsection \<open>Domains and rows\<close>

datatype domain = Person | Vehicles | Face

definition all_domains :: "domain list" where
  "all_domains = [Person, Vehicles, Face]"

definition domain_of :: "string \<Rightarrow> domain option" where
  \<comment> \<open>\<open>spec\<close>; \<open>None\<close> is the \<open>KeyError\<close>\<close>
  "domain_of n = map_of [(''person'', Person), (''vehicles'', Vehicles), (''face'', Face)] n"

definition keeps_frames :: "domain \<Rightarrow> bool" where
  "keeps_frames d \<longleftrightarrow> d \<noteq> Face"

record irow =
  ir_id :: int
  ir_camera :: string
  ir_ts :: epoch
  ir_expires :: epoch
  ir_crop :: path
  ir_frame :: "path option"

record istore =
  is_rows :: "domain \<Rightarrow> irow list"
  is_seq :: int
  is_fs :: fs
  is_retention :: "(string, rat) dict"    \<comment> \<open>\<open>_camera_retention\<close>, in seconds\<close>
  is_default :: rat                       \<comment> \<open>\<open>_retention\<close>\<close>
  is_calls :: nat                         \<comment> \<open>statements sent so far\<close>

definition day_seconds :: rat where
  "day_seconds = 86400"

definition retention_for :: "istore \<Rightarrow> string \<Rightarrow> rat" where
  "retention_for s camera = (case map_of (is_retention s) camera of Some v \<Rightarrow> v | None \<Rightarrow> is_default s)"

subsection \<open>Writing\<close>

record new_row =
  nr_camera :: string
  nr_ts :: epoch
  nr_crop :: path
  nr_frame :: "path option"

definition stamp :: "istore \<Rightarrow> domain \<Rightarrow> int \<Rightarrow> new_row \<Rightarrow> irow" where
  "stamp s d i r = \<lparr>ir_id = i, ir_camera = nr_camera r, ir_ts = nr_ts r, ir_expires = nr_ts r + retention_for s (nr_camera r),
     ir_crop = nr_crop r, ir_frame = (if keeps_frames d then nr_frame r else None)\<rparr>"

definition write_batch :: "(nat \<Rightarrow> bool) \<Rightarrow> string \<Rightarrow> new_row list \<Rightarrow> istore \<Rightarrow> nat \<times> istore" where
  \<comment> \<open>one transaction; a failed one burns its ids\<close>
  "write_batch answers name rows s =
     (if rows = [] then (0, s)
      else case domain_of name of
             None \<Rightarrow> (0, s)
           | Some d \<Rightarrow>
               let new_rows = map (\<lambda>(i, r). stamp s d i r) (zip [is_seq s + 1 .. is_seq s + int (length rows)] rows);
                   s1 = s\<lparr>is_seq := is_seq s + int (length rows), is_calls := Suc (is_calls s)\<rparr>
               in if answers (is_calls s) then (length rows, s1\<lparr>is_rows := (is_rows s)(d := is_rows s d @ new_rows)\<rparr>)
                  else (0, s1))"

subsection \<open>A camera's retention\<close>

definition stale :: "string \<Rightarrow> rat \<Rightarrow> irow \<Rightarrow> bool" where
  "stale camera iv r \<longleftrightarrow> ir_camera r = camera \<and> ir_expires r \<noteq> ir_ts r + iv"

definition restamp_batch :: "nat" where
  "restamp_batch = 5000"

partial_function (option) restamp_loop :: "(nat \<Rightarrow> bool) \<Rightarrow> string \<Rightarrow> rat \<Rightarrow> domain \<Rightarrow> nat \<Rightarrow> istore \<Rightarrow> (bool \<times> nat \<times> istore) option" where
  \<comment> \<open>the \<open>while True\<close> over one table; \<open>False\<close> is the database error\<close>
  "restamp_loop answers camera iv d n s =
     (let s1 = s\<lparr>is_calls := Suc (is_calls s)\<rparr>
      in if \<not> answers (is_calls s) then Some (False, n, s1)
         else let ids = map ir_id (take restamp_batch (filter (stale camera iv) (is_rows s d)))
              in if ids = [] then Some (True, n, s1)
                 else restamp_loop answers camera iv d (n + length ids)
                        (s1\<lparr>is_rows := (is_rows s)(d :=
                           map (\<lambda>r. if ir_id r \<in> set ids then r\<lparr>ir_expires := ir_ts r + iv\<rparr> else r) (is_rows s d))\<rparr>))"

declare restamp_loop.simps [code]

fun restamp_all :: "(nat \<Rightarrow> bool) \<Rightarrow> string \<Rightarrow> rat \<Rightarrow> domain list \<Rightarrow> nat \<Rightarrow> istore \<Rightarrow> (bool \<times> nat \<times> istore) option" where
  "restamp_all answers camera iv [] n s = Some (True, n, s)"
| "restamp_all answers camera iv (d # ds) n s =
     (case restamp_loop answers camera iv d n s of
        None \<Rightarrow> None
      | Some (ok, m, t) \<Rightarrow> if ok then restamp_all answers camera iv ds m t else Some (False, m, t))"

record restamp_out =
  ro_restamped :: nat
  ro_changed :: bool
  ro_error :: bool

definition interval_of :: "int option \<Rightarrow> rat option" where
  \<comment> \<open>\<open>timedelta(days=days) if days else None\<close>\<close>
  "interval_of days = (case days of None \<Rightarrow> None | Some n \<Rightarrow> if n = 0 then None else Some (of_int n * day_seconds))"

definition adopt_retention :: "string \<Rightarrow> rat option \<Rightarrow> istore \<Rightarrow> istore" where
  \<comment> \<open>the change of \<open>_camera_retention\<close> under its lock\<close>
  "adopt_retention camera interval s =
     s\<lparr>is_retention := (case interval of None \<Rightarrow> AList.delete camera (is_retention s)
                       | Some iv \<Rightarrow> AList.update camera iv (is_retention s))\<rparr>"

definition set_camera_retention ::
  "(nat \<Rightarrow> bool) \<Rightarrow> string \<Rightarrow> int option \<Rightarrow> istore \<Rightarrow> (restamp_out \<times> istore) option" where
  "set_camera_retention answers camera days s =
     (let interval = interval_of days; previous = map_of (is_retention s) camera; s1 = adopt_retention camera interval s;
          effective = (case interval of None \<Rightarrow> is_default s | Some iv \<Rightarrow> iv)
      in if previous = interval then Some (\<lparr>ro_restamped = 0, ro_changed = False, ro_error = False\<rparr>, s1)
         else case restamp_all answers camera effective all_domains 0 s1 of
                None \<Rightarrow> None
              | Some (ok, n, t) \<Rightarrow> Some (\<lparr>ro_restamped = n, ro_changed = True, ro_error = \<not> ok\<rparr>, t))"

subsection \<open>Deleting rows and their files\<close>

record tally =
  ta_rows :: "domain \<Rightarrow> nat"
  ta_crops :: nat
  ta_crops_failed :: nat
  ta_frames :: nat
  ta_frames_failed :: nat

definition no_tally :: tally where
  "no_tally = \<lparr>ta_rows = (\<lambda>_. 0), ta_crops = 0, ta_crops_failed = 0, ta_frames = 0, ta_frames_failed = 0\<rparr>"

fun unlink_each :: "path list \<Rightarrow> fs \<Rightarrow> nat \<Rightarrow> nat \<Rightarrow> fs \<times> nat \<times> nat" where
  \<comment> \<open>unlink a list of files, counting the removed and the failed; one that is already gone is neither\<close>
  "unlink_each [] w done failed = (w, done, failed)"
| "unlink_each (p # ps) w done failed =
     (if p \<notin> set (dict_keys (fs_files w)) then unlink_each ps w done failed
      else case unlink p w of
             None \<Rightarrow> unlink_each ps w done (Suc failed)
           | Some w1 \<Rightarrow> unlink_each ps w1 (Suc done) failed)"

definition unlink_rows :: "domain \<Rightarrow> irow list \<Rightarrow> fs \<Rightarrow> tally \<Rightarrow> fs \<times> tally" where
  "unlink_rows d got w t =
     (let (w1, c, cf) = unlink_each (map ir_crop got) w (ta_crops t) (ta_crops_failed t);
          (w2, f, ff) = unlink_each (filter (\<lambda>p. p \<noteq> []) (List.map_filter ir_frame got)) w1 (ta_frames t) (ta_frames_failed t)
      in (w2, t\<lparr>ta_rows := (ta_rows t)(d := ta_rows t d + length got), ta_crops := c, ta_crops_failed := cf, ta_frames := f, ta_frames_failed := ff\<rparr>))"

partial_function (option) delete_loop ::
  "(nat \<Rightarrow> bool) \<Rightarrow> nat \<Rightarrow> (irow \<Rightarrow> bool) \<Rightarrow> domain \<Rightarrow> tally \<Rightarrow> istore \<Rightarrow> (bool \<times> tally \<times> istore) option" where
  \<comment> \<open>the \<open>while True\<close> over one table: \<open>DELETE ... LIMIT ... RETURNING\<close>, then the files of the rows it returned\<close>
  "delete_loop answers limit sel d t s =
     (let s1 = s\<lparr>is_calls := Suc (is_calls s)\<rparr>
      in if \<not> answers (is_calls s) then Some (False, t, s1)
         else let got = take limit (filter sel (is_rows s d))
              in if got = [] then Some (True, t, s1)
                 else let (w, t1) = unlink_rows d got (is_fs s) t
                      in delete_loop answers limit sel d t1
                           (s1\<lparr>is_rows := (is_rows s)(d := filter (\<lambda>r. ir_id r \<notin> ir_id ` set got) (is_rows s d)), is_fs := w\<rparr>))"

declare delete_loop.simps [code]

fun delete_all ::
  "(nat \<Rightarrow> bool) \<Rightarrow> nat \<Rightarrow> (irow \<Rightarrow> bool) \<Rightarrow> domain list \<Rightarrow> tally \<Rightarrow> istore \<Rightarrow> (bool \<times> tally \<times> istore) option" where
  "delete_all answers limit sel [] t s = Some (True, t, s)"
| "delete_all answers limit sel (d # ds) t s =
     (case delete_loop answers limit sel d t s of
        None \<Rightarrow> None
      | Some (ok, t1, s1) \<Rightarrow> if ok then delete_all answers limit sel ds t1 s1 else Some (False, t1, s1))"

definition erase_batch :: nat where
  "erase_batch = 2000"

definition expire_batch :: nat where
  "expire_batch = 5000"

definition row_in_window :: "string \<Rightarrow> epoch \<Rightarrow> epoch \<Rightarrow> irow \<Rightarrow> bool" where
  "row_in_window camera lo hi r \<longleftrightarrow> ir_camera r = camera \<and> lo \<le> ir_ts r \<and> ir_ts r \<le> hi"

definition erase_range :: "(nat \<Rightarrow> bool) \<Rightarrow> string \<Rightarrow> epoch \<Rightarrow> epoch \<Rightarrow> istore \<Rightarrow> (bool \<times> tally \<times> istore) option" where
  \<comment> \<open>\<open>False\<close>: it raises, with the tally lost and the rows of the batches so far gone\<close>
  "erase_range answers camera lo hi s = delete_all answers erase_batch (row_in_window camera lo hi) all_domains no_tally s"

definition expire_once :: "(nat \<Rightarrow> bool) \<Rightarrow> epoch \<Rightarrow> istore \<Rightarrow> (bool \<times> tally \<times> istore) option" where
  \<comment> \<open>\<open>False\<close>: it returns with an error; failed frames are not counted here, which the tally ignores\<close>
  "expire_once answers now s =
     (case delete_all answers expire_batch (\<lambda>r. ir_expires r \<le> now) all_domains no_tally s of
        None \<Rightarrow> None
      | Some (ok, t, s1) \<Rightarrow> Some (ok, t\<lparr>ta_frames_failed := 0\<rparr>, s1))"

subsection \<open>Orphaned files\<close>

definition orphan_grace :: rat where
  "orphan_grace = 3600"

record orphan_out =
  oo_removed :: nat
  oo_recent :: nat
  oo_failed :: nat
  oo_partials :: nat
  oo_missing :: nat
  oo_empty :: nat

definition crops_of :: "istore \<Rightarrow> path list" where
  "crops_of s = remdups (concat (map (\<lambda>d. map ir_crop (is_rows s d)) all_domains))"

definition frames_of :: "istore \<Rightarrow> path list" where
  "frames_of s = filter (\<lambda>p. p \<noteq> []) (List.map_filter ir_frame (concat (map (is_rows s) (filter keeps_frames all_domains))))"

definition below :: "path \<Rightarrow> string \<Rightarrow> fs \<Rightarrow> path list" where
  \<comment> \<open>\<open>root.rglob("*" + suffix)\<close>\<close>
  "below base suffix w = filter (\<lambda>p. py_startswith p (base @ ''/'') \<and> py_endswith (base_name p) suffix) (dict_keys (fs_files w))"

fun sweep_partials :: "rat \<Rightarrow> path list \<Rightarrow> fs \<Rightarrow> orphan_out \<Rightarrow> fs \<times> orphan_out" where
  "sweep_partials cutoff [] w out = (w, out)"
| "sweep_partials cutoff (p # ps) w out =
     (case map_of (fs_files w) p of
        None \<Rightarrow> sweep_partials cutoff ps w out
      | Some i \<Rightarrow>
          if fs_stat_err w p then sweep_partials cutoff ps w (out\<lparr>oo_failed := Suc (oo_failed out)\<rparr>)
          else if fi_mtime i > cutoff then sweep_partials cutoff ps w (out\<lparr>oo_recent := Suc (oo_recent out)\<rparr>)
          else case unlink p w of
                 None \<Rightarrow> sweep_partials cutoff ps w (out\<lparr>oo_failed := Suc (oo_failed out)\<rparr>)
               | Some w1 \<Rightarrow> sweep_partials cutoff ps w1 (out\<lparr>oo_partials := Suc (oo_partials out)\<rparr>))"

fun sweep_crops :: "rat \<Rightarrow> path list \<Rightarrow> path list \<Rightarrow> path list \<Rightarrow> fs \<Rightarrow> path list \<Rightarrow> orphan_out \<Rightarrow> fs \<times> path list \<times> orphan_out" where
  \<comment> \<open>the last path list is \<open>seen\<close>\<close>
  "sweep_crops cutoff crops referenced [] w seen out = (w, seen, out)"
| "sweep_crops cutoff crops referenced (p # ps) w seen out =
     (case map_of (fs_files w) p of
        None \<Rightarrow> sweep_crops cutoff crops referenced ps w seen out
      | Some i \<Rightarrow>
          if fs_stat_err w p then sweep_crops cutoff crops referenced ps w seen (out\<lparr>oo_failed := Suc (oo_failed out)\<rparr>)
          else if p \<in> set referenced then
            sweep_crops cutoff crops referenced ps w (p # seen)
              (if fi_size i = 0 \<and> p \<in> set crops then out\<lparr>oo_empty := Suc (oo_empty out)\<rparr> else out)
          else if fi_mtime i > cutoff then sweep_crops cutoff crops referenced ps w seen (out\<lparr>oo_recent := Suc (oo_recent out)\<rparr>)
          else case unlink p w of
                 None \<Rightarrow> sweep_crops cutoff crops referenced ps w seen (out\<lparr>oo_failed := Suc (oo_failed out)\<rparr>)
               | Some w1 \<Rightarrow> sweep_crops cutoff crops referenced ps w1 seen (out\<lparr>oo_removed := Suc (oo_removed out)\<rparr>))"

definition sweep_orphans :: "bool \<Rightarrow> rat \<Rightarrow> path \<Rightarrow> rat option \<Rightarrow> istore \<Rightarrow> orphan_out \<times> istore" where
  \<comment> \<open>the flag says that the database answers the three queries; without them nothing is touched\<close>
  "sweep_orphans answers now base grace s =
     (let none = \<lparr>oo_removed = 0, oo_recent = 0, oo_failed = 0, oo_partials = 0, oo_missing = 0, oo_empty = 0\<rparr>
      in if base \<notin> set (fs_dirs (is_fs s)) \<or> \<not> answers then (none, s)
         else let crops = crops_of s; referenced = crops @ frames_of s;
                  cutoff = now - (case grace of None \<Rightarrow> orphan_grace | Some g \<Rightarrow> g);
                  (w1, seen, o1) = sweep_crops cutoff crops referenced (below base ''.jpg'' (is_fs s)) (is_fs s) [] none;
                  (w2, o2) = sweep_partials cutoff (below base ''.jpg.part'' w1) w1 o1
              in (o2\<lparr>oo_missing := length (filter (\<lambda>c. c \<notin> set seen) crops)\<rparr>, s\<lparr>is_fs := w2\<rparr>))"

subsection \<open>The loops end\<close>

definition restamped :: "string \<Rightarrow> rat \<Rightarrow> irow \<Rightarrow> irow" where
  "restamped camera iv r = (if ir_camera r = camera then r\<lparr>ir_expires := ir_ts r + iv\<rparr> else r)"

definition ids_distinct :: "istore \<Rightarrow> bool" where
  "ids_distinct s \<longleftrightarrow> (\<forall>d. distinct (map ir_id (is_rows s d)) \<and> (\<forall>r \<in> set (is_rows s d). ir_id r \<le> is_seq s))"

definition same_but_rows :: "istore \<Rightarrow> istore \<Rightarrow> bool" where
  "same_but_rows s t \<longleftrightarrow> is_seq t = is_seq s \<and> is_fs t = is_fs s \<and> is_retention t = is_retention s \<and> is_default t = is_default s"

lemma same_but_rows_trans: "same_but_rows s t \<Longrightarrow> same_but_rows t u \<Longrightarrow> same_but_rows s u"
  by (simp add: same_but_rows_def)

lemma restamped_id [simp]: "ir_id (restamped camera iv r) = ir_id r" "ir_camera (restamped camera iv r) = ir_camera r"
  "restamped camera iv (restamped camera iv r) = restamped camera iv r" "\<not> stale camera iv (restamped camera iv r)"
  by (simp_all add: restamped_def stale_def)

lemma not_stale: "\<not> stale camera iv r \<longleftrightarrow> restamped camera iv r = r"
  by (cases r) (auto simp: restamped_def stale_def)

definition restamp_some :: "int set \<Rightarrow> string \<Rightarrow> rat \<Rightarrow> irow list \<Rightarrow> irow list" where
  "restamp_some ids camera iv rows = map (\<lambda>r. if ir_id r \<in> ids then restamped camera iv r else r) rows"

lemma distinct_id_eq: "distinct (map f xs) \<Longrightarrow> x \<in> set xs \<Longrightarrow> y \<in> set xs \<Longrightarrow> f x = f y \<longleftrightarrow> x = y"
  by (metis inj_onD distinct_map)

lemma restamp_step:
  assumes "distinct (map ir_id rows)" "ids = map ir_id (take n (filter (stale camera iv) rows))"
  shows "map (\<lambda>r. if ir_id r \<in> set ids then r\<lparr>ir_expires := ir_ts r + iv\<rparr> else r) rows = restamp_some (set ids) camera iv rows"
proof -
  have "ir_camera r = camera" if r: "r \<in> set rows" "ir_id r \<in> set ids" for r
  proof -
    obtain q where q: "q \<in> set (take n (filter (stale camera iv) rows))" "ir_id q = ir_id r" using r(2) assms(2) by auto
    then have "q \<in> set rows" "stale camera iv q" by (auto dest: in_set_takeD)
    then show ?thesis using q(2) r(1) distinct_id_eq [OF assms(1), of q r] by (auto simp: stale_def)
  qed
  then show ?thesis by (auto simp: restamp_some_def restamped_def)
qed

lemma restamp_some_stale:
  assumes "distinct (map ir_id rows)" "ids = map ir_id (take n (filter (stale camera iv) rows))" "ids \<noteq> []"
  shows "length (filter (stale camera iv) (restamp_some (set ids) camera iv rows)) < length (filter (stale camera iv) rows)"
proof -
  have "filter (stale camera iv) (restamp_some I camera iv xs) = filter (\<lambda>r. stale camera iv r \<and> ir_id r \<notin> I) xs" for I xs
    by (induction xs) (auto simp: restamp_some_def)
  moreover have "length (filter (\<lambda>r. stale camera iv r \<and> ir_id r \<notin> set ids) rows) < length (filter (stale camera iv) rows)"
  proof -
    obtain q where "q \<in> set (take n (filter (stale camera iv) rows))" using assms(2,3) by (metis list.map_disc_iff list.set_intros(1) neq_Nil_conv)
    then have "q \<in> set (filter (stale camera iv) rows)" "ir_id q \<in> set ids" using assms(2) by (auto dest: in_set_takeD)
    then have "length (filter (\<lambda>r. ir_id r \<notin> set ids) (filter (stale camera iv) rows)) < length (filter (stale camera iv) rows)"
      by (intro length_filter_less [where x = q]) auto
    then show ?thesis by (simp add: filter_filter conj_commute)
  qed
  ultimately show ?thesis by simp
qed

lemma restamp_loop_spec:
  assumes "distinct (map ir_id (is_rows s d))"
  shows "\<exists>ok m t I. restamp_loop answers camera iv d n s = Some (ok, m, t) \<and> is_rows t = (is_rows s)(d := restamp_some I camera iv (is_rows s d)) \<and>
    same_but_rows s t \<and> (ok \<longrightarrow> is_rows t d = map (restamped camera iv) (is_rows s d)) \<and> ((\<forall>k. answers k) \<longrightarrow> ok)"
  using assms
proof (induction "length (filter (stale camera iv) (is_rows s d))" arbitrary: s n rule: less_induct)
  case less
  let ?ids = "map ir_id (take restamp_batch (filter (stale camera iv) (is_rows s d)))"
  let ?s1 = "s\<lparr>is_calls := Suc (is_calls s)\<rparr>"
  have none: "restamp_some {} camera iv rows = rows" for rows by (simp add: restamp_some_def)
  consider (down) "\<not> answers (is_calls s)" | (dry) "answers (is_calls s)" "?ids = []" | (more) "answers (is_calls s)" "?ids \<noteq> []" by blast
  then show ?case
  proof cases
    case down
    then show ?thesis by (intro exI [of _ False] exI [of _ n] exI [of _ ?s1] exI [of _ "{}"])
        (simp add: restamp_loop.simps [of _ _ _ _ _ s] same_but_rows_def none fun_upd_triv; auto)
  next
    case dry
    then have "filter (stale camera iv) (is_rows s d) = []" by (simp add: restamp_batch_def)
    then have "map (restamped camera iv) (is_rows s d) = is_rows s d" by (auto simp: filter_empty_conv not_stale intro: map_idI)
    then show ?thesis using dry by (intro exI [of _ True] exI [of _ n] exI [of _ ?s1] exI [of _ "{}"])
        (simp add: restamp_loop.simps [of _ _ _ _ _ s] same_but_rows_def none Let_def)
  next
    case more
    let ?s2 = "?s1\<lparr>is_rows := (is_rows s)(d := restamp_some (set ?ids) camera iv (is_rows s d))\<rparr>"
    have unfold: "restamp_loop answers camera iv d n s = restamp_loop answers camera iv d (n + length ?ids) ?s2"
      using more restamp_step [OF less.prems refl, of restamp_batch camera iv]
      by (subst restamp_loop.simps) (simp add: Let_def del: length_map)
    have lt: "length (filter (stale camera iv) (is_rows ?s2 d)) < length (filter (stale camera iv) (is_rows s d))"
      using restamp_some_stale [OF less.prems refl more(2)] by simp
    have "distinct (map ir_id (is_rows ?s2 d))" using less.prems by (simp add: restamp_some_def comp_def if_distrib cong: if_cong)
    from less.hyps [OF lt this, of "n + length ?ids"] obtain ok m t I where
      t: "restamp_loop answers camera iv d (n + length ?ids) ?s2 = Some (ok, m, t)"
        "is_rows t = (is_rows ?s2)(d := restamp_some I camera iv (is_rows ?s2 d))" "same_but_rows ?s2 t"
        "ok \<longrightarrow> is_rows t d = map (restamped camera iv) (is_rows ?s2 d)" "(\<forall>k. answers k) \<longrightarrow> ok" by blast
    have two: "restamp_some I camera iv (restamp_some J camera iv rows) = restamp_some (I \<union> J) camera iv rows" for I J rows
      by (auto simp: restamp_some_def)
    have one: "map (restamped camera iv) (restamp_some J camera iv rows) = map (restamped camera iv) rows" for J rows
      by (simp add: restamp_some_def)
    show ?thesis
      unfolding unfold
      by (intro exI [of _ ok] exI [of _ m] exI [of _ t] exI [of _ "I \<union> set ?ids"])
        (use t in \<open>simp add: two one same_but_rows_def\<close>)
  qed
qed

lemma restamp_some_id [simp]: "map ir_id (restamp_some I camera iv rows) = map ir_id rows"
  by (simp add: restamp_some_def comp_def if_distrib cong: if_cong)

lemma restamp_some_le: "(\<forall>r \<in> set (restamp_some I camera iv rows). ir_id r \<le> m) \<longleftrightarrow> (\<forall>r \<in> set rows. ir_id r \<le> m)"
proof -
  have "(\<forall>r \<in> set xs. ir_id r \<le> m) \<longleftrightarrow> (\<forall>i \<in> set (map ir_id xs). i \<le> m)" for xs by simp
  from this [of rows] this [of "restamp_some I camera iv rows"] show ?thesis by (simp only: restamp_some_id)
qed

lemma restamp_some_none: "restamp_some {} camera iv rows = rows"
  by (simp add: restamp_some_def)

lemma restamp_all_spec:
  assumes "ids_distinct s" "distinct ds"
  shows "\<exists>ok m t. restamp_all answers camera iv ds n s = Some (ok, m, t) \<and> same_but_rows s t \<and>
    (\<forall>d. \<exists>I. is_rows t d = restamp_some I camera iv (is_rows s d)) \<and> (\<forall>d. d \<notin> set ds \<longrightarrow> is_rows t d = is_rows s d) \<and>
    (ok \<longrightarrow> (\<forall>d \<in> set ds. is_rows t d = map (restamped camera iv) (is_rows s d))) \<and> ((\<forall>k. answers k) \<longrightarrow> ok)"
  using assms
proof (induction ds arbitrary: n s)
  case Nil
  show ?case
    by (intro exI [of _ True] exI [of _ n] exI [of _ s]) (simp add: same_but_rows_def, metis restamp_some_none)
next
  case (Cons d ds)
  have "distinct (map ir_id (is_rows s d))" using Cons.prems by (simp add: ids_distinct_def)
  from restamp_loop_spec [OF this, of answers camera iv n] obtain ok m t I where
    t: "restamp_loop answers camera iv d n s = Some (ok, m, t)" "is_rows t = (is_rows s)(d := restamp_some I camera iv (is_rows s d))"
      "same_but_rows s t" "ok \<longrightarrow> is_rows t d = map (restamped camera iv) (is_rows s d)" "(\<forall>k. answers k) \<longrightarrow> ok" by blast
  have one: "\<exists>I. is_rows t e = restamp_some I camera iv (is_rows s e)" for e
    using t(2) restamp_some_none [of camera iv "is_rows s e"] by (cases "e = d") (auto intro: exI [of _ I], metis)
  show ?case
  proof (cases ok)
    case False
    then show ?thesis using t one by auto
  next
    case True
    have "ids_distinct t"
      using Cons.prems(1) t(2,3) by (auto simp: ids_distinct_def same_but_rows_def restamp_some_le)
    from Cons.IH [OF this, of m] Cons.prems(2) obtain ok2 m2 u where
      u: "restamp_all answers camera iv ds m t = Some (ok2, m2, u)" "same_but_rows t u"
        "\<forall>d. \<exists>I. is_rows u d = restamp_some I camera iv (is_rows t d)" "\<forall>d. d \<notin> set ds \<longrightarrow> is_rows u d = is_rows t d"
        "ok2 \<longrightarrow> (\<forall>d \<in> set ds. is_rows u d = map (restamped camera iv) (is_rows t d))" "(\<forall>k. answers k) \<longrightarrow> ok2" by auto
    have two: "\<exists>I. is_rows u e = restamp_some I camera iv (is_rows s e)" for e
    proof (cases "e = d")
      case True
      then show ?thesis using u(4) Cons.prems(2) one by simp
    next
      case False
      then show ?thesis using spec [OF u(3), of e] t(2) by simp
    qed
    show ?thesis using t(1) True u two t(2,4) Cons.prems(2) same_but_rows_trans [OF t(3) u(2)] by auto
  qed
qed

definition wanted_retention :: "istore \<Rightarrow> int option \<Rightarrow> rat" where
  "wanted_retention s days = (case interval_of days of None \<Rightarrow> is_default s | Some iv \<Rightarrow> iv)"

lemma adopt_retention_simps [simp]:
  "is_rows (adopt_retention camera iv s) = is_rows s" "is_seq (adopt_retention camera iv s) = is_seq s"
  "is_fs (adopt_retention camera iv s) = is_fs s" "is_default (adopt_retention camera iv s) = is_default s"
  by (simp_all add: adopt_retention_def)

lemma retention_for_adopt:
  "retention_for (adopt_retention camera (interval_of days) s) c = (if c = camera then wanted_retention s days else retention_for s c)"
  by (simp add: retention_for_def adopt_retention_def wanted_retention_def update_conv' delete_conv' split: option.splits)

lemma set_retention_spec:
  assumes "ids_distinct s"
  shows "\<exists>out t. set_camera_retention answers camera days s = Some (out, t) \<and> is_default t = is_default s \<and>
    (\<forall>c. retention_for t c = (if c = camera then wanted_retention s days else retention_for s c)) \<and> is_seq t = is_seq s \<and> is_fs t = is_fs s \<and>
    (\<forall>d. \<exists>I. is_rows t d = restamp_some I camera (wanted_retention s days) (is_rows s d)) \<and>
    (\<not> ro_changed out \<longrightarrow> is_rows t = is_rows s \<and> retention_for s camera = wanted_retention s days) \<and>
    (ro_changed out \<and> \<not> ro_error out \<longrightarrow> (\<forall>d. is_rows t d = map (restamped camera (wanted_retention s days)) (is_rows s d))) \<and>
    ((\<forall>k. answers k) \<longrightarrow> \<not> ro_error out)"
proof (cases "map_of (is_retention s) camera = interval_of days")
  case True
  then have "set_camera_retention answers camera days s =
      Some (\<lparr>ro_restamped = 0, ro_changed = False, ro_error = False\<rparr>, adopt_retention camera (interval_of days) s)"
    by (simp add: set_camera_retention_def Let_def)
  moreover have "retention_for s camera = wanted_retention s days" using True by (simp add: retention_for_def wanted_retention_def)
  moreover have "\<exists>I. rows = restamp_some I camera iv rows" for rows iv by (metis restamp_some_none)
  ultimately show ?thesis by (simp add: retention_for_adopt)
next
  case False
  let ?s = "adopt_retention camera (interval_of days) s"
  have "ids_distinct ?s" using assms by (simp add: ids_distinct_def)
  from restamp_all_spec [OF this, of all_domains answers camera "wanted_retention s days" 0] obtain ok m t where
    t: "restamp_all answers camera (wanted_retention s days) all_domains 0 ?s = Some (ok, m, t)" "same_but_rows ?s t"
      "\<forall>d. \<exists>I. is_rows t d = restamp_some I camera (wanted_retention s days) (is_rows ?s d)"
      "ok \<longrightarrow> (\<forall>d \<in> set all_domains. is_rows t d = map (restamped camera (wanted_retention s days)) (is_rows ?s d))" "(\<forall>k. answers k) \<longrightarrow> ok"
    by (auto simp: all_domains_def)
  have all: "d \<in> set all_domains" for d by (cases d) (simp_all add: all_domains_def)
  have set: "set_camera_retention answers camera days s = Some (\<lparr>ro_restamped = m, ro_changed = True, ro_error = \<not> ok\<rparr>, t)"
    using False t(1) by (simp add: set_camera_retention_def Let_def wanted_retention_def)
  have "retention_for t c = retention_for ?s c" for c using t(2) by (simp add: retention_for_def same_but_rows_def split: option.splits)
  then show ?thesis
    using t(2-5) all by (simp add: set retention_for_adopt) (simp add: same_but_rows_def)
qed


definition sample_row :: "int \<Rightarrow> string \<Rightarrow> epoch \<Rightarrow> irow" where
  "sample_row i cam t = \<lparr>ir_id = i, ir_camera = cam, ir_ts = t, ir_expires = t + 2592000, ir_crop = ''/c/'' @ cam @ ''.jpg'', ir_frame = None\<rparr>"

definition sample_fs :: fs where
  "sample_fs = \<lparr>fs_files = [(''/c/a.jpg'', \<lparr>fi_size = 5, fi_mtime = 10\<rparr>), (''/c/b.jpg'', \<lparr>fi_size = 5, fi_mtime = 10\<rparr>),
      (''/c/old.jpg'', \<lparr>fi_size = 5, fi_mtime = 10\<rparr>)], fs_dirs = [''/c''], fs_unlink_err = (\<lambda>_. False), fs_stat_err = (\<lambda>_. False)\<rparr>"

definition sample_store :: istore where
  "sample_store = \<lparr>is_rows = (\<lambda>d. if d = Person then [sample_row 1 ''a'' 100, sample_row 2 ''b'' 100] else if d = Face then [sample_row 1 ''a'' 200] else []),
     is_seq = 2, is_fs = sample_fs, is_retention = [], is_default = 2592000, is_calls = 0\<rparr>"

lemma sample_store_ids: "ids_distinct sample_store"
  by (simp add: ids_distinct_def sample_store_def sample_row_def)


text \<open>
  A restamp that the database interrupts is never taken up again. The new retention is in memory before the first statement is sent, so
  the next call for the same camera and the same days, whatever the database then answers, sees its own entry, reports no change and leaves every
  row as the failed call left it.
\<close>

theorem failed_restamp_never_retried:
  assumes "ids_distinct s" "set_camera_retention answers camera days s = Some (out, t)"
  shows "\<exists>u. set_camera_retention later camera days t = Some (\<lparr>ro_restamped = 0, ro_changed = False, ro_error = False\<rparr>, u) \<and> is_rows u = is_rows t"
proof -
  have "map_of (is_retention t) camera = interval_of days"
  proof (cases "map_of (is_retention s) camera = interval_of days")
    case True
    then show ?thesis using assms(2)
      by (auto simp: set_camera_retention_def Let_def adopt_retention_def update_conv' delete_conv' split: option.splits)
  next
    case False
    let ?s = "adopt_retention camera (interval_of days) s"
    have "ids_distinct ?s" using assms(1) by (simp add: ids_distinct_def)
    from restamp_all_spec [OF this, of all_domains answers camera "wanted_retention s days" 0] False assms(2)
    have "same_but_rows ?s t" by (auto simp: set_camera_retention_def Let_def wanted_retention_def all_domains_def)
    then have "is_retention t = is_retention ?s" by (simp add: same_but_rows_def)
    then show ?thesis by (simp add: adopt_retention_def update_conv' delete_conv' split: option.splits)
  qed
  then show ?thesis by (simp add: set_camera_retention_def Let_def)
qed

theorem failed_restamp_never_retried_witness:
  \<comment> \<open>two days are asked for, the database is away for one call, and the row keeps the thirty days it had\<close>
  "\<exists>t u. set_camera_retention (\<lambda>_. False) ''a'' (Some 2) sample_store = Some (\<lparr>ro_restamped = 0, ro_changed = True, ro_error = True\<rparr>, t) \<and>
     set_camera_retention (\<lambda>_. True) ''a'' (Some 2) t = Some (\<lparr>ro_restamped = 0, ro_changed = False, ro_error = False\<rparr>, u) \<and>
     map ir_expires (is_rows u Person) = [2592100, 2592100]"
proof -
  obtain t where t: "set_camera_retention (\<lambda>_. False) ''a'' (Some 2) sample_store = Some (\<lparr>ro_restamped = 0, ro_changed = True, ro_error = True\<rparr>, t)"
    "is_rows t = is_rows sample_store"
    by (simp add: set_camera_retention_def Let_def interval_of_def adopt_retention_def sample_store_def all_domains_def restamp_loop.simps)
  from failed_restamp_never_retried [OF sample_store_ids t(1), of "\<lambda>_. True"]
  obtain u where "set_camera_retention (\<lambda>_. True) ''a'' (Some 2) t = Some (\<lparr>ro_restamped = 0, ro_changed = False, ro_error = False\<rparr>, u)" "is_rows u = is_rows t"
    by blast
  then show ?thesis using t by (simp add: sample_store_def sample_row_def)
qed

subsection \<open>What a deletion removes\<close>

definition row_files :: "irow list \<Rightarrow> path set" where
  "row_files rows = ir_crop ` set rows \<union> {p. p \<noteq> [] \<and> Some p \<in> ir_frame ` set rows}"

definition keys :: "fs \<Rightarrow> path set" where
  "keys w = set (dict_keys (fs_files w))"

lemma unlink_each_spec:
  "unlink_each ps w n m = (w1, n1, m1) \<Longrightarrow>
    keys w1 = keys w - {p \<in> set ps. \<not> fs_unlink_err w p} \<and> fs_unlink_err w1 = fs_unlink_err w \<and>
    (m1 = m \<longleftrightarrow> (\<forall>p \<in> set ps. p \<in> keys w \<longrightarrow> \<not> fs_unlink_err w p)) \<and> m \<le> m1"
proof (induction ps arbitrary: w n m)
  case (Cons p ps)
  consider (gone) "p \<notin> keys w" | (refused) "p \<in> keys w" "fs_unlink_err w p" | (removed) "p \<in> keys w" "\<not> fs_unlink_err w p" by blast
  then show ?case
  proof cases
    case gone
    then have "unlink_each ps w n m = (w1, n1, m1)" using Cons.prems by (simp add: keys_def)
    from Cons.IH [OF this] show ?thesis using gone by auto
  next
    case refused
    then have "unlink_each ps w n (Suc m) = (w1, n1, m1)" using Cons.prems by (simp add: keys_def unlink_def)
    from Cons.IH [OF this] show ?thesis using refused by auto
  next
    case removed
    then obtain v where v: "unlink p w = Some v" by (auto simp: unlink_def)
    then have "unlink_each ps v (Suc n) m = (w1, n1, m1)" using Cons.prems removed by (simp add: keys_def)
    from Cons.IH [OF this] show ?thesis using removed unlink_keys [OF v] unlink_frame [OF v] by (auto simp: keys_def)
  qed
qed simp

lemma unlink_rows_spec:
  assumes "unlink_rows d got w t = (w1, t1)"
  shows "keys w1 = keys w - {p \<in> row_files got. \<not> fs_unlink_err w p} \<and> fs_unlink_err w1 = fs_unlink_err w \<and>
    ta_rows t1 = (ta_rows t)(d := ta_rows t d + length got) \<and> ta_crops_failed t \<le> ta_crops_failed t1 \<and> ta_frames_failed t \<le> ta_frames_failed t1 \<and>
    (ta_crops_failed t1 = ta_crops_failed t \<and> ta_frames_failed t1 = ta_frames_failed t \<longrightarrow> keys w1 \<inter> row_files got = {})"
proof -
  let ?fp = "filter (\<lambda>p. p \<noteq> []) (List.map_filter ir_frame got)"
  obtain v c cf f ff where 1: "unlink_each (map ir_crop got) w (ta_crops t) (ta_crops_failed t) = (v, c, cf)"
    and 2: "unlink_each ?fp v (ta_frames t) (ta_frames_failed t) = (w1, f, ff)"
    and t1: "t1 = t\<lparr>ta_rows := (ta_rows t)(d := ta_rows t d + length got), ta_crops := c, ta_crops_failed := cf, ta_frames := f, ta_frames_failed := ff\<rparr>"
    using assms by (auto simp: unlink_rows_def Let_def split: prod.splits)
  have fp: "set ?fp = {p. p \<noteq> [] \<and> Some p \<in> ir_frame ` set got}"
    by (auto simp: List.map_filter_def image_iff) (metis option.sel option.simps(3))+
  note s1 = unlink_each_spec [OF 1] and s2 = unlink_each_spec [OF 2]
  have k: "keys w1 = keys w - {p \<in> row_files got. \<not> fs_unlink_err w p}" using s1 s2 fp by (auto simp: row_files_def)
  have z: "keys w1 \<inter> row_files got = {}" if "cf = ta_crops_failed t" "ff = ta_frames_failed t"
  proof -
    have "\<forall>p \<in> set (map ir_crop got). p \<in> keys w \<longrightarrow> \<not> fs_unlink_err w p" using s1 that by simp
    moreover have "\<forall>p \<in> set ?fp. p \<in> keys v \<longrightarrow> \<not> fs_unlink_err v p" using s2 that by simp
    ultimately show ?thesis using s1 s2 fp by (auto simp: row_files_def)
  qed
  have "fs_unlink_err w1 = fs_unlink_err w" "ta_crops_failed t \<le> cf" "ta_frames_failed t \<le> ff" using s1 s2 by simp_all
  then show ?thesis using k z unfolding t1 by simp
qed

lemma take_ids_sel:
  assumes "distinct (map ir_id rows)" "got = take n (filter sel rows)" "r \<in> set rows"
  shows "ir_id r \<in> ir_id ` set got \<longleftrightarrow> r \<in> set got"
proof -
  have "q \<in> set rows" if "q \<in> set got" for q using that assms(2) by (auto dest: in_set_takeD)
  then have "q = r" if "q \<in> set got" "ir_id r = ir_id q" for q using that distinct_id_eq [OF assms(1) _ assms(3), of q] by simp
  then show ?thesis by (auto simp: image_iff)
qed

definition deleted :: "int set \<Rightarrow> (irow \<Rightarrow> bool) \<Rightarrow> irow list \<Rightarrow> irow list" where
  "deleted I sel rows = filter (\<lambda>r. sel r \<and> ir_id r \<in> I) rows"

definition kept :: "int set \<Rightarrow> (irow \<Rightarrow> bool) \<Rightarrow> irow list \<Rightarrow> irow list" where
  "kept I sel rows = filter (\<lambda>r. \<not> (sel r \<and> ir_id r \<in> I)) rows"

lemma deleted_kept: "length (deleted I sel rows) + length (kept I sel rows) = length rows"
  using sum_length_filter_compl [of "\<lambda>r. sel r \<and> ir_id r \<in> I" rows] by (simp add: deleted_def kept_def)

lemma delete_step:
  assumes "distinct (map ir_id rows)" "got = take n (filter sel rows)"
  shows "filter (\<lambda>r. ir_id r \<notin> ir_id ` set got) rows = kept (ir_id ` set got) sel rows"
    and "set (deleted (ir_id ` set got) sel rows) = set got"
    and "length (deleted (ir_id ` set got) sel rows) = length got"
proof -
  have sub: "set got \<subseteq> set (filter sel rows)" using assms(2) by (auto dest: in_set_takeD)
  note t = take_ids_sel [OF assms]
  show "filter (\<lambda>r. ir_id r \<notin> ir_id ` set got) rows = kept (ir_id ` set got) sel rows"
    unfolding kept_def using t sub by (intro filter_cong) auto
  show 2: "set (deleted (ir_id ` set got) sel rows) = set got" using t sub by (auto simp: deleted_def)
  have "distinct got" "distinct (deleted (ir_id ` set got) sel rows)"
    using assms by (auto simp: distinct_map deleted_def intro: distinct_take distinct_filter)
  then show "length (deleted (ir_id ` set got) sel rows) = length got" using 2 by (metis distinct_card)
qed

lemma delete_loop_spec:
  assumes "distinct (map ir_id (is_rows s d))" "0 < limit"
  shows "\<exists>ok t1 s1 I. delete_loop answers limit sel d t s = Some (ok, t1, s1) \<and> is_rows s1 = (is_rows s)(d := kept I sel (is_rows s d)) \<and>
    is_seq s1 = is_seq s \<and> is_retention s1 = is_retention s \<and> is_default s1 = is_default s \<and>
    keys (is_fs s1) = keys (is_fs s) - {p \<in> row_files (deleted I sel (is_rows s d)). \<not> fs_unlink_err (is_fs s) p} \<and>
    fs_unlink_err (is_fs s1) = fs_unlink_err (is_fs s) \<and>
    ta_rows t1 = (ta_rows t)(d := ta_rows t d + length (deleted I sel (is_rows s d))) \<and>
    ta_crops_failed t \<le> ta_crops_failed t1 \<and> ta_frames_failed t \<le> ta_frames_failed t1 \<and>
    (ta_crops_failed t1 = ta_crops_failed t \<and> ta_frames_failed t1 = ta_frames_failed t \<longrightarrow>
       keys (is_fs s1) \<inter> row_files (deleted I sel (is_rows s d)) = {}) \<and>
    (ok \<longrightarrow> kept I sel (is_rows s d) = filter (\<lambda>r. \<not> sel r) (is_rows s d)) \<and> ((\<forall>k. answers k) \<longrightarrow> ok)"
  using assms(1)
proof (induction "length (is_rows s d)" arbitrary: s t rule: less_induct)
  case less
  let ?rows = "is_rows s d" and ?s1 = "s\<lparr>is_calls := Suc (is_calls s)\<rparr>"
  let ?got = "take limit (filter sel ?rows)"
  have none: "kept {} sel rows = rows" "deleted {} sel rows = []" "row_files [] = {}" for rows by (simp_all add: kept_def deleted_def row_files_def)
  consider (down) "\<not> answers (is_calls s)" | (dry) "answers (is_calls s)" "?got = []" | (more) "answers (is_calls s)" "?got \<noteq> []" by blast
  then show ?case
  proof cases
    case down
    then show ?thesis by (intro exI [of _ False] exI [of _ t] exI [of _ ?s1] exI [of _ "{}"])
        (simp add: delete_loop.simps [of _ _ _ _ _ s] none; auto)
  next
    case dry
    then have "filter (\<lambda>r. \<not> sel r) ?rows = ?rows" using assms(2) by (auto simp: filter_empty_conv)
    then show ?thesis using dry by (intro exI [of _ True] exI [of _ t] exI [of _ ?s1] exI [of _ "{}"])
        (simp add: delete_loop.simps [of _ _ _ _ _ s] none Let_def)
  next
    case more
    obtain w u where wu: "unlink_rows d ?got (is_fs s) t = (w, u)" by (metis surj_pair)
    let ?J = "ir_id ` set ?got"
    let ?s2 = "?s1\<lparr>is_rows := (is_rows s)(d := kept ?J sel ?rows), is_fs := w\<rparr>"
    note step = delete_step [OF less.prems refl, of limit sel] and un = unlink_rows_spec [OF wu]
    have unfold: "delete_loop answers limit sel d t s = delete_loop answers limit sel d u ?s2"
      using more wu step(1) by (subst delete_loop.simps) (simp add: Let_def)
    have "0 < length ?got" using more(2) by blast
    then have "length (kept ?J sel ?rows) < length ?rows" using deleted_kept [of ?J sel ?rows] step(3) by linarith
    then have lt: "length (is_rows ?s2 d) < length ?rows" by simp
    have "distinct (map ir_id (is_rows ?s2 d))" using less.prems by (simp add: kept_def distinct_map_filter_key)
    from less.hyps [OF lt this, of u] obtain ok t1 s1 I where
      ih: "delete_loop answers limit sel d u ?s2 = Some (ok, t1, s1)" "is_rows s1 = (is_rows ?s2)(d := kept I sel (is_rows ?s2 d))"
        "is_seq s1 = is_seq ?s2" "is_retention s1 = is_retention ?s2" "is_default s1 = is_default ?s2"
        "keys (is_fs s1) = keys (is_fs ?s2) - {p \<in> row_files (deleted I sel (is_rows ?s2 d)). \<not> fs_unlink_err (is_fs ?s2) p}"
        "fs_unlink_err (is_fs s1) = fs_unlink_err (is_fs ?s2)"
        "ta_rows t1 = (ta_rows u)(d := ta_rows u d + length (deleted I sel (is_rows ?s2 d)))"
        "ta_crops_failed u \<le> ta_crops_failed t1" "ta_frames_failed u \<le> ta_frames_failed t1"
        "ta_crops_failed t1 = ta_crops_failed u \<and> ta_frames_failed t1 = ta_frames_failed u \<longrightarrow>
           keys (is_fs s1) \<inter> row_files (deleted I sel (is_rows ?s2 d)) = {}"
        "ok \<longrightarrow> kept I sel (is_rows ?s2 d) = filter (\<lambda>r. \<not> sel r) (is_rows ?s2 d)" "(\<forall>k. answers k) \<longrightarrow> ok"
      by blast
    have kk: "kept I sel (kept ?J sel ?rows) = kept (I \<union> ?J) sel ?rows" by (auto simp: kept_def intro: filter_cong)
    have kn: "filter (\<lambda>r. \<not> sel r) (kept ?J sel ?rows) = filter (\<lambda>r. \<not> sel r) ?rows" by (auto simp: kept_def intro: filter_cong)
    have dset: "set (deleted (I \<union> ?J) sel ?rows) = set (deleted I sel (kept ?J sel ?rows)) \<union> set ?got"
      using step(2) by (auto simp: deleted_def kept_def)
    have files: "row_files (deleted (I \<union> ?J) sel ?rows) = row_files (deleted I sel (kept ?J sel ?rows)) \<union> row_files ?got"
      unfolding row_files_def dset by auto
    have len: "length (deleted (I \<union> ?J) sel ?rows) = length (deleted I sel (kept ?J sel ?rows)) + length ?got"
      using deleted_kept [of "I \<union> ?J" sel ?rows] deleted_kept [of I sel "kept ?J sel ?rows"] deleted_kept [of ?J sel ?rows] kk step(3) by simp
    have empty: "keys (is_fs s1) \<inter> row_files (deleted (I \<union> ?J) sel ?rows) = {}"
      if "ta_crops_failed t1 = ta_crops_failed t" "ta_frames_failed t1 = ta_frames_failed t"
    proof -
      have "ta_crops_failed u = ta_crops_failed t" "ta_frames_failed u = ta_frames_failed t" using that un ih(9,10) by linarith+
      then have "keys w \<inter> row_files ?got = {}" "keys (is_fs s1) \<inter> row_files (deleted I sel (kept ?J sel ?rows)) = {}"
        using un ih(11) that by auto
      moreover have "keys (is_fs s1) \<subseteq> keys w" using ih(6) by auto
      ultimately show ?thesis unfolding files by auto
    qed
    have keyseq: "keys (is_fs s1) = keys (is_fs s) - {p \<in> row_files (deleted (I \<union> ?J) sel ?rows). \<not> fs_unlink_err (is_fs s) p}"
      using ih(6) un unfolding files by auto
    have rows1: "ta_rows t1 = (ta_rows t)(d := ta_rows t d + length (deleted (I \<union> ?J) sel ?rows))"
      using ih(8) un unfolding len by (simp add: add.assoc add.commute del: length_take)
    have "ta_crops_failed t \<le> ta_crops_failed t1" "ta_frames_failed t \<le> ta_frames_failed t1"
      "fs_unlink_err (is_fs s1) = fs_unlink_err (is_fs s)" using ih(7,9,10) un by auto
    then show ?thesis
      unfolding unfold
      by (intro exI [of _ ok] exI [of _ t1] exI [of _ s1] exI [of _ "I \<union> ?J"])
        (use ih(1-5,12,13) kk kn rows1 empty keyseq in \<open>simp add: fun_upd_upd\<close>)
  qed
qed

definition delete_result ::
  "(irow \<Rightarrow> bool) \<Rightarrow> domain list \<Rightarrow> istore \<Rightarrow> tally \<Rightarrow> (domain \<Rightarrow> int set) \<Rightarrow> bool \<Rightarrow> tally \<Rightarrow> istore \<Rightarrow> bool" where
  \<comment> \<open>what a run over some tables has done, when it took the selected rows with ids in \<open>I\<close>\<close>
  "delete_result sel ds s t I ok t1 s1 \<longleftrightarrow>
     (\<forall>d. is_rows s1 d = kept (I d) sel (is_rows s d)) \<and>
     (\<forall>d. d \<notin> set ds \<longrightarrow> I d = {}) \<and> is_seq s1 = is_seq s \<and> is_retention s1 = is_retention s \<and> is_default s1 = is_default s \<and>
     keys (is_fs s1) = keys (is_fs s) - {p \<in> \<Union>d \<in> set ds. row_files (deleted (I d) sel (is_rows s d)). \<not> fs_unlink_err (is_fs s) p} \<and>
     fs_unlink_err (is_fs s1) = fs_unlink_err (is_fs s) \<and>
     (\<forall>d. ta_rows t1 d = ta_rows t d + length (deleted (I d) sel (is_rows s d))) \<and>
     ta_crops_failed t \<le> ta_crops_failed t1 \<and> ta_frames_failed t \<le> ta_frames_failed t1 \<and>
     (ta_crops_failed t1 = ta_crops_failed t \<and> ta_frames_failed t1 = ta_frames_failed t \<longrightarrow>
        keys (is_fs s1) \<inter> (\<Union>d \<in> set ds. row_files (deleted (I d) sel (is_rows s d))) = {}) \<and>
     (ok \<longrightarrow> (\<forall>d \<in> set ds. kept (I d) sel (is_rows s d) = filter (\<lambda>r. \<not> sel r) (is_rows s d)))"

lemma delete_all_spec:
  assumes "ids_distinct s" "0 < limit" "distinct ds"
  shows "\<exists>ok t1 s1 I. delete_all answers limit sel ds t s = Some (ok, t1, s1) \<and> delete_result sel ds s t I ok t1 s1 \<and> ((\<forall>k. answers k) \<longrightarrow> ok)"
  using assms
proof (induction ds arbitrary: t s)
  case Nil
  show ?case
    by (intro exI [of _ True] exI [of _ t] exI [of _ s] exI [of _ "\<lambda>_. {}"]) (simp add: delete_result_def kept_def deleted_def)
next
  case (Cons d ds)
  have "distinct (map ir_id (is_rows s d))" using Cons.prems by (simp add: ids_distinct_def)
  from delete_loop_spec [OF this Cons.prems(2), of answers sel t] obtain ok t1 s1 I where
    a: "delete_loop answers limit sel d t s = Some (ok, t1, s1)" "is_rows s1 = (is_rows s)(d := kept I sel (is_rows s d))"
      "is_seq s1 = is_seq s" "is_retention s1 = is_retention s" "is_default s1 = is_default s"
      "keys (is_fs s1) = keys (is_fs s) - {p \<in> row_files (deleted I sel (is_rows s d)). \<not> fs_unlink_err (is_fs s) p}"
      "fs_unlink_err (is_fs s1) = fs_unlink_err (is_fs s)"
      "ta_rows t1 = (ta_rows t)(d := ta_rows t d + length (deleted I sel (is_rows s d)))"
      "ta_crops_failed t \<le> ta_crops_failed t1" "ta_frames_failed t \<le> ta_frames_failed t1"
      "ta_crops_failed t1 = ta_crops_failed t \<and> ta_frames_failed t1 = ta_frames_failed t \<longrightarrow>
         keys (is_fs s1) \<inter> row_files (deleted I sel (is_rows s d)) = {}"
      "ok \<longrightarrow> kept I sel (is_rows s d) = filter (\<lambda>r. \<not> sel r) (is_rows s d)" "(\<forall>k. answers k) \<longrightarrow> ok"
    by blast
  have none: "kept {} sel rows = rows" "deleted {} sel rows = []" "row_files [] = {}" for rows by (simp_all add: kept_def deleted_def row_files_def)
  show ?case
  proof (cases ok)
    case False
    let ?I = "(\<lambda>_. {})(d := I)"
    have f: "(\<Union>e \<in> set (d # ds). row_files (deleted (?I e) sel (is_rows s e))) = row_files (deleted I sel (is_rows s d))"
      by (auto simp: none split: if_splits)
    have rows: "\<forall>e. is_rows s1 e = kept (?I e) sel (is_rows s e)" "\<forall>e. ta_rows t1 e = ta_rows t e + length (deleted (?I e) sel (is_rows s e))"
      "\<forall>e. e \<notin> set (d # ds) \<longrightarrow> ?I e = {}"
      using a(2,8) by (auto simp: none)
    have "delete_result sel (d # ds) s t ?I False t1 s1"
      unfolding delete_result_def f using rows a(3-7,9-11) by (simp only: simp_thms)
    moreover have "delete_all answers limit sel (d # ds) t s = Some (False, t1, s1)" using a(1) False by simp
    ultimately show ?thesis using False a(13) by blast
  next
    case True
    have "distinct (map ir_id (is_rows s1 e)) \<and> (\<forall>r \<in> set (is_rows s1 e). ir_id r \<le> is_seq s1)" for e
      using Cons.prems(1) a(2,3) by (cases "e = d") (auto simp: ids_distinct_def kept_def distinct_map_filter_key)
    then have "ids_distinct s1" by (simp add: ids_distinct_def)
    moreover have "distinct ds" using Cons.prems(3) by simp
    ultimately have "\<exists>ok t2 s2 I. delete_all answers limit sel ds t1 s1 = Some (ok, t2, s2) \<and> delete_result sel ds s1 t1 I ok t2 s2 \<and> ((\<forall>k. answers k) \<longrightarrow> ok)"
      using Cons.prems(2) by (intro Cons.IH)
    then obtain ok2 t2 s2 J where b0: "delete_all answers limit sel ds t1 s1 = Some (ok2, t2, s2)" "delete_result sel ds s1 t1 J ok2 t2 s2"
        "(\<forall>k. answers k) \<longrightarrow> ok2"
      by blast
    then have b: "delete_all answers limit sel ds t1 s1 = Some (ok2, t2, s2)" "\<forall>d. is_rows s2 d = kept (J d) sel (is_rows s1 d)"
        "\<forall>d. d \<notin> set ds \<longrightarrow> J d = {}" "is_seq s2 = is_seq s1" "is_retention s2 = is_retention s1" "is_default s2 = is_default s1"
        "keys (is_fs s2) = keys (is_fs s1) - {p \<in> \<Union>d \<in> set ds. row_files (deleted (J d) sel (is_rows s1 d)). \<not> fs_unlink_err (is_fs s1) p}"
        "fs_unlink_err (is_fs s2) = fs_unlink_err (is_fs s1)"
        "\<forall>d. ta_rows t2 d = ta_rows t1 d + length (deleted (J d) sel (is_rows s1 d))"
        "ta_crops_failed t1 \<le> ta_crops_failed t2" "ta_frames_failed t1 \<le> ta_frames_failed t2"
        "ta_crops_failed t2 = ta_crops_failed t1 \<and> ta_frames_failed t2 = ta_frames_failed t1 \<longrightarrow>
           keys (is_fs s2) \<inter> (\<Union>d \<in> set ds. row_files (deleted (J d) sel (is_rows s1 d))) = {}"
        "ok2 \<longrightarrow> (\<forall>d \<in> set ds. kept (J d) sel (is_rows s1 d) = filter (\<lambda>r. \<not> sel r) (is_rows s1 d))" "(\<forall>k. answers k) \<longrightarrow> ok2"
      unfolding delete_result_def by - (elim conjE, assumption)+
    let ?I = "J(d := I)"
    have d: "d \<notin> set ds" "J d = {}" using Cons.prems(3) b(3) by auto
    have same: "is_rows s1 e = is_rows s e" if "e \<noteq> d" for e using a(2) that by simp
    have un: "(\<Union>e \<in> set ds. row_files (deleted (?I e) sel (is_rows s e))) = (\<Union>e \<in> set ds. row_files (deleted (J e) sel (is_rows s1 e)))"
      by (intro SUP_cong refl) (metis d(1) fun_upd_other same)
    have uns: "(\<Union>e \<in> set (d # ds). row_files (deleted (?I e) sel (is_rows s e))) =
        row_files (deleted I sel (is_rows s d)) \<union> (\<Union>e \<in> set ds. row_files (deleted (J e) sel (is_rows s1 e)))"
      using un by simp
    have rows: "\<forall>e. is_rows s2 e = kept (?I e) sel (is_rows s e)" using b(2) a(2) d none by simp
    have tal: "\<forall>e. ta_rows t2 e = ta_rows t e + length (deleted (?I e) sel (is_rows s e))" using b(9) a(2,8) d none by simp
    have files: "keys (is_fs s2) = keys (is_fs s) - {p \<in> \<Union>e \<in> set (d # ds). row_files (deleted (?I e) sel (is_rows s e)). \<not> fs_unlink_err (is_fs s) p}"
      unfolding uns using b(7) a(6,7) by auto
    have gone: "keys (is_fs s2) \<inter> (\<Union>e \<in> set (d # ds). row_files (deleted (?I e) sel (is_rows s e))) = {}"
      if "ta_crops_failed t2 = ta_crops_failed t" "ta_frames_failed t2 = ta_frames_failed t"
    proof -
      have "ta_crops_failed t1 = ta_crops_failed t" "ta_frames_failed t1 = ta_frames_failed t"
        "ta_crops_failed t2 = ta_crops_failed t1" "ta_frames_failed t2 = ta_frames_failed t1" using that a(9,10) b(10,11) by linarith+
      then show ?thesis unfolding uns using a(11) b(7,12) by auto
    qed
    have all: "ok2 \<longrightarrow> (\<forall>e \<in> set (d # ds). kept (?I e) sel (is_rows s e) = filter (\<lambda>r. \<not> sel r) (is_rows s e))"
      using a(12) True b(13) d same by auto
    have le: "ta_crops_failed t \<le> ta_crops_failed t2" "ta_frames_failed t \<le> ta_frames_failed t2" using a(9,10) b(10,11) by linarith+
    have out: "\<forall>e. e \<notin> set (d # ds) \<longrightarrow> ?I e = {}" using b(3) by simp
    have eqs: "is_seq s2 = is_seq s" "is_retention s2 = is_retention s" "is_default s2 = is_default s" "fs_unlink_err (is_fs s2) = fs_unlink_err (is_fs s)"
      using a(3-5,7) b(4-6,8) by simp_all
    have "delete_result sel (d # ds) s t ?I ok2 t2 s2"
      unfolding delete_result_def
      by (intro conjI impI; (rule rows out eqs files tal le all [THEN mp] gone; assumption?; simp?)?; elim conjE; rule gone; assumption)
    moreover have "delete_all answers limit sel (d # ds) t s = Some (ok2, t2, s2)" using a(1) True b(1) by simp
    ultimately show ?thesis using b(14) by blast
  qed
qed

lemma all_domains_all [simp]: "d \<in> set all_domains" "distinct all_domains"
  by (cases d) (simp_all add: all_domains_def)

lemma kept_sub: "set (kept I sel rows) \<subseteq> set rows" "filter (\<lambda>r. \<not> sel r) (kept I sel rows) = filter (\<lambda>r. \<not> sel r) rows"
  by (auto simp: kept_def intro: filter_cong)

lemma deleted_all: "kept I sel rows = filter (\<lambda>r. \<not> sel r) rows \<Longrightarrow> deleted I sel rows = filter sel rows"
proof -
  assume k: "kept I sel rows = filter (\<lambda>r. \<not> sel r) rows"
  have "sel r \<longrightarrow> ir_id r \<in> I" if "r \<in> set rows" for r
  proof -
    have "r \<in> set (kept I sel rows) \<longleftrightarrow> r \<in> set (filter (\<lambda>r. \<not> sel r) rows)" using k by simp
    then show ?thesis using that by (auto simp: kept_def)
  qed
  then show ?thesis unfolding deleted_def by (intro filter_cong) auto
qed

lemma delete_result_exact:
  assumes "delete_result sel all_domains s no_tally I ok t u"
  shows "(\<forall>d. set (is_rows u d) \<subseteq> set (is_rows s d) \<and> filter (\<lambda>r. \<not> sel r) (is_rows u d) = filter (\<lambda>r. \<not> sel r) (is_rows s d)) \<and>
    (ok \<longrightarrow> (\<forall>d. is_rows u d = filter (\<lambda>r. \<not> sel r) (is_rows s d) \<and> ta_rows t d = length (filter sel (is_rows s d)))) \<and>
    keys (is_fs s) - keys (is_fs u) \<subseteq> (\<Union>d. row_files (filter sel (is_rows s d))) \<and>
    (ok \<and> ta_crops_failed t = 0 \<and> ta_frames_failed t = 0 \<longrightarrow> keys (is_fs u) \<inter> (\<Union>d. row_files (filter sel (is_rows s d))) = {})"
proof -
  have rows: "is_rows u d = kept (I d) sel (is_rows s d)" for d using assms by (simp add: delete_result_def)
  have keysu: "keys (is_fs u) = keys (is_fs s) - {p \<in> \<Union>d \<in> set all_domains. row_files (deleted (I d) sel (is_rows s d)). \<not> fs_unlink_err (is_fs s) p}"
    and tal: "ta_rows t d = length (deleted (I d) sel (is_rows s d))" for d
    using assms unfolding delete_result_def no_tally_def by auto
  have gone: "keys (is_fs u) \<inter> (\<Union>d \<in> set all_domains. row_files (deleted (I d) sel (is_rows s d))) = {}"
    if "ta_crops_failed t = 0" "ta_frames_failed t = 0" using assms that unfolding delete_result_def no_tally_def by auto
  have whole: "deleted (I d) sel (is_rows s d) = filter sel (is_rows s d) \<and> is_rows u d = filter (\<lambda>r. \<not> sel r) (is_rows s d)" if ok for d
  proof -
    have "kept (I d) sel (is_rows s d) = filter (\<lambda>r. \<not> sel r) (is_rows s d)" using assms that unfolding delete_result_def by auto
    then show ?thesis using deleted_all rows by metis
  qed
  have sub: "row_files (deleted (I d) sel (is_rows s d)) \<subseteq> row_files (filter sel (is_rows s d))" for d
    by (auto simp: row_files_def deleted_def)
  have "keys (is_fs s) - keys (is_fs u) \<subseteq> (\<Union>d. row_files (filter sel (is_rows s d)))" unfolding keysu using sub by blast
  moreover have "keys (is_fs u) \<inter> (\<Union>d. row_files (filter sel (is_rows s d))) = {}" if ok "ta_crops_failed t = 0" "ta_frames_failed t = 0"
    using gone [OF that(2,3)] whole [OF that(1)] all_domains_all(1) by (metis (no_types, lifting) SUP_cong UNIV_eq_I)
  ultimately show ?thesis using whole tal rows kept_sub by auto
qed

lemma erase_range_result:
  assumes "ids_distinct s"
  shows "\<exists>ok t u I. erase_range answers camera lo hi s = Some (ok, t, u) \<and>
    delete_result (row_in_window camera lo hi) all_domains s no_tally I ok t u \<and> ((\<forall>k. answers k) \<longrightarrow> ok)"
  using delete_all_spec [OF assms, of erase_batch all_domains answers "row_in_window camera lo hi" no_tally]
  unfolding erase_range_def by (simp add: erase_batch_def del: all_domains_all(1))

text \<open>
  C4. Erasing a camera's recordings from the index ends and does what it reports. If it returns, no row of the camera inside the window is
  left in any table, the counts are those of the rows erased, and unless a file was counted as failed every crop and frame of theirs is
  gone from disk. Whether it returns or raises half way, no row outside the window is touched and no file that is not theirs. It raises
  only when the database fails.
\<close>

theorem erasure_complete:
  assumes "ids_distinct s"
  shows "\<exists>ok t u. erase_range answers camera lo hi s = Some (ok, t, u) \<and>
    (\<forall>d. set (is_rows u d) \<subseteq> set (is_rows s d) \<and>
       filter (\<lambda>r. \<not> row_in_window camera lo hi r) (is_rows u d) = filter (\<lambda>r. \<not> row_in_window camera lo hi r) (is_rows s d)) \<and>
    (ok \<longrightarrow> (\<forall>d. is_rows u d = filter (\<lambda>r. \<not> row_in_window camera lo hi r) (is_rows s d) \<and>
       ta_rows t d = length (filter (row_in_window camera lo hi) (is_rows s d)))) \<and>
    keys (is_fs s) - keys (is_fs u) \<subseteq> (\<Union>d. row_files (filter (row_in_window camera lo hi) (is_rows s d))) \<and>
    (ok \<and> ta_crops_failed t = 0 \<and> ta_frames_failed t = 0 \<longrightarrow>
       keys (is_fs u) \<inter> (\<Union>d. row_files (filter (row_in_window camera lo hi) (is_rows s d))) = {}) \<and>
    ((\<forall>k. answers k) \<longrightarrow> ok)"
  using erase_range_result [OF assms, of answers camera lo hi] delete_result_exact by blast

theorem erasure_complete_witness:
  "\<exists>t u. erase_range (\<lambda>_. True) ''a'' 50 150 sample_store = Some (True, t, u) \<and>
     is_rows u Person = [sample_row 2 ''b'' 100] \<and> ta_rows t Person = 1"
proof -
  obtain ok t u where "erase_range (\<lambda>_. True) ''a'' 50 150 sample_store = Some (ok, t, u)"
    "ok \<longrightarrow> (\<forall>d. is_rows u d = filter (\<lambda>r. \<not> row_in_window ''a'' 50 150 r) (is_rows sample_store d) \<and>
       ta_rows t d = length (filter (row_in_window ''a'' 50 150) (is_rows sample_store d)))" ok
    using erasure_complete [OF sample_store_ids, of "\<lambda>_. True" "''a''" 50 150] by (elim exE conjE) blast
  then show ?thesis by (simp add: sample_store_def sample_row_def row_in_window_def)
qed

subsection \<open>Every row carries the deadline in force\<close>

inductive store_step :: "(nat \<Rightarrow> bool) \<Rightarrow> istore \<Rightarrow> istore \<Rightarrow> bool" for answers where
  writes: "write_batch answers name rows s = (n, t) \<Longrightarrow> store_step answers s t"
| retains: "set_camera_retention answers camera days s = Some (out, t) \<Longrightarrow> \<not> ro_error out \<Longrightarrow> store_step answers s t"
| erases: "erase_range answers camera lo hi s = Some (ok, ta, t) \<Longrightarrow> store_step answers s t"
| expires: "expire_once answers now s = Some (ok, ta, t) \<Longrightarrow> store_step answers s t"
| sweeps: "sweep_orphans ok now base grace s = (out, t) \<Longrightarrow> store_step answers s t"

definition store_start :: "istore \<Rightarrow> bool" where
  "store_start s \<longleftrightarrow> (\<forall>d. is_rows s d = [])"

definition deadlines :: "istore \<Rightarrow> bool" where
  "deadlines s \<longleftrightarrow> ids_distinct s \<and> (\<forall>d. \<forall>r \<in> set (is_rows s d). ir_expires r = ir_ts r + retention_for s (ir_camera r))"

lemma retention_for_cong: "is_retention t = is_retention s \<Longrightarrow> is_default t = is_default s \<Longrightarrow> retention_for t c = retention_for s c"
  by (simp add: retention_for_def split: option.splits)

lemma map_restamped_id: "map ir_id (map (restamped camera iv) rows) = map ir_id rows"
  by simp

lemma deadlines_delete:
  assumes "deadlines s" "delete_result sel ds s t I ok t1 u"
  shows "deadlines u"
proof -
  have u: "is_rows u d = kept (I d) sel (is_rows s d)" "is_seq u = is_seq s" "is_retention u = is_retention s" "is_default u = is_default s" for d
    using assms(2) by (simp_all add: delete_result_def)
  have "retention_for u c = retention_for s c" for c by (rule retention_for_cong) (simp_all add: u)
  then show ?thesis using assms(1) by (auto simp: deadlines_def ids_distinct_def u kept_def distinct_map_filter_key)
qed

lemma deadlines_delete_all:
  "deadlines s \<Longrightarrow> delete_all answers limit sel all_domains t s = Some (ok, t1, u) \<Longrightarrow> 0 < limit \<Longrightarrow> deadlines u"
  using delete_all_spec [of s limit all_domains answers sel t] deadlines_delete [of s sel all_domains t] by (fastforce simp: deadlines_def)

lemma deadlines_write:
  assumes "deadlines s" "write_batch answers name rows s = (n, t)"
  shows "deadlines t"
proof -
  let ?ids = "[is_seq s + 1 .. is_seq s + int (length rows)]"
  let ?new = "\<lambda>d. map (\<lambda>(i, r). stamp s d i r) (zip ?ids rows)"
  have ids: "map ir_id (?new d) = ?ids" for d
  proof -
    have "map ir_id (?new d) = map fst (zip ?ids rows)" by (simp add: comp_def split_def stamp_def)
    also have "\<dots> = ?ids" by simp
    finally show ?thesis .
  qed
  have idr: "ir_id r \<in> set ?ids" if "r \<in> set (?new d)" for r d using ids [of d] that by (metis image_eqI list.set_map)
  have exp: "ir_expires r = ir_ts r + retention_for s (ir_camera r)" if "r \<in> set (?new d)" for r d using that by (auto simp: stamp_def)
  have old: "distinct (map ir_id (is_rows s d))" "\<forall>r \<in> set (is_rows s d). ir_id r \<le> is_seq s \<and> ir_expires r = ir_ts r + retention_for s (ir_camera r)" for d
    using assms(1) by (auto simp: deadlines_def ids_distinct_def)
  let ?s1 = "s\<lparr>is_seq := is_seq s + int (length rows), is_calls := Suc (is_calls s)\<rparr>"
  have "t = s \<or> t = ?s1 \<or> (\<exists>d. t = ?s1\<lparr>is_rows := (is_rows s)(d := is_rows s d @ ?new d)\<rparr>)"
    using assms(2) by (cases "domain_of name") (auto simp: write_batch_def Let_def split: if_splits)
  then consider "t = s" | "t = ?s1" | d where "t = ?s1\<lparr>is_rows := (is_rows s)(d := is_rows s d @ ?new d)\<rparr>" by blast
  then show ?thesis
  proof cases
    case 1
    then show ?thesis using assms(1) by simp
  next
    case 2
    have "ir_id r \<le> is_seq s + int (length rows)" if "r \<in> set (is_rows s e)" for r e using that old(2) [of e] by force
    then show ?thesis using old 2 retention_for_cong [of t s] by (simp add: deadlines_def ids_distinct_def)
  next
    case (3 d)
    have rows: "is_rows t e = is_rows s e @ (if e = d then ?new d else [])" for e using 3 by simp
    have seq: "is_seq t = is_seq s + int (length rows)" using 3 by simp
    have ret: "retention_for t c = retention_for s c" for c using 3 by (intro retention_for_cong) simp_all
    have "set (map ir_id (is_rows s d)) \<inter> set ?ids = {}" using old(2) [of d] by force
    then have "distinct (map ir_id (is_rows t d))" using old(1) [of d] unfolding rows by (simp only: simp_thms if_True map_append ids distinct_append) simp
    moreover have "distinct (map ir_id (is_rows t e))" if "e \<noteq> d" for e using old(1) [of e] that by (simp add: rows)
    ultimately have "distinct (map ir_id (is_rows t e))" for e by (cases "e = d") simp_all
    moreover have "ir_id r \<le> is_seq t \<and> ir_expires r = ir_ts r + retention_for t (ir_camera r)" if "r \<in> set (is_rows t e)" for r e
    proof (cases "r \<in> set (is_rows s e)")
      case True
      then show ?thesis using old(2) [of e] seq ret by force
    next
      case False
      then have new: "r \<in> set (?new d)" using that unfolding rows by (auto split: if_splits)
      show ?thesis using idr [OF new] exp [OF new] seq ret by simp
    qed
    ultimately show ?thesis unfolding deadlines_def ids_distinct_def by blast
  qed
qed

lemma deadlines_retain:
  assumes "deadlines s" "set_camera_retention answers camera days s = Some (out, t)" "\<not> ro_error out"
  shows "deadlines t"
proof -
  have "ids_distinct s" using assms(1) by (simp add: deadlines_def)
  from set_retention_spec [OF this, of answers camera days] assms(2) have
    r: "\<forall>c. retention_for t c = (if c = camera then wanted_retention s days else retention_for s c)" "is_seq t = is_seq s"
    and unchanged: "\<not> ro_changed out \<longrightarrow> is_rows t = is_rows s \<and> retention_for s camera = wanted_retention s days"
    and changed: "ro_changed out \<and> \<not> ro_error out \<longrightarrow> (\<forall>d. is_rows t d = map (restamped camera (wanted_retention s days)) (is_rows s d))"
    by auto
  show ?thesis
  proof (cases "ro_changed out")
    case True
    then have rows: "is_rows t d = map (restamped camera (wanted_retention s days)) (is_rows s d)" for d using changed assms(3) by simp
    have "distinct (map ir_id (is_rows t d)) \<and> (\<forall>q \<in> set (is_rows t d). ir_id q \<le> is_seq t)" for d
      using assms(1) r(2) by (simp add: deadlines_def ids_distinct_def rows comp_def)
    moreover have "ir_expires q = ir_ts q + retention_for t (ir_camera q)" if "q \<in> set (is_rows t d)" for q d
      using assms(1) r(1) that by (auto simp: deadlines_def rows restamped_def)
    ultimately show ?thesis by (simp add: deadlines_def ids_distinct_def)
  next
    case False
    then show ?thesis using assms(1) r unchanged by (auto simp: deadlines_def ids_distinct_def)
  qed
qed

interpretation store: invariant_system store_start "store_step answers" deadlines for answers
proof unfold_locales
  show "deadlines s" if "store_start s" for s using that by (simp add: store_start_def deadlines_def ids_distinct_def)
  show "deadlines t" if "deadlines s" "store_step answers s t" for s t
    using that(2)
  proof cases
    case (sweeps ok now base grace out)
    then have "is_rows t = is_rows s" "is_seq t = is_seq s" "is_retention t = is_retention s" "is_default t = is_default s"
      by (auto simp: sweep_orphans_def Let_def split: if_splits prod.splits)
    then show ?thesis using that(1) retention_for_cong [of t s] by (simp add: deadlines_def ids_distinct_def)
  next
    case (writes name rows n)
    then show ?thesis using that(1) deadlines_write by blast
  next
    case (retains camera days out)
    then show ?thesis using that(1) deadlines_retain by blast
  next
    case (erases camera lo hi ok ta)
    then show ?thesis using deadlines_delete_all [OF that(1), of answers erase_batch] by (simp add: erase_range_def erase_batch_def)
  next
    case (expires now ok ta)
    then show ?thesis using deadlines_delete_all [OF that(1), of answers expire_batch]
      by (auto simp: expire_once_def expire_batch_def split: option.splits)
  qed
qed

text \<open>
  C6. The deadline promised is the deadline kept. However rows were written, retentions changed (each change reaching the database),
  erasures and sweeps run, a completed expiry pass at \<open>now\<close> leaves exactly the rows whose age is less than the retention now in
  force for their camera, in every table.
\<close>

theorem expiry_keeps_promise:
  assumes "store_start s0" and "rtranclp (store_step answers) s0 s" and "expire_once answers now s = Some (True, t, u)"
  shows "is_rows u d = filter (\<lambda>r. now < ir_ts r + retention_for s (ir_camera r)) (is_rows s d)"
proof -
  have inv: "deadlines s" using store.reachable_inv [OF assms(1,2)] .
  then have "ids_distinct s" by (simp add: deadlines_def)
  from delete_all_spec [OF this, of expire_batch all_domains answers "\<lambda>r. ir_expires r \<le> now" no_tally] assms(3)
  obtain t1 I where "delete_result (\<lambda>r. ir_expires r \<le> now) all_domains s no_tally I True t1 u"
    by (auto simp: expire_once_def expire_batch_def split: option.splits)
  then have "is_rows u d = filter (\<lambda>r. \<not> ir_expires r \<le> now) (is_rows s d)" using delete_result_exact by blast
  also have "\<dots> = filter (\<lambda>r. now < ir_ts r + retention_for s (ir_camera r)) (is_rows s d)"
    using inv by (intro filter_cong) (auto simp: deadlines_def)
  finally show ?thesis .
qed

definition written_store :: istore where
  "written_store = snd (write_batch (\<lambda>_. True) ''face'' [\<lparr>nr_camera = ''a'', nr_ts = 0, nr_crop = ''/c/a.jpg'', nr_frame = None\<rparr>,
     \<lparr>nr_camera = ''a'', nr_ts = 300, nr_crop = ''/c/b.jpg'', nr_frame = None\<rparr>] (sample_store\<lparr>is_rows := (\<lambda>_. [])\<rparr>))"

lemma written_rows: "map ir_ts (is_rows written_store Face) = [0, 300]" "\<forall>r \<in> set (is_rows written_store Face). ir_camera r = ''a''"
  "retention_for written_store ''a'' = 2592000"
  by (simp_all add: written_store_def write_batch_def domain_of_def Let_def stamp_def sample_store_def retention_for_def upto.simps)

theorem expiry_keeps_promise_witness:
  "\<exists>t u. expire_once (\<lambda>_. True) 2592100 written_store = Some (True, t, u) \<and> map ir_ts (is_rows u Face) = [300]"
proof -
  let ?s = "sample_store\<lparr>is_rows := (\<lambda>_. [])\<rparr>"
  have start: "store_start ?s" by (simp add: store_start_def)
  have step: "rtranclp (store_step (\<lambda>_. True)) ?s written_store"
    unfolding written_store_def by (rule r_into_rtranclp, rule writes) (rule surjective_pairing)
  have "ids_distinct written_store" using store.reachable_inv [OF start step] by (simp add: deadlines_def)
  from delete_all_spec [OF this, of expire_batch all_domains "\<lambda>_. True" "\<lambda>r. ir_expires r \<le> 2592100" no_tally]
  obtain t u where e: "expire_once (\<lambda>_. True) 2592100 written_store = Some (True, t, u)" by (auto simp: expire_once_def expire_batch_def)
  have "is_rows u Face = filter (\<lambda>r. 2592100 < ir_ts r + retention_for written_store (ir_camera r)) (is_rows written_store Face)"
    by (rule expiry_keeps_promise [OF start step e])
  also have "\<dots> = filter (\<lambda>r. 100 < ir_ts r) (is_rows written_store Face)"
    using written_rows by (intro filter_cong) auto
  also have "map ir_ts \<dots> = filter (\<lambda>t. 100 < t) (map ir_ts (is_rows written_store Face))" by (simp add: filter_map comp_def)
  finally show ?thesis using e written_rows(1) by simp
qed

subsection \<open>What the orphan sweep removes\<close>

definition removable :: "rat \<Rightarrow> fs \<Rightarrow> path \<Rightarrow> bool" where
  \<comment> \<open>an old file that the operating system lets go\<close>
  "removable cutoff w p \<longleftrightarrow> \<not> fs_stat_err w p \<and> \<not> fs_unlink_err w p \<and>
     (case map_of (fs_files w) p of None \<Rightarrow> False | Some i \<Rightarrow> fi_mtime i \<le> cutoff)"

lemma unlink_map_of: "unlink p w = Some v \<Longrightarrow> map_of (fs_files v) q = (if q = p then None else map_of (fs_files w) q)"
  by (auto dest!: unlink_Some simp: delete_conv')

lemma sweep_crops_spec:
  "sweep_crops cutoff crops referenced ps w seen out = (w1, seen1, out1) \<Longrightarrow>
    fs_stat_err w1 = fs_stat_err w \<and> fs_unlink_err w1 = fs_unlink_err w \<and> fs_dirs w1 = fs_dirs w \<and>
    (\<forall>q. map_of (fs_files w1) q = (if q \<in> set ps \<and> q \<notin> set referenced \<and> removable cutoff w q then None else map_of (fs_files w) q))"
proof (induction cutoff crops referenced ps w seen out rule: sweep_crops.induct)
  case (2 cutoff crops referenced p ps w seen out)
  consider (gone) "map_of (fs_files w) p = None" | (unread) i where "map_of (fs_files w) p = Some i" "fs_stat_err w p"
    | (used) i where "map_of (fs_files w) p = Some i" "\<not> fs_stat_err w p" "p \<in> set referenced"
    | (young) i where "map_of (fs_files w) p = Some i" "\<not> fs_stat_err w p" "p \<notin> set referenced" "fi_mtime i > cutoff"
    | (refused) i where "map_of (fs_files w) p = Some i" "\<not> fs_stat_err w p" "p \<notin> set referenced" "\<not> fi_mtime i > cutoff" "unlink p w = None"
    | (removed) i v where "map_of (fs_files w) p = Some i" "\<not> fs_stat_err w p" "p \<notin> set referenced" "\<not> fi_mtime i > cutoff" "unlink p w = Some v"
    by (metis option.exhaust)
  then show ?case
  proof cases
    case gone
    then show ?thesis using 2 by (simp add: removable_def)
  next
    case (unread i)
    then show ?thesis using 2 by (simp add: removable_def)
  next
    case (used i)
    then show ?thesis using 2 by (simp add: removable_def)
  next
    case (young i)
    then show ?thesis using 2 by (simp add: removable_def)
  next
    case (refused i)
    then have "fs_unlink_err w p" by (simp add: unlink_def split: if_splits)
    then show ?thesis using 2 refused by (simp add: removable_def)
  next
    case (removed i v)
    then have "sweep_crops cutoff crops referenced ps v seen (out\<lparr>oo_removed := Suc (oo_removed out)\<rparr>) = (w1, seen1, out1)" using "2.prems" by simp
    from "2.IH"(6) [OF removed(1) removed(2-5)] this have ih: "fs_stat_err w1 = fs_stat_err v \<and> fs_unlink_err w1 = fs_unlink_err v \<and> fs_dirs w1 = fs_dirs v \<and>
      (\<forall>q. map_of (fs_files w1) q = (if q \<in> set ps \<and> q \<notin> set referenced \<and> removable cutoff v q then None else map_of (fs_files v) q))" by simp
    have "\<not> fs_unlink_err w p" using removed(5) by (simp add: unlink_def split: if_splits)
    then have "removable cutoff w p" using removed by (simp add: removable_def)
    moreover have "removable cutoff v q \<longleftrightarrow> removable cutoff w q \<and> q \<noteq> p" for q
      using unlink_frame [OF removed(5)] unlink_map_of [OF removed(5), of q] by (auto simp: removable_def)
    ultimately show ?thesis using ih unlink_frame [OF removed(5)] unlink_map_of [OF removed(5)] removed(3) by auto
  qed
qed simp

lemma sweep_partials_as_crops: "fst (sweep_partials cutoff ps w out) = fst (sweep_crops cutoff [] [] ps w seen out2)"
  by (induction ps arbitrary: w out seen out2) (auto split: option.splits)

lemma sweep_partials_spec:
  assumes "sweep_partials cutoff ps w out = (w1, out1)"
  shows "map_of (fs_files w1) q = (if q \<in> set ps \<and> removable cutoff w q then None else map_of (fs_files w) q)"
proof -
  obtain seen o2 where "sweep_crops cutoff [] [] ps w [] out = (w1, seen, o2)"
    using sweep_partials_as_crops [of cutoff ps w out "[]" out] assms by (cases "sweep_crops cutoff [] [] ps w [] out") auto
  from sweep_crops_spec [OF this] show ?thesis by simp
qed

definition orphaned :: "istore \<Rightarrow> rat \<Rightarrow> path \<Rightarrow> path \<Rightarrow> bool" where
  \<comment> \<open>an old JPEG under the directory that no row names, or an old half-written one\<close>
  "orphaned s cutoff base p \<longleftrightarrow> py_startswith p (base @ ''/'') \<and> removable cutoff (is_fs s) p \<and>
     (py_endswith (base_name p) ''.jpg'' \<and> p \<notin> set (crops_of s) \<union> set (frames_of s) \<or> py_endswith (base_name p) ''.jpg.part'')"

text \<open>
  C8. The sweep of orphaned files removes exactly the orphans: under the crop directory, the JPEGs that no row of any table names as crop or
  frame and the half-written files, when they are older than the grace period and the operating system lets go of them. No other
  file goes, no row changes, and when the directory is missing or the database does not answer nothing happens at all.
\<close>

theorem orphan_sweep_exact:
  "is_rows (snd (sweep_orphans ok now base grace s)) = is_rows s \<and>
   map_of (fs_files (is_fs (snd (sweep_orphans ok now base grace s)))) p =
     (if ok \<and> base \<in> set (fs_dirs (is_fs s)) \<and> orphaned s (now - (case grace of None \<Rightarrow> orphan_grace | Some g \<Rightarrow> g)) base p then None
      else map_of (fs_files (is_fs s)) p)"
proof (cases "ok \<and> base \<in> set (fs_dirs (is_fs s))")
  case True
  let ?cut = "now - (case grace of None \<Rightarrow> orphan_grace | Some g \<Rightarrow> g)" and ?w = "is_fs s" and ?ref = "crops_of s @ frames_of s"
  let ?none = "\<lparr>oo_removed = 0, oo_recent = 0, oo_failed = 0, oo_partials = 0, oo_missing = 0, oo_empty = 0\<rparr>"
  obtain w1 seen o1 where 1: "sweep_crops ?cut (crops_of s) ?ref (below base ''.jpg'' ?w) ?w [] ?none = (w1, seen, o1)" by (metis surj_pair)
  obtain w2 o2 where 2: "sweep_partials ?cut (below base ''.jpg.part'' w1) w1 o1 = (w2, o2)" by (metis surj_pair)
  have snd: "snd (sweep_orphans ok now base grace s) = s\<lparr>is_fs := w2\<rparr>"
    using True 1 2 by (auto simp: sweep_orphans_def Let_def)
  have below: "q \<in> set (below base suf w) \<longleftrightarrow> map_of (fs_files w) q \<noteq> None \<and> py_startswith q (base @ ''/'') \<and> py_endswith (base_name q) suf" for q suf w
    by (auto simp: below_def map_of_eq_None_iff)
  have m1: "map_of (fs_files w1) q = (if q \<in> set (below base ''.jpg'' ?w) \<and> q \<notin> set ?ref \<and> removable ?cut ?w q then None else map_of (fs_files ?w) q)"
    and e1: "fs_stat_err w1 = fs_stat_err ?w" "fs_unlink_err w1 = fs_unlink_err ?w" for q
    using sweep_crops_spec [OF 1] by auto
  have m2: "map_of (fs_files w2) q = (if q \<in> set (below base ''.jpg.part'' w1) \<and> removable ?cut w1 q then None else map_of (fs_files w1) q)" for q
    by (rule sweep_partials_spec [OF 2])
  have r: "removable ?cut w1 q \<longleftrightarrow> removable ?cut ?w q \<and> map_of (fs_files w1) q \<noteq> None" for q
    by (auto simp: removable_def e1 m1 split: option.splits if_splits)
  have ex: "removable ?cut ?w q \<Longrightarrow> map_of (fs_files ?w) q \<noteq> None" for q by (auto simp: removable_def split: option.splits)
  show ?thesis using True snd m1 [of p] m2 [of p] r [of p] ex [of p] below by (auto simp: orphaned_def)
next
  case False
  then show ?thesis by (auto simp: sweep_orphans_def Let_def)
qed

end
