(* ===== verification/Coverage_Sweep.thy ===== *)
theory Coverage_Sweep
  imports Search_Store "HOL-Library.Product_Lexorder"
begin

text \<open>
  The sweep that keeps the search index from outliving the footage, \<open>services/smartsearch/index/coverage.py\<close>. What the recorder answers to \<open>GET /coverage\<close> is a parameter, and so is whether the database
  answers the queries of a plan.
\<close>

subsection \<open>Spans and windows\<close>

definition edge_tolerance :: rat where
  "edge_tolerance = 2"

definition recent_grace :: rat where
  "recent_grace = 3600"

definition max_sweep_fraction :: rat where
  "max_sweep_fraction = 1/2"

definition coverage_tables :: "domain list" where
  \<comment> \<open>\<open>coverage.TABLES\<close>, a literal of its own\<close>
  "coverage_tables = [Person, Vehicles]"

type_synonym span = "epoch \<times> epoch \<times> nat"

definition table_spans :: "irow list \<Rightarrow> (string \<times> span) list" where
  \<comment> \<open>\<open>SELECT cam, min(ts), max(ts), count(*) ... GROUP BY cam\<close>\<close>
  "table_spans rows = map (\<lambda>c. let ts = map ir_ts (filter (\<lambda>r. ir_camera r = c) rows) in (c, fold min ts (hd ts), fold max ts (hd ts), length ts))
     (remdups (map ir_camera rows))"

definition add_span :: "string \<times> span \<Rightarrow> (string, span) dict \<Rightarrow> (string, span) dict" where
  "add_span x d = (case x of (c, lo, hi, n) \<Rightarrow>
     (case map_of d c of
        Some (p_lo, p_hi, p_n) \<Rightarrow> AList.update c (min p_lo lo, max p_hi hi, p_n + n) d
      | None \<Rightarrow> AList.update c (lo, hi, n) d))"

definition indexed_spans :: "istore \<Rightarrow> string option \<Rightarrow> (string, span) dict" where
  "indexed_spans s camera =
     fold add_span (concat (map (\<lambda>d. table_spans (filter (\<lambda>r. camera \<in> {None, Some []} \<or> camera = Some (ir_camera r)) (is_rows s d))) coverage_tables)) []"

record coverage_body =
  cv_earliest :: "epoch option"
  cv_latest :: "epoch option"
  cv_gaps :: "(epoch \<times> epoch) list"

datatype recorder_answer =
    Unknown                                \<comment> \<open>\<open>coverage_for\<close> returned \<open>None\<close>\<close>
  | Broken                                 \<comment> \<open>a body whose fields raise when they are read\<close>
  | Known coverage_body

type_synonym window = "epoch \<times> epoch \<times> string"

definition unrecorded_windows :: "coverage_body \<Rightarrow> epoch \<Rightarrow> epoch \<Rightarrow> window list" where
  "unrecorded_windows cov lo hi =
     (case (cv_earliest cov, cv_latest cov) of
        (Some earliest, Some latest) \<Rightarrow>
          (if lo < earliest - edge_tolerance then [(lo, min hi (earliest - edge_tolerance), ''before earliest segment'')] else []) @
          List.map_filter (\<lambda>(g_start, g_end).
            let g_lo = g_start + edge_tolerance; g_hi = g_end - edge_tolerance
            in if g_hi > g_lo then Some (max lo g_lo, min hi g_hi, ''recording gap'') else None) (cv_gaps cov) @
          (if hi > latest + edge_tolerance then [(max lo (latest + edge_tolerance), hi, ''after latest segment'')] else [])
      | _ \<Rightarrow> [(lo, hi, ''no footage at all'')])"

type_synonym merged = "epoch \<times> epoch \<times> string list"  \<comment> \<open>the reasons, which the code joins by \<open>" + "\<close>\<close>

fun merge_into :: "merged \<Rightarrow> window list \<Rightarrow> merged list" where
  \<comment> \<open>the first argument is \<open>out[-1]\<close>\<close>
  "merge_into m [] = [m]"
| "merge_into (p_lo, p_hi, p_why) ((lo, hi, why) # ws) =
     (if lo \<le> p_hi then merge_into (p_lo, max p_hi hi, if why \<in> set p_why then p_why else p_why @ [why]) ws
      else (p_lo, p_hi, p_why) # merge_into (lo, hi, [why]) ws)"

definition merge_windows :: "window list \<Rightarrow> merged list" where
  "merge_windows ws = (case sort ws of [] \<Rightarrow> [] | (lo, hi, why) # rest \<Rightarrow> merge_into (lo, hi, [why]) rest)"

definition count_rows :: "istore \<Rightarrow> string \<Rightarrow> epoch \<Rightarrow> epoch \<Rightarrow> nat" where
  "count_rows s camera lo hi = sum_list (map (\<lambda>d. length (filter (row_in_window camera lo hi) (is_rows s d))) coverage_tables)"

subsection \<open>The plan for one camera\<close>

datatype refusal = Coverage_unknown | Too_many nat nat | Plan_failed | Erase_failed

record plan =
  pl_camera :: string
  pl_windows :: "(epoch \<times> epoch \<times> string list \<times> nat) list"
  pl_rows :: nat
  pl_skipped :: "refusal option"
  pl_indexed :: nat

definition planned_windows :: "istore \<Rightarrow> string \<Rightarrow> merged list \<Rightarrow> (epoch \<times> epoch \<times> string list \<times> nat) list" where
  \<comment> \<open>the windows that hold rows, with their numbers\<close>
  "planned_windows s camera ws =
     filter (\<lambda>(_, _, _, n). n \<noteq> 0) (map (\<lambda>(start, stop, why). (start, stop, why, count_rows s camera start stop)) ws)"

definition plan_for_camera ::
  "(string \<Rightarrow> epoch \<Rightarrow> epoch \<Rightarrow> recorder_answer) \<Rightarrow> bool \<Rightarrow> istore \<Rightarrow> string \<Rightarrow> span \<Rightarrow> bool \<Rightarrow> epoch \<Rightarrow> plan option" where
  \<comment> \<open>\<open>None\<close>: it raises; the first flag says that the database answers\<close>
  "plan_for_camera ask db s camera sp force now =
     (case sp of (lo, hi0, rows) \<Rightarrow>
        let out = \<lparr>pl_camera = camera, pl_windows = [], pl_rows = 0, pl_skipped = None, pl_indexed = rows\<rparr>;
            hi = min hi0 (now - recent_grace)
        in if hi \<le> lo then Some out
           else case ask camera lo hi of
                  Unknown \<Rightarrow> Some (out\<lparr>pl_skipped := Some Coverage_unknown\<rparr>)
                | Broken \<Rightarrow> None
                | Known cov \<Rightarrow>
                    let ws = merge_windows (unrecorded_windows cov lo hi);
                        planned = planned_windows s camera ws;
                        total = sum_list (map (\<lambda>(_, _, _, n). n) planned)
                    in if ws \<noteq> [] \<and> \<not> db then None
                       else if \<not> force \<and> rows \<noteq> 0 \<and> of_nat total > of_nat rows * max_sweep_fraction
                       then Some (out\<lparr>pl_skipped := Some (Too_many total rows)\<rparr>)
                       else Some (out\<lparr>pl_windows := planned, pl_rows := total\<rparr>))"

subsection \<open>One sweep\<close>

record purge_result =
  pr_checked :: nat
  pr_erased :: nat
  pr_unlinked :: nat
  pr_failed :: nat
  pr_skipped :: "(string, refusal) dict"
  pr_plans :: "plan list"
  pr_error :: bool

fun erase_windows ::
  "(nat \<Rightarrow> bool) \<Rightarrow> string \<Rightarrow> (epoch \<times> epoch \<times> string list \<times> nat) list \<Rightarrow> purge_result \<Rightarrow> istore \<Rightarrow> (purge_result \<times> istore) option" where
  "erase_windows answers cam [] res s = Some (res, s)"
| "erase_windows answers cam ((start, stop, _, _) # ws) res s =
     (case erase_range answers cam start stop s of
        None \<Rightarrow> None
      | Some (ok, t, u) \<Rightarrow>
          if \<not> ok then Some (res\<lparr>pr_skipped := AList.update cam Erase_failed (pr_skipped res)\<rparr>, u)
          else erase_windows answers cam ws
                 (res\<lparr>pr_erased := pr_erased res + sum_list (map (ta_rows t) all_domains), pr_unlinked := pr_unlinked res + ta_crops t,
                    pr_failed := pr_failed res + ta_crops_failed t\<rparr>) u)"

definition purge_camera ::
  "(string \<Rightarrow> epoch \<Rightarrow> epoch \<Rightarrow> recorder_answer) \<Rightarrow> (string \<Rightarrow> bool) \<Rightarrow> (nat \<Rightarrow> bool) \<Rightarrow> bool \<Rightarrow> bool \<Rightarrow> epoch \<Rightarrow> string \<times> span \<Rightarrow> purge_result \<Rightarrow> istore
    \<Rightarrow> (purge_result \<times> istore) option" where
  "purge_camera ask db answers dry_run force now x res0 s =
     (case x of (cam, sp) \<Rightarrow>
        let res = res0\<lparr>pr_checked := Suc (pr_checked res0)\<rparr>
        in case plan_for_camera ask (db cam) s cam sp force now of
             None \<Rightarrow> Some (res\<lparr>pr_skipped := AList.update cam Plan_failed (pr_skipped res)\<rparr>, s)
           | Some p \<Rightarrow>
               (case pl_skipped p of
                  Some why \<Rightarrow> Some (res\<lparr>pr_skipped := AList.update cam why (pr_skipped res)\<rparr>, s)
                | None \<Rightarrow>
                    let res1 = res\<lparr>pr_plans := pr_plans res @ [p]\<rparr>
                    in if dry_run then Some (res1\<lparr>pr_erased := pr_erased res1 + pl_rows p\<rparr>, s)
                       else erase_windows answers cam (pl_windows p) res1 s))"

fun purge_cameras ::
  "(string \<Rightarrow> epoch \<Rightarrow> epoch \<Rightarrow> recorder_answer) \<Rightarrow> (string \<Rightarrow> bool) \<Rightarrow> (nat \<Rightarrow> bool) \<Rightarrow> bool \<Rightarrow> bool \<Rightarrow> epoch \<Rightarrow> (string \<times> span) list \<Rightarrow> purge_result \<Rightarrow> istore
    \<Rightarrow> (purge_result \<times> istore) option" where
  "purge_cameras ask db answers dry_run force now [] res s = Some (res, s)"
| "purge_cameras ask db answers dry_run force now (x # xs) res s =
     (case purge_camera ask db answers dry_run force now x res s of
        None \<Rightarrow> None
      | Some (res1, s1) \<Rightarrow> purge_cameras ask db answers dry_run force now xs res1 s1)"

definition purge_unrecorded ::
  "(string \<Rightarrow> epoch \<Rightarrow> epoch \<Rightarrow> recorder_answer) \<Rightarrow> bool \<Rightarrow> (string \<Rightarrow> bool) \<Rightarrow> (nat \<Rightarrow> bool) \<Rightarrow> string option \<Rightarrow> bool \<Rightarrow> bool \<Rightarrow> epoch \<Rightarrow> istore
    \<Rightarrow> (purge_result \<times> istore) option" where
  \<comment> \<open>the first flag says that the database answers the query for the spans\<close>
  "purge_unrecorded ask spans_ok db answers camera dry_run force now s =
     (let res = \<lparr>pr_checked = 0, pr_erased = 0, pr_unlinked = 0, pr_failed = 0, pr_skipped = [], pr_plans = [], pr_error = \<not> spans_ok\<rparr>
      in if \<not> spans_ok then Some (res, s)
         else purge_cameras ask db answers dry_run force now (sort_key fst (indexed_spans s camera)) res s)"

subsection \<open>What a plan may touch\<close>

definition unrecorded :: "coverage_body \<Rightarrow> epoch \<Rightarrow> bool" where
  \<comment> \<open>the recorder holds nothing at this time, nor within the tolerance of it\<close>
  "unrecorded cov t \<longleftrightarrow>
     (case (cv_earliest cov, cv_latest cov) of
        (Some earliest, Some latest) \<Rightarrow> t \<le> earliest - edge_tolerance \<or> latest + edge_tolerance \<le> t \<or>
          (\<exists>(a, b) \<in> set (cv_gaps cov). a + edge_tolerance \<le> t \<and> t \<le> b - edge_tolerance)
      | _ \<Rightarrow> True)"

lemma merge_into_covers:
  "sorted (p_lo # map fst ws) \<Longrightarrow>
    (\<exists>(lo, hi, _) \<in> set (merge_into (p_lo, p_hi, p_why) ws). lo \<le> t \<and> t \<le> hi) \<longleftrightarrow>
    p_lo \<le> t \<and> t \<le> p_hi \<or> (\<exists>(lo, hi, _) \<in> set ws. lo \<le> t \<and> t \<le> hi)"
proof (induction ws arbitrary: p_lo p_hi p_why)
  case (Cons w ws)
  obtain lo hi why where w: "w = (lo, hi, why)" by (cases w)
  show ?case
  proof (cases "lo \<le> p_hi")
    case True
    have "sorted (p_lo # map fst ws)" using Cons.prems w by auto
    from Cons.IH [OF this, of "max p_hi hi" "if why \<in> set p_why then p_why else p_why @ [why]"] Cons.prems True w show ?thesis
      by (auto simp: max_def)
  next
    case False
    have "sorted (lo # map fst ws)" using Cons.prems w by auto
    from Cons.IH [OF this, of hi "[why]"] False w show ?thesis by auto
  qed
qed auto

lemma sorted_map_fst: "sorted xs \<Longrightarrow> sorted (map fst xs)" for xs :: "(epoch \<times> epoch \<times> string) list"
  by (induction xs) (auto simp: less_eq_prod_def)

lemma merge_windows_covers:
  "(\<exists>(lo, hi, _) \<in> set (merge_windows ws). lo \<le> t \<and> t \<le> hi) \<longleftrightarrow> (\<exists>(lo, hi, _) \<in> set ws. lo \<le> t \<and> t \<le> hi)"
proof (cases "sort ws")
  case Nil
  then have "ws = []" by (metis set_empty set_sort)
  then show ?thesis by (simp add: merge_windows_def)
next
  case (Cons w rest)
  obtain lo hi why where w: "w = (lo, hi, why)" by (cases w)
  have "sorted (map fst (sort ws))" by (rule sorted_map_fst) simp
  then have "sorted (lo # map fst rest)" using Cons w by simp
  from merge_into_covers [OF this, of hi "[why]" t] Cons w
  have "(\<exists>(lo, hi, _) \<in> set (merge_windows ws). lo \<le> t \<and> t \<le> hi) \<longleftrightarrow> (\<exists>(lo, hi, _) \<in> set (sort ws). lo \<le> t \<and> t \<le> hi)"
    by (auto simp: merge_windows_def)
  then show ?thesis by simp
qed

lemma unrecorded_windows_sound:
  assumes "(a, b, why) \<in> set (unrecorded_windows cov lo hi)" "a \<le> t" "t \<le> b"
  shows "lo \<le> t \<and> t \<le> hi \<and> unrecorded cov t"
  using assms
  by (auto simp: unrecorded_windows_def unrecorded_def Let_def in_map_filter split: option.splits if_splits) force

lemma merged_window_sound:
  assumes "(a, b, why) \<in> set (merge_windows (unrecorded_windows cov lo hi))" "a \<le> t" "t \<le> b"
  shows "lo \<le> t \<and> t \<le> hi \<and> unrecorded cov t"
proof -
  have "\<exists>(a, b, _) \<in> set (merge_windows (unrecorded_windows cov lo hi)). a \<le> t \<and> t \<le> b" using assms by blast
  then obtain c d w where "(c, d, w) \<in> set (unrecorded_windows cov lo hi)" "c \<le> t" "t \<le> d" unfolding merge_windows_covers by blast
  then show ?thesis using unrecorded_windows_sound by blast
qed

definition justified :: "(string \<Rightarrow> epoch \<Rightarrow> epoch \<Rightarrow> recorder_answer) \<Rightarrow> epoch \<Rightarrow> irow \<Rightarrow> bool" where
  \<comment> \<open>asked about a span with the row's time in it the recorder said that it holds nothing then, and the row is past the grace\<close>
  "justified ask now r \<longleftrightarrow> ir_ts r \<le> now - recent_grace \<and> (\<exists>lo hi cov. lo \<le> ir_ts r \<and> ir_ts r \<le> hi \<and> lo < hi \<and>
     ask (ir_camera r) lo hi = Known cov \<and> unrecorded cov (ir_ts r))"

lemma plan_sound:
  assumes "plan_for_camera ask db s camera (lo, hi, rows) force now = Some p" "pl_skipped p = None"
  shows "\<forall>(start, stop, why, n) \<in> set (pl_windows p). n = count_rows s camera start stop \<and>
      (\<forall>r. row_in_window camera start stop r \<longrightarrow> justified ask now r)"
    and "\<not> force \<Longrightarrow> rows \<noteq> 0 \<Longrightarrow> 2 * sum_list (map (\<lambda>(_, _, _, n). n) (pl_windows p)) \<le> rows"
proof -
  let ?hi = "min hi (now - recent_grace)"
  show "\<forall>(start, stop, why, n) \<in> set (pl_windows p). n = count_rows s camera start stop \<and>
      (\<forall>r. row_in_window camera start stop r \<longrightarrow> justified ask now r)"
  proof (cases "pl_windows p = []")
    case False
    then obtain cov where cov: "ask camera lo ?hi = Known cov" and lh: "\<not> ?hi \<le> lo"
      and p: "pl_windows p = planned_windows s camera (merge_windows (unrecorded_windows cov lo ?hi))"
      using assms by (auto simp: plan_for_camera_def Let_def split: if_splits recorder_answer.splits)
    have "justified ask now r" if "(a, b, why) \<in> set (merge_windows (unrecorded_windows cov lo ?hi))" "row_in_window camera a b r" for a b why r
    proof -
      have "lo \<le> ir_ts r \<and> ir_ts r \<le> ?hi \<and> unrecorded cov (ir_ts r)" "ir_camera r = camera"
        using merged_window_sound [OF that(1), of "ir_ts r"] that(2) by (simp_all add: row_in_window_def)
      moreover from this have "ir_ts r \<le> now - recent_grace" by simp
      ultimately show ?thesis using cov lh [unfolded not_le] unfolding justified_def by blast
    qed
    then show ?thesis unfolding p planned_windows_def by auto
  qed simp
  show "2 * sum_list (map (\<lambda>(_, _, _, n). n) (pl_windows p)) \<le> rows" if "\<not> force" "rows \<noteq> 0"
  proof -
    have "of_nat (sum_list (map (\<lambda>(_, _, _, n). n) (pl_windows p))) \<le> (of_nat rows * max_sweep_fraction :: rat)"
      using assms that by (auto simp: plan_for_camera_def Let_def max_sweep_fraction_def split: if_splits recorder_answer.splits)
    then have "of_nat (2 * sum_list (map (\<lambda>(_, _, _, n). n) (pl_windows p))) \<le> (of_nat rows :: rat)"
      by (simp add: max_sweep_fraction_def)
    then show ?thesis by (simp only: of_nat_le_iff)
  qed
qed

subsection \<open>What a sweep may touch\<close>

lemma length_filter_mono: "(\<And>x. x \<in> set xs \<Longrightarrow> P x \<Longrightarrow> Q x) \<Longrightarrow> length (filter P xs) \<le> length (filter Q xs)"
  by (induction xs) (auto simp: le_SucI)

definition thinned :: "istore \<Rightarrow> istore \<Rightarrow> bool" where
  \<comment> \<open>nothing but the loss of rows\<close>
  "thinned s u \<longleftrightarrow> (\<forall>d. \<exists>Q. is_rows u d = filter Q (is_rows s d))"

lemma thinned_refl: "thinned s s"
  unfolding thinned_def by (intro allI exI [of _ "\<lambda>_. True"]) simp

lemma thinned_trans: "thinned s t \<Longrightarrow> thinned t u \<Longrightarrow> thinned s u"
  unfolding thinned_def by (metis filter_filter)

lemma thinned_sub: "thinned s u \<Longrightarrow> set (is_rows u d) \<subseteq> set (is_rows s d)"
  unfolding thinned_def by (metis filter_is_subset)

lemma thinned_count: "thinned s u \<Longrightarrow> length (filter P (is_rows u d)) \<le> length (filter P (is_rows s d))"
proof -
  assume "thinned s u"
  then obtain Q where "is_rows u d = filter Q (is_rows s d)" by (auto simp: thinned_def)
  then have "filter P (is_rows u d) = filter (\<lambda>x. Q x \<and> P x) (is_rows s d)" by simp
  moreover have "length (filter (\<lambda>x. Q x \<and> P x) (is_rows s d)) \<le> length (filter P (is_rows s d))" by (rule length_filter_mono) simp
  ultimately show ?thesis by simp
qed

definition camera_count :: "istore \<Rightarrow> string \<Rightarrow> nat" where
  \<comment> \<open>the camera's rows in the tables that the sweep counts\<close>
  "camera_count s c = sum_list (map (\<lambda>d. length (filter (\<lambda>r. ir_camera r = c) (is_rows s d))) coverage_tables)"

lemma filter_minus: "length (filter P xs) \<le> length (filter P (filter Q xs)) + length (filter (\<lambda>x. P x \<and> \<not> Q x) xs)"
  by (induction xs) auto

lemma erase_range_thins:
  assumes "ids_distinct s"
  shows "\<exists>ok t u. erase_range answers c lo hi s = Some (ok, t, u) \<and> ids_distinct u \<and> thinned s u \<and>
    (\<forall>d. \<forall>r \<in> set (is_rows s d) - set (is_rows u d). row_in_window c lo hi r) \<and> camera_count s c \<le> camera_count u c + count_rows s c lo hi \<and>
    (\<forall>b. b \<noteq> c \<longrightarrow> camera_count u b = camera_count s b)"
proof -
  obtain ok t u I where e: "erase_range answers c lo hi s = Some (ok, t, u)" "delete_result (row_in_window c lo hi) all_domains s no_tally I ok t u"
    using erase_range_result [OF assms, of answers c lo hi] by blast
  then have rows: "is_rows u d = filter (\<lambda>r. \<not> (row_in_window c lo hi r \<and> ir_id r \<in> I d)) (is_rows s d)" "is_seq u = is_seq s" for d
    by (simp_all add: delete_result_def kept_def)
  have "ids_distinct u" using assms by (auto simp: ids_distinct_def rows distinct_map_filter_key)
  moreover have "thinned s u" by (auto simp: thinned_def rows)
  moreover have part: "length (filter (\<lambda>r. ir_camera r = c) (is_rows s d)) \<le>
      length (filter (\<lambda>r. ir_camera r = c) (is_rows u d)) + length (filter (row_in_window c lo hi) (is_rows s d))" for d
  proof -
    have "length (filter (\<lambda>x. ir_camera x = c \<and> \<not> \<not> (row_in_window c lo hi x \<and> ir_id x \<in> I d)) (is_rows s d)) \<le> length (filter (row_in_window c lo hi) (is_rows s d))"
      by (rule length_filter_mono) simp
    then show ?thesis using filter_minus [of "\<lambda>r. ir_camera r = c" "is_rows s d" "\<lambda>r. \<not> (row_in_window c lo hi r \<and> ir_id r \<in> I d)"] unfolding rows by linarith
  qed
  moreover have "camera_count s c \<le> camera_count u c + count_rows s c lo hi"
    using part [of Person] part [of Vehicles] by (simp add: camera_count_def count_rows_def coverage_tables_def)
  moreover have "camera_count u b = camera_count s b" if "b \<noteq> c" for b
  proof -
    have "filter (\<lambda>r. ir_camera r = b) (is_rows u d) = filter (\<lambda>r. ir_camera r = b) (is_rows s d)" for d
      using that by (auto simp: rows row_in_window_def intro: filter_cong)
    then show ?thesis by (simp add: camera_count_def)
  qed
  ultimately show ?thesis using e(1) by (auto simp: rows)
qed

lemma erase_windows_thins:
  assumes "ids_distinct s"
  shows "\<exists>res' u. erase_windows answers c ws res s = Some (res', u) \<and> ids_distinct u \<and> thinned s u \<and>
    (\<forall>d. \<forall>r \<in> set (is_rows s d) - set (is_rows u d). \<exists>(start, stop, _) \<in> set ws. row_in_window c start stop r) \<and>
    camera_count s c \<le> camera_count u c + sum_list (map (\<lambda>(start, stop, _). count_rows s c start stop) ws) \<and>
    (\<forall>b. b \<noteq> c \<longrightarrow> camera_count u b = camera_count s b)"
  using assms
proof (induction ws arbitrary: res s)
  case Nil
  then show ?case by (simp add: thinned_refl)
next
  case (Cons w ws)
  obtain start stop why n where w: "w = (start, stop, why, n)" by (cases w)
  obtain ok t v where e: "erase_range answers c start stop s = Some (ok, t, v)" "ids_distinct v" "thinned s v"
    "\<forall>d. \<forall>r \<in> set (is_rows s d) - set (is_rows v d). row_in_window c start stop r" "camera_count s c \<le> camera_count v c + count_rows s c start stop"
    "\<forall>b. b \<noteq> c \<longrightarrow> camera_count v b = camera_count s b"
    using erase_range_thins [OF Cons.prems] by metis
  show ?case
  proof (cases ok)
    case False
    then have "erase_windows answers c (w # ws) res s = Some (res\<lparr>pr_skipped := AList.update c Erase_failed (pr_skipped res)\<rparr>, v)"
      using e(1) w by simp
    then show ?thesis using e(2-6) w by fastforce
  next
    case True
    let ?res = "res\<lparr>pr_erased := pr_erased res + sum_list (map (ta_rows t) all_domains), pr_unlinked := pr_unlinked res + ta_crops t,
                    pr_failed := pr_failed res + ta_crops_failed t\<rparr>"
    from Cons.IH [OF e(2), of ?res] obtain res' u where i: "erase_windows answers c ws ?res v = Some (res', u)" "ids_distinct u" "thinned v u"
      "\<forall>d. \<forall>r \<in> set (is_rows v d) - set (is_rows u d). \<exists>(start, stop, _) \<in> set ws. row_in_window c start stop r"
      "camera_count v c \<le> camera_count u c + sum_list (map (\<lambda>(start, stop, _). count_rows v c start stop) ws)"
      "\<forall>b. b \<noteq> c \<longrightarrow> camera_count u b = camera_count v b" by blast
    have "count_rows v c a b \<le> count_rows s c a b" for a b
      using thinned_count [OF e(3)] by (simp add: count_rows_def coverage_tables_def add_mono)
    then have "sum_list (map (\<lambda>(start, stop, _). count_rows v c start stop) ws) \<le> sum_list (map (\<lambda>(start, stop, _). count_rows s c start stop) ws)"
      by (intro sum_list_mono) (auto split: prod.splits)
    then have "camera_count s c \<le> camera_count u c + sum_list (map (\<lambda>(start, stop, _). count_rows s c start stop) (w # ws))"
      using e(5) i(5) w by simp
    moreover have "\<forall>d. \<forall>r \<in> set (is_rows s d) - set (is_rows u d). \<exists>(start, stop, _) \<in> set (w # ws). row_in_window c start stop r"
    proof (intro allI ballI)
      fix d r assume r: "r \<in> set (is_rows s d) - set (is_rows u d)"
      show "\<exists>(start, stop, _) \<in> set (w # ws). row_in_window c start stop r"
      proof (cases "r \<in> set (is_rows v d)")
        case True
        then have "r \<in> set (is_rows v d) - set (is_rows u d)" using r by simp
        then have "\<exists>(start, stop, _) \<in> set ws. row_in_window c start stop r" using i(4) by blast
        then show ?thesis by simp
      next
        case False
        then have "row_in_window c start stop r" using e(4) r by blast
        then show ?thesis by (simp add: w)
      qed
    qed
    moreover have "erase_windows answers c (w # ws) res s = Some (res', u)" using e(1) True i(1) w by simp
    ultimately show ?thesis using i(2,6) e(6) thinned_trans [OF e(3) i(3)] by auto
  qed
qed

subsection \<open>The spans count every row they should\<close>

definition span_count :: "(string, span) dict \<Rightarrow> string \<Rightarrow> nat" where
  "span_count d c = (case map_of d c of None \<Rightarrow> 0 | Some (lo, hi, n) \<Rightarrow> n)"

lemma span_count_add: "span_count (add_span (k, lo, hi, n) d) c = span_count d c + (if k = c then n else 0)"
  by (auto simp: span_count_def add_span_def update_conv' split: option.splits)

lemma span_count_fold: "span_count (fold add_span xs d) c = span_count d c + sum_list (map (\<lambda>(k, _, _, n). if k = c then n else 0) xs)"
proof (induction xs arbitrary: d)
  case (Cons x xs)
  obtain k lo hi n where x: "x = (k, lo, hi, n)" by (cases x)
  show ?case using Cons.IH [of "add_span x d"] by (simp add: x span_count_add)
qed simp

lemma distinct_spans: "distinct (map fst d) \<Longrightarrow> distinct (map fst (fold add_span xs d))"
  by (induction xs arbitrary: d) (auto simp: add_span_def distinct_update split: option.splits prod.splits)

lemma sum_list_single: "distinct xs \<Longrightarrow> sum_list (map (\<lambda>x. if x = c then f x else 0) xs) = (if c \<in> set xs then f c else (0 :: nat))"
  by (induction xs) auto

lemma table_spans_count:
  "sum_list (map (\<lambda>(k, _, _, n). if k = c then n else 0) (table_spans rows)) = length (filter (\<lambda>r. ir_camera r = c) rows)"
proof -
  have "sum_list (map (\<lambda>(k, _, _, n). if k = c then n else 0) (table_spans rows)) =
      sum_list (map (\<lambda>k. if k = c then length (filter (\<lambda>r. ir_camera r = k) rows) else 0) (remdups (map ir_camera rows)))"
    unfolding table_spans_def map_map by (intro arg_cong [where f = sum_list] map_cong refl) (simp add: Let_def comp_def)
  also have "\<dots> = (if c \<in> set (map ir_camera rows) then length (filter (\<lambda>r. ir_camera r = c) rows) else 0)"
    by (subst sum_list_single) simp_all
  also have "\<dots> = length (filter (\<lambda>r. ir_camera r = c) rows)" by (auto simp: filter_empty_conv)
  finally show ?thesis .
qed

lemma spans_count:
  assumes "(c, lo, hi, n) \<in> set (indexed_spans s camera)"
  shows "n \<le> camera_count s c"
proof -
  let ?P = "\<lambda>r. camera \<in> {None, Some []} \<or> camera = Some (ir_camera r)"
  have "map_of (indexed_spans s camera) c = Some (lo, hi, n)"
    using assms distinct_spans [of "[]"] by (intro map_of_is_SomeI) (simp_all add: indexed_spans_def)
  then have "n = span_count (indexed_spans s camera) c" by (simp add: span_count_def)
  also have "\<dots> = sum_list (map (\<lambda>d. length (filter (\<lambda>r. ir_camera r = c) (filter ?P (is_rows s d)))) coverage_tables)"
    by (simp only: indexed_spans_def span_count_fold coverage_tables_def list.map concat.simps append_Nil2 map_append sum_list.append table_spans_count)
      (simp add: span_count_def)
  also have "\<dots> \<le> camera_count s c"
    unfolding camera_count_def filter_filter by (intro sum_list_mono length_filter_mono) simp
  finally show ?thesis .
qed

subsection \<open>One camera, and all of them\<close>

definition braked :: "bool \<Rightarrow> nat \<Rightarrow> nat \<Rightarrow> nat \<Rightarrow> bool" where
  \<comment> \<open>not more than half of the counted rows went\<close>
  "braked force n before after \<longleftrightarrow> force \<or> n = 0 \<or> 2 * before \<le> 2 * after + n"

lemma braked_refl: "braked force n m m"
  by (simp add: braked_def)

lemma purge_camera_thins:
  assumes "ids_distinct s"
  shows "\<exists>res' u. purge_camera ask db answers dry_run force now (c, lo, hi, n) res s = Some (res', u) \<and> ids_distinct u \<and> thinned s u \<and>
    (\<forall>d. \<forall>r \<in> set (is_rows s d) - set (is_rows u d). ir_camera r = c \<and> justified ask now r) \<and>
    braked force n (camera_count s c) (camera_count u c) \<and>
    (\<forall>b. b \<noteq> c \<longrightarrow> camera_count u b = camera_count s b)"
proof (cases "plan_for_camera ask (db c) s c (lo, hi, n) force now")
  case None
  then show ?thesis using assms by (simp add: purge_camera_def Let_def thinned_refl braked_refl)
next
  case (Some p)
  show ?thesis
  proof (cases "pl_skipped p = None \<and> \<not> dry_run")
    case False
    then show ?thesis using assms Some by (cases "pl_skipped p") (auto simp: purge_camera_def Let_def thinned_refl braked_refl)
  next
    case True
    let ?res = "res\<lparr>pr_checked := Suc (pr_checked res), pr_plans := pr_plans res @ [p]\<rparr>"
    from erase_windows_thins [OF assms, of answers c "pl_windows p" ?res] obtain res' u where
      e: "erase_windows answers c (pl_windows p) ?res s = Some (res', u)" "ids_distinct u" "thinned s u"
      "\<forall>d. \<forall>r \<in> set (is_rows s d) - set (is_rows u d). \<exists>(start, stop, _) \<in> set (pl_windows p). row_in_window c start stop r"
      "camera_count s c \<le> camera_count u c + sum_list (map (\<lambda>(start, stop, _). count_rows s c start stop) (pl_windows p))"
      "\<forall>b. b \<noteq> c \<longrightarrow> camera_count u b = camera_count s b"
      by blast
    have run: "purge_camera ask db answers dry_run force now (c, lo, hi, n) res s = Some (res', u)"
      using Some True e(1) by (simp add: purge_camera_def Let_def)
    note sound = plan_sound [OF Some conjunct1 [OF True]]
    have "ir_camera r = c \<and> justified ask now r" if "r \<in> set (is_rows s d) - set (is_rows u d)" for d r
    proof -
      have "\<exists>(start, stop, _) \<in> set (pl_windows p). row_in_window c start stop r" using e(4) that by blast
      then obtain a b w k where "(a, b, w, k) \<in> set (pl_windows p)" "row_in_window c a b r" by (elim bexE) (auto split: prod.splits)
      then show ?thesis using sound(1) by (auto simp: row_in_window_def)
    qed
    moreover have "sum_list (map (\<lambda>(start, stop, _). count_rows s c start stop) (pl_windows p)) = sum_list (map (\<lambda>(_, _, _, k). k) (pl_windows p))"
      using sound(1) by (intro arg_cong [where f = sum_list] map_cong refl) auto
    then have "braked force n (camera_count s c) (camera_count u c)" using e(5) sound(2) unfolding braked_def by linarith
    ultimately show ?thesis using run e(2,3,6) by (intro exI [of _ res'] exI [of _ u]) simp
  qed
qed

lemma purge_cameras_thins:
  assumes "ids_distinct s" "distinct (map fst xs)"
  shows "\<exists>res' u. purge_cameras ask db answers dry_run force now xs res s = Some (res', u) \<and> ids_distinct u \<and> thinned s u \<and>
    (\<forall>d. \<forall>r \<in> set (is_rows s d) - set (is_rows u d). justified ask now r) \<and>
    (\<forall>(c, lo, hi, n) \<in> set xs. braked force n (camera_count s c) (camera_count u c)) \<and>
    (\<forall>b. b \<notin> fst ` set xs \<longrightarrow> camera_count u b = camera_count s b)"
  using assms
proof (induction xs arbitrary: res s)
  case Nil
  then show ?case by (simp add: thinned_refl)
next
  case (Cons x xs)
  obtain c lo hi n where x: "x = (c, lo, hi, n)" by (cases x)
  from purge_camera_thins [OF Cons.prems(1), of ask db answers dry_run force now c lo hi n res] obtain r1 v where
    a: "purge_camera ask db answers dry_run force now x res s = Some (r1, v)" "ids_distinct v" "thinned s v"
      "\<forall>d. \<forall>r \<in> set (is_rows s d) - set (is_rows v d). ir_camera r = c \<and> justified ask now r"
      "braked force n (camera_count s c) (camera_count v c)" "\<forall>b. b \<noteq> c \<longrightarrow> camera_count v b = camera_count s b"
    unfolding x by blast
  have "distinct (map fst xs)" using Cons.prems(2) by simp
  from Cons.IH [OF a(2) this, of r1] obtain r2 u where
    b: "purge_cameras ask db answers dry_run force now xs r1 v = Some (r2, u)" "ids_distinct u" "thinned v u"
      "\<forall>d. \<forall>r \<in> set (is_rows v d) - set (is_rows u d). justified ask now r"
      "\<forall>(c, lo, hi, n) \<in> set xs. braked force n (camera_count v c) (camera_count u c)"
      "\<forall>b. b \<notin> fst ` set xs \<longrightarrow> camera_count u b = camera_count v b" by blast
  have c: "c \<notin> fst ` set xs" using Cons.prems(2) x by simp
  have "braked force n (camera_count s e) (camera_count u e)" if "(e, lo, hi, n) \<in> set xs" for e lo hi n
  proof -
    have "e \<noteq> c" using that c by (metis fst_conv image_eqI)
    then have "camera_count v e = camera_count s e" using a(6) by simp
    then show ?thesis using b(5) that by auto
  qed
  then have "\<forall>(e, lo, hi, n) \<in> set xs. braked force n (camera_count s e) (camera_count u e)" by auto
  moreover have "braked force n (camera_count s c) (camera_count u c)" using a(5) b(6) c by simp
  moreover have "\<forall>d. \<forall>r \<in> set (is_rows s d) - set (is_rows u d). justified ask now r" using a(4) b(4) by blast
  moreover have "\<forall>e. e \<notin> fst ` set (x # xs) \<longrightarrow> camera_count u e = camera_count s e" using a(6) b(6) x by auto
  moreover have "purge_cameras ask db answers dry_run force now (x # xs) res s = Some (r2, u)" using a(1) b(1) by simp
  ultimately show ?case using b(2) thinned_trans [OF a(3) b(3)] x by auto
qed

lemma in_update: "x \<in> set (AList.update k v d) \<Longrightarrow> x = (k, v) \<or> x \<in> set d"
  by (induction d) (auto split: if_splits)

lemma spans_positive:
  assumes "(c, lo, hi, n) \<in> set (indexed_spans s camera)"
  shows "0 < n"
proof -
  have step: "0 < k" if "(c, lo, hi, k) \<in> set (fold add_span xs d)" "\<forall>(_, _, _, n) \<in> set xs. 0 < n" "\<forall>(_, _, _, n) \<in> set d. 0 < n" for c lo hi k xs d
    using that
  proof (induction xs arbitrary: d)
    case (Cons x xs)
    obtain b l h m where x: "x = (b, l, h, m)" by (cases x)
    have "\<forall>(_, _, _, n) \<in> set (add_span x d). 0 < n"
      using Cons.prems(2,3) x by (fastforce simp: add_span_def split: option.splits dest!: in_update)
    then show ?case using Cons by (intro Cons.IH [of "add_span x d"]) auto
  qed auto
  have pos: "\<forall>(_, _, _, n) \<in> set (table_spans rows). 0 < n" for rows
    by (auto simp: table_spans_def Let_def filter_empty_conv)
  have "\<forall>(_, _, _, n) \<in> set (concat (map (\<lambda>d. table_spans (f d)) coverage_tables)). 0 < n" for f :: "domain \<Rightarrow> irow list"
    using pos [of "f Person"] pos [of "f Vehicles"] by (auto simp: coverage_tables_def)
  then show ?thesis using step [OF assms [unfolded indexed_spans_def]] by auto
qed

lemma purge_unrecorded_thins:
  assumes "ids_distinct s"
  shows "\<exists>res u. purge_unrecorded ask spans_ok db answers camera dry_run force now s = Some (res, u) \<and>
    (\<forall>d. \<forall>r \<in> set (is_rows s d) - set (is_rows u d). justified ask now r) \<and>
    (\<forall>c. force \<or> camera_count s c \<le> 2 * camera_count u c)"
proof (cases spans_ok)
  case False
  then show ?thesis by (simp add: purge_unrecorded_def)
next
  case True
  let ?xs = "sort_key fst (indexed_spans s camera)"
  let ?res = "\<lparr>pr_checked = 0, pr_erased = 0, pr_unlinked = 0, pr_failed = 0, pr_skipped = [], pr_plans = [], pr_error = False\<rparr>"
  have "distinct (map fst ?xs)"
    using distinct_spans [of "[]"] by (simp add: indexed_spans_def distinct_map)
  from purge_cameras_thins [OF assms this, of ask db answers dry_run force now ?res] obtain res u where
    u: "purge_cameras ask db answers dry_run force now ?xs ?res s = Some (res, u)"
      "\<forall>d. \<forall>r \<in> set (is_rows s d) - set (is_rows u d). justified ask now r"
      "\<forall>(c, lo, hi, n) \<in> set ?xs. braked force n (camera_count s c) (camera_count u c)"
      "\<forall>b. b \<notin> fst ` set ?xs \<longrightarrow> camera_count u b = camera_count s b"
    by blast
  have "force \<or> camera_count s c \<le> 2 * camera_count u c" for c
  proof (cases "c \<in> fst ` set ?xs")
    case True
    then obtain lo hi n where x: "(c, lo, hi, n) \<in> set ?xs" by auto
    then have "braked force n (camera_count s c) (camera_count u c)" using u(3) by auto
    moreover have "0 < n" "n \<le> camera_count s c" using x spans_positive spans_count by simp_all
    ultimately show ?thesis by (auto simp: braked_def)
  next
    case False
    then show ?thesis using u(4) by simp
  qed
  then have "\<forall>c. force \<or> camera_count s c \<le> 2 * camera_count u c" by blast
  then show ?thesis using True u(1,2) unfolding purge_unrecorded_def Let_def by (simp only: simp_thms if_False) blast
qed

text \<open>
  C5. The coverage sweep that runs unattended does no damage. Whatever the recorder answers and whichever statements fail, it ends, and a
  row disappears, from whichever table, only if the row is older than the grace period and the recorder said for its camera that it
  holds nothing at the row's time nor within the tolerance of it; an unknown answer erases nothing. And of the person and vehicle rows of any
  camera, at least half are left.
\<close>

theorem coverage_sweep_safe:
  assumes "ids_distinct s"
  shows "\<exists>res u. purge_unrecorded ask spans_ok db answers camera dry_run False now s = Some (res, u) \<and>
    (\<forall>d. \<forall>r \<in> set (is_rows s d) - set (is_rows u d). justified ask now r) \<and>
    (\<forall>c. camera_count s c \<le> 2 * camera_count u c)"
  using purge_unrecorded_thins [OF assms, of ask spans_ok db answers camera dry_run False now] by simp

definition sample_answer :: "string \<Rightarrow> epoch \<Rightarrow> epoch \<Rightarrow> recorder_answer" where
  "sample_answer c lo hi = (if c = ''a'' then Known \<lparr>cv_earliest = Some 5000, cv_latest = Some 20000, cv_gaps = []\<rparr> else Unknown)"

definition face_store :: istore where
  "face_store = sample_store\<lparr>is_rows := (\<lambda>d. if d = Person then [sample_row 1 ''a'' 0, sample_row 2 ''a'' 9000, sample_row 3 ''b'' 10]
     else if d = Face then [sample_row 1 ''a'' 1, sample_row 2 ''a'' 2, sample_row 3 ''a'' 3] else []), is_seq := 3\<rparr>"

lemma face_store_ids: "ids_distinct face_store"
  by (simp add: ids_distinct_def face_store_def sample_row_def)

theorem coverage_sweep_safe_witness:
  "\<exists>res u. purge_unrecorded sample_answer True (\<lambda>_. True) (\<lambda>_. True) None False False 100000 face_store = Some (res, u) \<and>
     camera_count face_store ''a'' \<le> 2 * camera_count u ''a'' \<and> sample_row 3 ''b'' 10 \<in> set (is_rows u Person)"
proof -
  obtain res u where u: "purge_unrecorded sample_answer True (\<lambda>_. True) (\<lambda>_. True) None False False 100000 face_store = Some (res, u)"
    "\<forall>d. \<forall>r \<in> set (is_rows face_store d) - set (is_rows u d). justified sample_answer 100000 r"
    "\<forall>c. camera_count face_store c \<le> 2 * camera_count u c"
    using coverage_sweep_safe [OF face_store_ids, of sample_answer True "\<lambda>_. True" "\<lambda>_. True" None False 100000] by blast
  have "\<not> justified sample_answer 100000 (sample_row 3 ''b'' 10)" by (simp add: justified_def sample_answer_def sample_row_def)
  moreover have "sample_row 3 ''b'' 10 \<in> set (is_rows face_store Person)" by (simp add: face_store_def)
  ultimately show ?thesis using u by blast
qed

lemma faces_outside_brake:
  \<comment> \<open>the brake counts persons and vehicles, the erasure takes faces as well: one row of two counted, and every face row of the camera gone\<close>
  "map_option (\<lambda>(res, u). (pr_erased res, pr_skipped res, map ir_ts (is_rows u Face)))
     (purge_unrecorded sample_answer True (\<lambda>_. True) (\<lambda>_. True) (Some ''a'') False False 100000 face_store) = Some (4, [], [])"
  by code_simp

lemma faces_alone_never_swept:
  \<comment> \<open>a camera with face rows only is in no span, so it is never checked\<close>
  "is_rows s Person = [] \<Longrightarrow> is_rows s Vehicles = [] \<Longrightarrow>
    map_option (\<lambda>(res, u). (pr_checked res, u)) (purge_unrecorded ask True db answers camera dry_run force now s) = Some (0, s)"
  by (simp add: purge_unrecorded_def indexed_spans_def coverage_tables_def table_spans_def)

end
