(* ===== verification/Activities.thy ===== *)
theory Activities
  imports Prelude
begin

text \<open>
  The CPU activities, \<open>services/analytics/analytics/activities/\<close>: what an activity may be told (\<open>base.py\<close>: settings, zones, schedule), and
  what the implemented ones decide about a frame of tracked objects (\<open>stray_parking.py\<close>, \<open>restricted_zone_entry.py\<close>,
  \<open>people_gathering.py\<close>, \<open>entry_exit_WLE_logs.py\<close>). An event keeps its times as epochs. \<open>cv2.clipLine\<close> and the local time of an epoch
  are parameters.
\<close>

subsection \<open>Settings\<close>

datatype param_kind = Number | Text | Bool | List_of | Enum

record param =
  pm_key :: string
  pm_kind :: param_kind
  pm_default :: json
  pm_min :: "rat option"
  pm_max :: "rat option"
  pm_integer :: bool
  pm_options :: "json list option"
  pm_min_items :: "nat option"
  pm_aliases :: "(string, string) dict"

datatype problem =
    Not_a_number
  | Not_whole
  | Below_minimum
  | Above_maximum
  | Not_true_false
  | Not_text
  | Not_one_of
  | Not_a_list
  | Too_few "json list"
  | Unsupported "json list"

definition alias_of :: "param \<Rightarrow> json \<Rightarrow> json option" where
  \<comment> \<open>\<open>aliases.get(value, value)\<close>; \<^term>\<open>None\<close> is the \<open>TypeError\<close> of a value that cannot be hashed\<close>
  "alias_of p v =
     (case v of
        JStr s \<Rightarrow> Some (case map_of (pm_aliases p) s of Some t \<Rightarrow> JStr t | None \<Rightarrow> v)
      | JArr _ \<Rightarrow> None
      | JObj _ \<Rightarrow> None
      | _ \<Rightarrow> Some v)"

definition offered :: "param \<Rightarrow> json \<Rightarrow> bool" where
  "offered p v \<longleftrightarrow> (case pm_options p of None \<Rightarrow> True | Some vs \<Rightarrow> v \<in> set vs)"

definition normal_item :: "json \<Rightarrow> json" where
  "normal_item item = (case item of JStr s \<Rightarrow> JStr (py_lower (py_strip s)) | _ \<Rightarrow> item)"

fun keep_items :: "param \<Rightarrow> json list \<Rightarrow> json list \<Rightarrow> json list \<Rightarrow> (json list \<times> json list) option" where
  \<comment> \<open>the loop over a list: the values kept and the items dropped\<close>
  "keep_items p [] kept dropped = Some (kept, dropped)"
| "keep_items p (item # rest) kept dropped =
     (case alias_of p (normal_item item) of
        None \<Rightarrow> None
      | Some v \<Rightarrow>
          if \<not> offered p v then keep_items p rest kept (dropped @ [item])
          else if v \<notin> set kept then keep_items p rest (kept @ [v]) dropped
          else keep_items p rest kept dropped)"

definition is_whole :: "rat \<Rightarrow> bool" where
  "is_whole x \<longleftrightarrow> of_int \<lfloor>x\<rfloor> = x"

definition resolve_number :: "param \<Rightarrow> rat \<Rightarrow> json \<times> problem option" where
  "resolve_number p x =
     (if pm_integer p \<and> \<not> is_whole x then (pm_default p, Some Not_whole)
      else if (case pm_min p of Some m \<Rightarrow> x < m | None \<Rightarrow> False) then (pm_default p, Some Below_minimum)
      else if (case pm_max p of Some m \<Rightarrow> x > m | None \<Rightarrow> False) then (pm_default p, Some Above_maximum)
      else (JNum x, None))"

definition resolve_list :: "param \<Rightarrow> json list \<Rightarrow> (json \<times> problem option) option" where
  "resolve_list p items =
     (case keep_items p items [] [] of
        None \<Rightarrow> None
      | Some (kept, dropped) \<Rightarrow>
          Some (if (case pm_min_items p of Some n \<Rightarrow> length kept < n | None \<Rightarrow> False) then (pm_default p, Some (Too_few dropped))
                else (JArr kept, if dropped = [] then None else Some (Unsupported dropped))))"

definition resolve_param :: "param \<Rightarrow> json \<Rightarrow> (json \<times> problem option) option" where
  "resolve_param p raw =
     (case pm_kind p of
        Number \<Rightarrow> Some (case raw of JNum x \<Rightarrow> resolve_number p x | _ \<Rightarrow> (pm_default p, Some Not_a_number))
      | Bool \<Rightarrow> Some (case raw of JBool b \<Rightarrow> (raw, None) | _ \<Rightarrow> (pm_default p, Some Not_true_false))
      | Text \<Rightarrow> Some (case raw of JStr s \<Rightarrow> (raw, None) | _ \<Rightarrow> (pm_default p, Some Not_text))
      | Enum \<Rightarrow>
          Some (let v = (case raw of JStr s \<Rightarrow> (case map_of (pm_aliases p) s of Some t \<Rightarrow> JStr t | None \<Rightarrow> raw) | _ \<Rightarrow> raw)
                in if offered p v then (v, None) else (pm_default p, Some Not_one_of))
      | List_of \<Rightarrow> (case raw of JArr items \<Rightarrow> resolve_list p items | _ \<Rightarrow> Some (pm_default p, Some Not_a_list)))"

record resolved =
  rs_values :: "(string, json) dict"
  rs_defaulted :: "string list"
  rs_problems :: "(string, problem) dict"

fun resolve_params :: "param list \<Rightarrow> (string, json) dict \<Rightarrow> resolved \<Rightarrow> resolved option" where
  "resolve_params [] stored r = Some r"
| "resolve_params (p # ps) stored r =
     (case map_of stored (pm_key p) of
        Some raw \<Rightarrow>
          if raw = JNull
          then resolve_params ps stored (r\<lparr>rs_values := AList.update (pm_key p) (pm_default p) (rs_values r), rs_defaulted := rs_defaulted r @ [pm_key p]\<rparr>)
          else (case resolve_param p raw of
                  None \<Rightarrow> None
                | Some (v, why) \<Rightarrow>
                    resolve_params ps stored (r\<lparr>rs_values := AList.update (pm_key p) v (rs_values r),
                      rs_problems := (case why of Some w \<Rightarrow> AList.update (pm_key p) w (rs_problems r) | None \<Rightarrow> rs_problems r)\<rparr>))
      | None \<Rightarrow>
          resolve_params ps stored (r\<lparr>rs_values := AList.update (pm_key p) (pm_default p) (rs_values r), rs_defaulted := rs_defaulted r @ [pm_key p]\<rparr>))"

definition nothing_resolved :: resolved where
  "nothing_resolved = \<lparr>rs_values = [], rs_defaulted = [], rs_problems = []\<rparr>"

subsection \<open>Zones\<close>

datatype zone_kind = Area | Tripwire

record zone =
  z_key :: string
  z_name :: json
  z_kind :: zone_kind
  z_points :: "(rat \<times> rat) list"
  z_direction :: json
  z_implicit :: bool

definition full_frame :: zone where
  "full_frame = \<lparr>z_key = [], z_name = JNull, z_kind = Area, z_points = [(0, 0), (1, 0), (1, 1), (0, 1)], z_direction = JNull, z_implicit = True\<rparr>"

definition edge_flips :: "rat \<Rightarrow> rat \<Rightarrow> rat \<times> rat \<Rightarrow> rat \<times> rat \<Rightarrow> bool" where
  \<comment> \<open>the edge between two corners lies to the right of the point\<close>
  "edge_flips x y a b =
     (case (a, b) of ((xi, yi), (xj, yj)) \<Rightarrow> (yi > y) \<noteq> (yj > y) \<and> x < (xj - xi) * (y - yi) / (yj - yi) + xi)"

fun ray_cast :: "rat \<Rightarrow> rat \<Rightarrow> rat \<times> rat \<Rightarrow> (rat \<times> rat) list \<Rightarrow> bool \<Rightarrow> bool" where
  "ray_cast x y prev [] inside = inside"
| "ray_cast x y prev (p # ps) inside = ray_cast x y p ps (if edge_flips x y p prev then \<not> inside else inside)"

definition zone_contains :: "zone \<Rightarrow> rat \<times> rat \<Rightarrow> bool" where
  "zone_contains z q =
     (case q of (x, y) \<Rightarrow>
        if z_implicit z then 0 \<le> x \<and> x \<le> 1 \<and> 0 \<le> y \<and> y \<le> 1
        else if z_kind z \<noteq> Area \<or> length (z_points z) < 3 then False
        else ray_cast x y (last (z_points z)) (z_points z) False)"

datatype crash = Key_error | Type_error

definition json_truthy :: "json \<Rightarrow> bool" where
  "json_truthy v =
     (case v of JNull \<Rightarrow> False | JBool b \<Rightarrow> b | JNum x \<Rightarrow> x \<noteq> 0 | JStr s \<Rightarrow> s \<noteq> [] | JArr xs \<Rightarrow> xs \<noteq> [] | JObj kvs \<Rightarrow> kvs \<noteq> [])"

definition json_get :: "string \<Rightarrow> (string \<times> json) list \<Rightarrow> json" where
  "json_get k kvs = (case map_of kvs k of Some v \<Rightarrow> v | None \<Rightarrow> JNull)"

definition point_of :: "json \<Rightarrow> crash + (rat \<times> rat) option" where
  \<comment> \<open>\<open>(float(p[0]), float(p[1]))\<close>: a mapping has no item 0, and that \<open>KeyError\<close> is not among those caught\<close>
  "point_of p =
     (case p of
        JObj _ \<Rightarrow> Inl Key_error
      | _ \<Rightarrow> Inr (case json_items p of
                    Some (a # b # _) \<Rightarrow> (case (json_float a, json_float b) of (Some x, Some y) \<Rightarrow> Some (x, y) | _ \<Rightarrow> None)
                  | _ \<Rightarrow> None))"

fun points_of :: "json list \<Rightarrow> crash + (rat \<times> rat) list option" where
  \<comment> \<open>left to right, stopping at the first point that raises\<close>
  "points_of [] = Inr (Some [])"
| "points_of (p # ps) =
     (case point_of p of
        Inl e \<Rightarrow> Inl e
      | Inr None \<Rightarrow> Inr None
      | Inr (Some q) \<Rightarrow> (case points_of ps of Inl e \<Rightarrow> Inl e | Inr None \<Rightarrow> Inr None | Inr (Some qs) \<Rightarrow> Inr (Some (q # qs))))"

definition zone_from_region :: "string \<Rightarrow> json \<Rightarrow> crash + zone option" where
  "zone_from_region rid region =
     (case region of
        JObj kvs \<Rightarrow>
          let kind = json_get ''kind'' kvs; raw = json_get ''points'' kvs; name = json_get ''name'' kvs;
              mk = (\<lambda>k qs. Some \<lparr>z_key = rid, z_name = (if json_truthy name then name else JStr rid), z_kind = k, z_points = qs,
                                 z_direction = json_get ''direction'' kvs, z_implicit = False\<rparr>)
          in (case (if json_truthy raw then json_items raw else Some []) of
                None \<Rightarrow> Inr None
              | Some items \<Rightarrow>
                  (case points_of items of
                     Inl e \<Rightarrow> Inl e
                   | Inr None \<Rightarrow> Inr None
                   | Inr (Some qs) \<Rightarrow>
                       Inr (if kind = JStr ''zone'' \<and> length qs \<ge> 3 then mk Area qs
                            else if kind = JStr ''tripwire'' \<and> length qs = 2 then mk Tripwire qs else None)))
      | _ \<Rightarrow> Inr None)"

datatype zone_rule = Zone_optional | Zone_required | Zone_tripwire

fun configured_zones :: "json list \<Rightarrow> (string, json) dict \<Rightarrow> crash + zone list" where
  "configured_zones [] regions = Inr []"
| "configured_zones (r # rs) regions =
     (case r of
        JStr rid \<Rightarrow>
          (case zone_from_region rid (json_get rid regions) of
             Inl e \<Rightarrow> Inl e
           | Inr z \<Rightarrow> (case configured_zones rs regions of Inl e \<Rightarrow> Inl e | Inr zs \<Rightarrow> Inr (case z of Some y \<Rightarrow> y # zs | None \<Rightarrow> zs)))
      | _ \<Rightarrow> configured_zones rs regions)"

definition zones_by_rule :: "zone_rule \<Rightarrow> zone list \<Rightarrow> zone list" where
  "zones_by_rule rule zs =
     (if rule = Zone_tripwire then filter (\<lambda>z. z_kind z = Tripwire) zs
      else let areas = filter (\<lambda>z. z_kind z = Area) zs
           in if areas \<noteq> [] then areas else if rule = Zone_optional \<and> zs = [] then [full_frame] else [])"

definition resolve_zones :: "(string, json) dict \<Rightarrow> (string, json) dict \<Rightarrow> zone_rule \<Rightarrow> crash + zone list" where
  "resolve_zones activity regions rule =
     (let raw = json_get ''regions'' activity
      in case (if json_truthy raw then json_items raw else Some []) of
           None \<Rightarrow> Inl Type_error
         | Some rids \<Rightarrow> (case configured_zones rids regions of Inl e \<Rightarrow> Inl e | Inr zs \<Rightarrow> Inr (zones_by_rule rule zs)))"

subsection \<open>Schedule\<close>

definition day_digits :: "string \<Rightarrow> int option" where
  \<comment> \<open>\<open>p.isdigit()\<close> and \<open>int(p)\<close>\<close>
  "day_digits p = (if p \<noteq> [] \<and> list_all (\<lambda>c. digit_value c \<noteq> None) p then py_parse_int p else None)"

definition seconds_of_day :: "json \<Rightarrow> int option" where
  "seconds_of_day v =
     (case v of
        JStr t \<Rightarrow>
          (case map day_digits (split_on CHR '':'' (py_strip t)) of
             [Some h, Some m] \<Rightarrow>
               if h = 24 \<and> m = 0 then Some 86400 else if h \<le> 23 \<and> m \<le> 59 then Some (h * 3600 + m * 60) else None
           | [Some h, Some m, Some s] \<Rightarrow>
               if h = 24 \<and> m = 0 \<and> s = 0 then Some 86400
               else if h \<le> 23 \<and> m \<le> 59 \<and> s \<le> 59 then Some (h * 3600 + m * 60 + s) else None
           | _ \<Rightarrow> None)
      | _ \<Rightarrow> None)"

record schedule =
  sc_hours :: "(int \<times> int) option"       \<comment> \<open>\<open>start\<close> and \<open>end\<close>, set together\<close>
  sc_days :: "nat list option"

definition week :: "string list" where
  "week = [''mon'', ''tue'', ''wed'', ''thu'', ''fri'', ''sat'', ''sun'']"

definition day_text :: "json \<Rightarrow> string" where
  \<comment> \<open>\<open>str(d).strip().lower()[:3]\<close>; the text of anything but a string is no day's name\<close>
  "day_text d = (case d of JStr t \<Rightarrow> take 3 (py_lower (py_strip t)) | _ \<Rightarrow> [])"

definition schedule_from_params :: "(string, json) dict \<Rightarrow> crash + schedule" where
  "schedule_from_params params =
     (let hours = (case json_get ''active_hours'' params of
                     JObj kvs \<Rightarrow>
                       (case (seconds_of_day (json_get ''start'' kvs), seconds_of_day (json_get ''end'' kvs)) of
                          (Some s, Some e) \<Rightarrow> Some (s, e) | _ \<Rightarrow> None)
                   | _ \<Rightarrow> None);
          raw = json_get ''active_days'' params
      in if ''active_days'' \<notin> fst ` set params then Inr \<lparr>sc_hours = hours, sc_days = None\<rparr>
         else case (if json_truthy raw then json_items raw else Some []) of
                None \<Rightarrow> Inl Type_error
              | Some ds \<Rightarrow> Inr \<lparr>sc_hours = hours, sc_days = Some (filter (\<lambda>i. week ! i \<in> set (map day_text ds)) [0..<7])\<rparr>)"

type_synonym local_time = "epoch \<Rightarrow> nat \<times> int \<times> int \<times> int"
  \<comment> \<open>\<open>time.localtime\<close>: weekday (Monday 0), hour, minute, second\<close>

definition schedule_active :: "local_time \<Rightarrow> schedule \<Rightarrow> epoch \<Rightarrow> bool" where
  "schedule_active local sc ts =
     (case local ts of (wday, h, m, s) \<Rightarrow>
        if (case sc_days sc of Some ds \<Rightarrow> wday \<notin> set ds | None \<Rightarrow> False) then False
        else case sc_hours sc of
               None \<Rightarrow> True
             | Some (start, stop) \<Rightarrow>
                 let now = h * 3600 + m * 60 + s
                 in if start \<le> stop then start \<le> now \<and> now \<le> stop else now \<ge> start \<or> now \<le> stop)"

subsection \<open>Definitions, objects, events\<close>

record activity_def =
  df_key :: string
  df_available :: bool
  df_zone_rule :: zone_rule
  df_domains :: "string list"
  df_params :: "param list"

record activity_spec =
  sp_key :: string
  sp_params :: "(string, json) dict"
  sp_zones :: "zone list"
  sp_schedule :: schedule
  sp_defaulted :: "string list"
  sp_problems :: "(string, problem) dict"

definition mapping_of :: "json \<Rightarrow> (string, json) dict" where
  \<comment> \<open>\<open>dict(v) if isinstance(v, Mapping) else {}\<close>\<close>
  "mapping_of v = (case v of JObj kvs \<Rightarrow> kvs | _ \<Rightarrow> [])"

definition build_spec :: "activity_def \<Rightarrow> (string, json) dict \<Rightarrow> (string, json) dict \<Rightarrow> crash + activity_spec" where
  "build_spec df activity regions =
     (let stored = mapping_of (json_get ''params'' activity)
      in case resolve_params (df_params df) stored nothing_resolved of
           None \<Rightarrow> Inl Type_error
         | Some r \<Rightarrow>
             (case resolve_zones activity regions (df_zone_rule df) of
                Inl e \<Rightarrow> Inl e
              | Inr zs \<Rightarrow>
                  (case schedule_from_params stored of
                     Inl e \<Rightarrow> Inl e
                   | Inr sc \<Rightarrow> Inr \<lparr>sp_key = df_key df, sp_params = rs_values r, sp_zones = zs, sp_schedule = sc,
                                   sp_defaulted = rs_defaulted r, sp_problems = rs_problems r\<rparr>)))"

type_synonym nbox = "rat \<times> rat \<times> rat \<times> rat"

record tobject =
  o_track :: "string option"
  o_domain :: string
  o_label :: string
  o_confidence :: rat
  o_bbox :: nbox
  o_confirmed :: bool

definition anchor :: "tobject \<Rightarrow> rat \<times> rat" where
  \<comment> \<open>bottom centre\<close>
  "anchor o' = (case o_bbox o' of (x1, _, x2, y2) \<Rightarrow> ((x1 + x2) / 2, y2))"

definition center :: "tobject \<Rightarrow> rat \<times> rat" where
  "center o' = (case o_bbox o' of (x1, y1, x2, y2) \<Rightarrow> ((x1 + x2) / 2, (y1 + y2) / 2))"

definition anchor_px :: "int \<Rightarrow> int \<Rightarrow> tobject \<Rightarrow> rat \<times> rat" where
  "anchor_px w h o' = (case anchor o' of (x, y) \<Rightarrow> (x * of_int w, y * of_int h))"

definition width_px :: "int \<Rightarrow> tobject \<Rightarrow> rat" where
  "width_px w o' = (case o_bbox o' of (x1, _, x2, _) \<Rightarrow> (x2 - x1) * of_int w)"

record frame_ctx =
  fc_camera :: string
  fc_ts :: epoch
  fc_width :: int
  fc_height :: int
  fc_objects :: "tobject list"

definition round_to :: "nat \<Rightarrow> rat \<Rightarrow> rat" where
  \<comment> \<open>\<open>round(x, k)\<close>\<close>
  "round_to k x = of_int (round_half_even (x * 10 ^ k)) / 10 ^ k"

definition round_box :: "nbox \<Rightarrow> nbox" where
  "round_box b = (case b of (x1, y1, x2, y2) \<Rightarrow> (round_to 4 x1, round_to 4 y1, round_to 4 x2, round_to 4 y2))"

datatype direction = Entry | Exit

datatype attributes =
    Parked json nbox epoch rat                          \<comment> \<open>zone name, box, since when, seconds\<close>
  | Entered json nbox nat rat                           \<comment> \<open>zone name, box, people in the zone, cooldown\<close>
  | Gathered json nat "string list" nbox epoch rat      \<comment> \<open>zone name, count, track ids, box, since when, seconds\<close>
  | Crossed direction string json nbox                  \<comment> \<open>direction, tripwire id and name, box\<close>

record event =
  ev_camera :: string
  ev_activity :: string
  ev_started :: epoch
  ev_zone :: zone
  ev_confidence :: rat
  ev_track :: "string option"
  ev_class :: string
  ev_attributes :: attributes

subsection \<open>Stray parking\<close>

record parking_cfg =
  kc_classes :: "string list"
  kc_duration :: rat
  kc_zones :: "zone list"

record parking =
  pk_entered :: "(string \<times> string, epoch) dict"
  pk_reported :: "string set"

definition parking_init :: parking where
  "parking_init = \<lparr>pk_entered = [], pk_reported = {}\<rparr>"

definition set_default :: "'k \<Rightarrow> 'v \<Rightarrow> ('k, 'v) dict \<Rightarrow> ('k, 'v) dict" where
  "set_default k v d = (case map_of d k of Some _ \<Rightarrow> d | None \<Rightarrow> AList.update k v d)"

definition parked_event :: "frame_ctx \<Rightarrow> zone \<Rightarrow> string \<Rightarrow> tobject \<Rightarrow> epoch \<Rightarrow> event" where
  "parked_event ctx z t o' entered =
     \<lparr>ev_camera = fc_camera ctx, ev_activity = ''stray_parking'', ev_started = fc_ts ctx, ev_zone = z, ev_confidence = o_confidence o',
      ev_track = Some t, ev_class = o_label o',
      ev_attributes = Parked (z_name z) (round_box (o_bbox o')) entered (round_to 1 (fc_ts ctx - entered))\<rparr>"

fun park_zones :: "rat \<Rightarrow> frame_ctx \<Rightarrow> tobject \<Rightarrow> string \<Rightarrow> zone list \<Rightarrow> parking \<Rightarrow> event list \<times> parking" where
  \<comment> \<open>the zones of one vehicle; an event ends the loop\<close>
  "park_zones duration ctx o' t [] s = ([], s)"
| "park_zones duration ctx o' t (z # zs) s =
     (if \<not> zone_contains z (anchor o')
      then park_zones duration ctx o' t zs (s\<lparr>pk_entered := AList.delete (z_key z, t) (pk_entered s)\<rparr>)
      else let d = set_default (z_key z, t) (fc_ts ctx) (pk_entered s); entered = the (map_of d (z_key z, t))
           in if fc_ts ctx - entered < duration then park_zones duration ctx o' t zs (s\<lparr>pk_entered := d\<rparr>)
              else ([parked_event ctx z t o' entered],
                    s\<lparr>pk_entered := filter (\<lambda>kv. snd (fst kv) \<noteq> t) d, pk_reported := insert t (pk_reported s)\<rparr>))"

definition park_object :: "parking_cfg \<Rightarrow> frame_ctx \<Rightarrow> tobject \<Rightarrow> parking \<Rightarrow> event list \<times> parking" where
  "park_object cfg ctx o' s =
     (case o_track o' of
        None \<Rightarrow> ([], s)
      | Some t \<Rightarrow>
          if o_domain o' \<noteq> ''vehicles'' \<or> o_label o' \<notin> set (kc_classes cfg) \<or> t \<in> pk_reported s then ([], s)
          else park_zones (kc_duration cfg) ctx o' t (kc_zones cfg) s)"

fun park_objects :: "parking_cfg \<Rightarrow> frame_ctx \<Rightarrow> tobject list \<Rightarrow> parking \<Rightarrow> event list \<times> parking" where
  "park_objects cfg ctx [] s = ([], s)"
| "park_objects cfg ctx (o' # os) s =
     (let (es, s1) = park_object cfg ctx o' s; (fs, s2) = park_objects cfg ctx os s1 in (es @ fs, s2))"

definition parking_evaluate :: "parking_cfg \<Rightarrow> frame_ctx \<Rightarrow> parking \<Rightarrow> event list \<times> parking" where
  "parking_evaluate cfg ctx s = park_objects cfg ctx (fc_objects ctx) s"

definition parking_forget :: "string set \<Rightarrow> parking \<Rightarrow> parking" where
  "parking_forget ids s =
     s\<lparr>pk_entered := filter (\<lambda>kv. snd (fst kv) \<notin> ids) (pk_entered s), pk_reported := pk_reported s - ids\<rparr>"

subsection \<open>Restricted zone entry\<close>

record entry_cfg =
  nc_cooldown :: rat
  nc_zones :: "zone list"

record entries =
  en_inside :: "(string \<times> string) set"
  en_last :: "(string \<times> string, epoch) dict"

definition entries_init :: entries where
  "entries_init = \<lparr>en_inside = {}, en_last = []\<rparr>"

definition leave_zone :: "zone \<Rightarrow> tobject list \<Rightarrow> entries \<Rightarrow> entries" where
  \<comment> \<open>people seen outside: their stay is over\<close>
  "leave_zone z people s =
     (let inside_ids = map o_track (filter (\<lambda>o'. zone_contains z (center o')) people)
      in s\<lparr>en_inside := en_inside s - set (List.map_filter (\<lambda>o'. case o_track o' of
            Some t \<Rightarrow> if Some t \<in> set inside_ids then None else Some (z_key z, t) | None \<Rightarrow> None) people)\<rparr>)"

definition entered_event :: "entry_cfg \<Rightarrow> frame_ctx \<Rightarrow> zone \<Rightarrow> nat \<Rightarrow> string \<Rightarrow> tobject \<Rightarrow> event" where
  "entered_event cfg ctx z n t o' =
     \<lparr>ev_camera = fc_camera ctx, ev_activity = ''restricted_zone_entry'', ev_started = fc_ts ctx, ev_zone = z, ev_confidence = o_confidence o',
      ev_track = Some t, ev_class = o_label o', ev_attributes = Entered (z_name z) (round_box (o_bbox o')) n (nc_cooldown cfg)\<rparr>"

definition enter_one :: "entry_cfg \<Rightarrow> frame_ctx \<Rightarrow> zone \<Rightarrow> nat \<Rightarrow> tobject \<Rightarrow> entries \<Rightarrow> event list \<times> entries" where
  "enter_one cfg ctx z n o' s =
     (case o_track o' of
        None \<Rightarrow> ([], s)
      | Some t \<Rightarrow>
          let stay = (z_key z, t)
          in if stay \<in> en_inside s then ([], s)
             else let s1 = s\<lparr>en_inside := insert stay (en_inside s)\<rparr>
                  in if (case map_of (en_last s) stay of Some prev \<Rightarrow> fc_ts ctx - prev < nc_cooldown cfg | None \<Rightarrow> False) then ([], s1)
                     else ([entered_event cfg ctx z n t o'], s1\<lparr>en_last := AList.update stay (fc_ts ctx) (en_last s)\<rparr>))"

fun enter_all :: "entry_cfg \<Rightarrow> frame_ctx \<Rightarrow> zone \<Rightarrow> nat \<Rightarrow> tobject list \<Rightarrow> entries \<Rightarrow> event list \<times> entries" where
  "enter_all cfg ctx z n [] s = ([], s)"
| "enter_all cfg ctx z n (o' # os) s =
     (let (es, s1) = enter_one cfg ctx z n o' s; (fs, s2) = enter_all cfg ctx z n os s1 in (es @ fs, s2))"

fun entry_zones :: "entry_cfg \<Rightarrow> frame_ctx \<Rightarrow> tobject list \<Rightarrow> zone list \<Rightarrow> entries \<Rightarrow> event list \<times> entries" where
  "entry_zones cfg ctx people [] s = ([], s)"
| "entry_zones cfg ctx people (z # zs) s =
     (let inside = filter (\<lambda>o'. zone_contains z (center o')) people;
          (es, s1) = enter_all cfg ctx z (length inside) inside (leave_zone z people s);
          (fs, s2) = entry_zones cfg ctx people zs s1
      in (es @ fs, s2))"

definition entry_evaluate :: "entry_cfg \<Rightarrow> frame_ctx \<Rightarrow> entries \<Rightarrow> event list \<times> entries" where
  "entry_evaluate cfg ctx s =
     (let people = filter (\<lambda>o'. o_label o' = ''person'') (fc_objects ctx)
      in if people = [] then ([], s) else entry_zones cfg ctx people (nc_zones cfg) s)"

definition entry_forget :: "string set \<Rightarrow> entries \<Rightarrow> entries" where
  "entry_forget ids s =
     s\<lparr>en_inside := {k \<in> en_inside s. snd k \<notin> ids}, en_last := filter (\<lambda>kv. snd (fst kv) \<notin> ids) (en_last s)\<rparr>"

subsection \<open>People gathering\<close>

type_synonym parents = "(string, string) dict"

partial_function (option) uf_find :: "string \<Rightarrow> parents \<Rightarrow> (string \<times> parents) option" where
  \<comment> \<open>with path compression; also \<^term>\<open>None\<close> on the \<open>KeyError\<close> of a name without an entry\<close>
  "uf_find x p =
     (case map_of p x of
        None \<Rightarrow> None
      | Some y \<Rightarrow>
          if y = x then Some (x, p)
          else Option.bind (uf_find y p) (\<lambda>(r, q). Some (r, AList.update x r q)))"

declare uf_find.simps [code]

definition uf_union :: "string \<Rightarrow> string \<Rightarrow> parents \<Rightarrow> parents option" where
  "uf_union x y p =
     (case uf_find x p of
        None \<Rightarrow> None
      | Some (rx, p1) \<Rightarrow>
          (case uf_find y p1 of
             None \<Rightarrow> None
           | Some (ry, p2) \<Rightarrow> Some (if rx \<noteq> ry then AList.update ry rx p2 else p2)))"

type_synonym pairs = "(string \<times> string) list"

fun join_pairs :: "pairs \<Rightarrow> parents \<Rightarrow> parents option" where
  "join_pairs [] p = Some p"
| "join_pairs ((a, b) # ps) p =
     (case uf_union a b (set_default b b (set_default a a p)) of None \<Rightarrow> None | Some q \<Rightarrow> join_pairs ps q)"

fun collect_members :: "string list \<Rightarrow> parents \<Rightarrow> (string, string list) dict \<Rightarrow> (parents \<times> (string, string list) dict) option" where
  \<comment> \<open>\<open>zone_clusters\<close>: the members under each root\<close>
  "collect_members [] p m = Some (p, m)"
| "collect_members (t # ts) p m =
     (case uf_find t p of
        None \<Rightarrow> None
      | Some (r, q) \<Rightarrow> collect_members ts q (AList.update r ((case map_of m r of Some xs \<Rightarrow> xs | None \<Rightarrow> []) @ [t]) m))"

definition note_root :: "string \<Rightarrow> (string, string list) dict \<Rightarrow> string list list \<times> string list \<Rightarrow> string list list \<times> string list" where
  "note_root r m acc = (case acc of (out, seen) \<Rightarrow> if r \<in> set seen then acc else (out @ [the (map_of m r)], seen @ [r]))"

fun pick_clusters :: "pairs \<Rightarrow> parents \<Rightarrow> (string, string list) dict \<Rightarrow> string list list \<times> string list \<Rightarrow> (string list list \<times> parents) option" where
  \<comment> \<open>the clusters of one zone\<close>
  "pick_clusters [] p m acc = Some (fst acc, p)"
| "pick_clusters ((a, b) # ps) p m acc =
     (case uf_find a p of
        None \<Rightarrow> None
      | Some (ra, p1) \<Rightarrow>
          (case uf_find b p1 of
             None \<Rightarrow> None
           | Some (rb, p2) \<Rightarrow> pick_clusters ps p2 m (note_root rb m (note_root ra m acc))))"

fun pick_all :: "(string, pairs) dict \<Rightarrow> parents \<Rightarrow> (string, string list) dict \<Rightarrow> (string, string list list) dict option" where
  "pick_all [] p m = Some []"
| "pick_all ((z, ps) # rest) p m =
     (case pick_clusters ps p m ([], []) of
        None \<Rightarrow> None
      | Some (cs, q) \<Rightarrow> (case pick_all rest q m of None \<Rightarrow> None | Some ds \<Rightarrow> Some ((z, cs) # ds)))"

definition find_clusters_by_zone :: "(string, pairs) dict \<Rightarrow> (string, string list list) dict option" where
  "find_clusters_by_zone gathered =
     (case join_pairs (concat (map snd gathered)) [] of
        None \<Rightarrow> None
      | Some p \<Rightarrow>
          (case collect_members (dict_keys p) p [] of
             None \<Rightarrow> None
           | Some (q, m) \<Rightarrow> pick_all gathered q m))"

record gather_cfg =
  gc_duration :: rat
  gc_reset_after :: rat
  gc_min_group :: nat
  gc_proximity :: rat
  gc_cooldown :: rat
  gc_zones :: "zone list"

record zone_state =
  zs_since :: "epoch option"
  zs_last_seen :: epoch
  zs_cooldown_until :: epoch

definition zone_state_init :: zone_state where
  "zone_state_init = \<lparr>zs_since = None, zs_last_seen = 0, zs_cooldown_until = 0\<rparr>"

record gathering =
  ga_zones :: "(string, zone_state) dict"
  ga_reported :: "string set"

definition gathering_init :: gathering where
  "gathering_init = \<lparr>ga_zones = [], ga_reported = {}\<rparr>"

definition person_like :: "tobject \<Rightarrow> bool" where
  "person_like o' \<longleftrightarrow> o_label o' \<in> {''person'', ''student'', ''staff'', ''security guard''} \<and> o_track o' \<noteq> None"

fun combinations :: "'a list \<Rightarrow> ('a \<times> 'a) list" where
  "combinations [] = []"
| "combinations (x # xs) = map (Pair x) xs @ combinations xs"

definition close_together :: "gather_cfg \<Rightarrow> frame_ctx \<Rightarrow> tobject \<Rightarrow> tobject \<Rightarrow> bool" where
  \<comment> \<open>\<open>hypot(dx, dy) < threshold\<close>\<close>
  "close_together cfg ctx a b =
     (case (anchor_px (fc_width ctx) (fc_height ctx) a, anchor_px (fc_width ctx) (fc_height ctx) b) of ((ax, ay), (bx, by')) \<Rightarrow>
        let threshold = max (width_px (fc_width ctx) a) (width_px (fc_width ctx) b) * gc_proximity cfg
        in 0 < threshold \<and> (ax - bx) * (ax - bx) + (ay - by') * (ay - by') < threshold * threshold)"

definition add_pair :: "gather_cfg \<Rightarrow> frame_ctx \<Rightarrow> tobject \<times> tobject \<Rightarrow> (string, pairs) dict \<Rightarrow> (string, pairs) dict" where
  "add_pair cfg ctx ab g =
     (case ab of (a, b) \<Rightarrow>
        if close_together cfg ctx a b
        then case List.find (\<lambda>z. zone_contains z (anchor a) \<and> zone_contains z (anchor b)) (gc_zones cfg) of
               Some z \<Rightarrow> AList.update (z_key z) (the (map_of g (z_key z)) @ [(the (o_track a), the (o_track b))]) g
             | None \<Rightarrow> g
        else g)"

definition gathered_pairs :: "gather_cfg \<Rightarrow> frame_ctx \<Rightarrow> tobject list \<Rightarrow> (string, pairs) dict" where
  "gathered_pairs cfg ctx people =
     fold (add_pair cfg ctx) (combinations people) (fold (\<lambda>z. AList.update (z_key z) []) (gc_zones cfg) [])"

definition mostly_reported :: "string set \<Rightarrow> string list \<Rightarrow> bool" where
  "mostly_reported reported cluster \<longleftrightarrow>
     \<not> \<lfloor>of_nat (length (filter (\<lambda>t. t \<in> reported) cluster)) * 100 / of_nat (length cluster) :: rat\<rfloor> < 70"

definition active_clusters :: "gather_cfg \<Rightarrow> string set \<Rightarrow> string list list \<Rightarrow> string list list" where
  "active_clusters cfg reported = filter (\<lambda>c. length c \<ge> gc_min_group cfg \<and> \<not> mostly_reported reported c)"

definition gathered_event :: "frame_ctx \<Rightarrow> zone \<Rightarrow> string list \<Rightarrow> (string, tobject) dict \<Rightarrow> epoch \<Rightarrow> event" where
  "gathered_event ctx z cluster by_id since =
     (let members = List.map_filter (\<lambda>t. map_of by_id t) cluster; side = (\<lambda>pick. map (pick \<circ> o_bbox) members)
      in \<lparr>ev_camera = fc_camera ctx, ev_activity = ''people_gathering'', ev_started = fc_ts ctx, ev_zone = z,
          ev_confidence = sum_list (map o_confidence members) / of_nat (length members), ev_track = None, ev_class = ''person'',
          ev_attributes = Gathered (z_name z) (length cluster) (sort cluster)
            (round_box (the (agg_min (side fst)), the (agg_min (side (fst \<circ> snd))), the (agg_max (side (fst \<circ> snd \<circ> snd))),
               the (agg_max (side (snd \<circ> snd \<circ> snd))))) since (round_to 1 (fc_ts ctx - since))\<rparr>)"

fun report_clusters :: "gather_cfg \<Rightarrow> frame_ctx \<Rightarrow> zone \<Rightarrow> (string, tobject) dict \<Rightarrow> string list list \<Rightarrow> zone_state \<Rightarrow> string set
    \<Rightarrow> event list \<times> zone_state \<times> string set" where
  \<comment> \<open>the loop over the active clusters of a gathering that has lasted long enough\<close>
  "report_clusters cfg ctx z by_id [] st reported = ([], st, reported)"
| "report_clusters cfg ctx z by_id (c # cs) st reported =
     (let st1 = st\<lparr>zs_since := Some (fc_ts ctx), zs_last_seen := fc_ts ctx\<rparr>; reported1 = reported \<union> set c
      in if fc_ts ctx < zs_cooldown_until st then report_clusters cfg ctx z by_id cs st1 reported1
         else let (es, st2, reported2) = report_clusters cfg ctx z by_id cs (st1\<lparr>zs_cooldown_until := fc_ts ctx + gc_cooldown cfg\<rparr>) reported1
              in (gathered_event ctx z c by_id (the (zs_since st)) # es, st2, reported2))"

definition gather_zone :: "gather_cfg \<Rightarrow> frame_ctx \<Rightarrow> (string, tobject) dict \<Rightarrow> (string, string list list) dict \<Rightarrow> zone \<Rightarrow> gathering
    \<Rightarrow> event list \<times> gathering" where
  "gather_zone cfg ctx by_id clusters z s =
     (let zs = set_default (z_key z) zone_state_init (ga_zones s); st = the (map_of zs (z_key z));
          active = active_clusters cfg (ga_reported s) (case map_of clusters (z_key z) of Some cs \<Rightarrow> cs | None \<Rightarrow> []);
          put = (\<lambda>st'. AList.update (z_key z) st' zs)
      in if active \<noteq> [] then
           let st1 = st\<lparr>zs_since := Some (case zs_since st of Some t \<Rightarrow> t | None \<Rightarrow> fc_ts ctx), zs_last_seen := fc_ts ctx\<rparr>
           in if fc_ts ctx - the (zs_since st1) < gc_duration cfg then ([], s\<lparr>ga_zones := put st1\<rparr>)
              else let (es, st2, reported) = report_clusters cfg ctx z by_id active st1 (ga_reported s)
                   in (es, \<lparr>ga_zones = put st2, ga_reported = reported\<rparr>)
         else if zs_since st \<noteq> None \<and> fc_ts ctx - zs_last_seen st > gc_reset_after cfg
              then ([], s\<lparr>ga_zones := put (st\<lparr>zs_since := None, zs_last_seen := fc_ts ctx\<rparr>)\<rparr>)
              else ([], s\<lparr>ga_zones := zs\<rparr>))"

fun gather_zones :: "gather_cfg \<Rightarrow> frame_ctx \<Rightarrow> (string, tobject) dict \<Rightarrow> (string, string list list) dict \<Rightarrow> zone list \<Rightarrow> gathering
    \<Rightarrow> event list \<times> gathering" where
  "gather_zones cfg ctx by_id clusters [] s = ([], s)"
| "gather_zones cfg ctx by_id clusters (z # zs) s =
     (let (es, s1) = gather_zone cfg ctx by_id clusters z s; (fs, s2) = gather_zones cfg ctx by_id clusters zs s1 in (es @ fs, s2))"

definition gathering_evaluate :: "gather_cfg \<Rightarrow> frame_ctx \<Rightarrow> gathering \<Rightarrow> (event list \<times> gathering) option" where
  "gathering_evaluate cfg ctx s =
     (let people = filter person_like (fc_objects ctx);
          by_id = fold (\<lambda>o'. AList.update (the (o_track o')) o') people []
      in case find_clusters_by_zone (gathered_pairs cfg ctx people) of
           None \<Rightarrow> None
         | Some clusters \<Rightarrow> Some (gather_zones cfg ctx by_id clusters (gc_zones cfg) s))"

definition gathering_forget :: "string set \<Rightarrow> gathering \<Rightarrow> gathering" where
  "gathering_forget ids s = s\<lparr>ga_reported := ga_reported s - ids\<rparr>"

subsection \<open>Entry and exit\<close>

type_synonym clip_line = "int \<times> int \<times> int \<times> int \<Rightarrow> int \<times> int \<Rightarrow> int \<times> int \<Rightarrow> bool"
  \<comment> \<open>\<open>cv2.clipLine\<close>: does the segment meet the rectangle \<open>(x, y, w, h)\<close>\<close>

definition box_touches_tripwire :: "clip_line \<Rightarrow> int \<Rightarrow> int \<Rightarrow> nbox \<Rightarrow> (rat \<times> rat) list \<Rightarrow> bool" where
  "box_touches_tripwire clip w h box line =
     (case (box, line ! 0, line ! 1) of ((x1, y1, x2, y2), (ax, ay), (bx, by')) \<Rightarrow>
        let l = \<lfloor>x1 * of_int w\<rfloor>; t = \<lfloor>y1 * of_int h\<rfloor>; r = \<lceil>x2 * of_int w\<rceil>; b = \<lceil>y2 * of_int h\<rceil>
        in clip (l, t, r - l + 1, b - t + 1) (round_half_even (ax * of_int w), round_half_even (ay * of_int h))
             (round_half_even (bx * of_int w), round_half_even (by' * of_int h)))"

definition side_of :: "int \<Rightarrow> int \<Rightarrow> nbox \<Rightarrow> (rat \<times> rat) list \<Rightarrow> int" where
  "side_of w h box line =
     (case (box, line ! 0, line ! 1) of ((x1, y1, x2, y2), (nax, nay), (nbx, nby)) \<Rightarrow>
        let ax = nax * of_int w; ay = nay * of_int h; bx = nbx * of_int w; by' = nby * of_int h; dx = bx - ax; dy = by' - ay;
            sign = (\<lambda>(px, py). sgn (dx * (py * of_int h - ay) - dy * (px * of_int w - ax)));
            signs = map sign [(x1, y1), (x2, y1), (x1, y2), (x2, y2)]
        in if signs = replicate 4 1 then 1 else if signs = replicate 4 (- 1) then - 1 else 0)"

definition union_box :: "nbox \<Rightarrow> nbox \<Rightarrow> nbox" where
  "union_box a b = (case (a, b) of ((ax1, ay1, ax2, ay2), (bx1, by1, bx2, by2)) \<Rightarrow> (min ax1 bx1, min ay1 by1, max ax2 bx2, max ay2 by2))"

definition entry_side :: "json \<Rightarrow> int option" where
  \<comment> \<open>\<open>ENTRY_SIDE\<close>\<close>
  "entry_side d = (if d = JStr ''a2b'' then Some (- 1) else if d = JStr ''b2a'' then Some 1 else None)"

record passage =
  pa_side :: int
  pa_box :: "nbox option"
  pa_across :: bool
  pa_touched :: bool

definition passage_init :: passage where
  "passage_init = \<lparr>pa_side = 0, pa_box = None, pa_across = False, pa_touched = False\<rparr>"

definition passage_step :: "clip_line \<Rightarrow> int \<Rightarrow> int \<Rightarrow> zone \<Rightarrow> nbox \<Rightarrow> passage \<Rightarrow> direction option \<times> passage" where
  "passage_step clip w h wire box p =
     (let side = side_of w h box (z_points wire)
      in if side = 0
         then (None, p\<lparr>pa_across := True, pa_touched := pa_touched p \<or> box_touches_tripwire clip w h box (z_points wire)\<rparr>)
         else let through = pa_side p \<noteq> 0 \<and> side \<noteq> pa_side p \<and>
                    (if pa_across p then pa_touched p
                     else box_touches_tripwire clip w h (union_box (the (pa_box p)) box) (z_points wire));
                  crossing = (if through then Some (if Some side = entry_side (z_direction wire) then Entry else Exit) else None)
              in (crossing, \<lparr>pa_side = side, pa_box = Some box, pa_across = False, pa_touched = False\<rparr>))"

record gateway =
  gw_passages :: "(string \<times> string, passage) dict"
  gw_pending :: "(string \<times> string, (epoch \<times> direction \<times> tobject) list) dict"

definition gateway_init :: gateway where
  "gateway_init = \<lparr>gw_passages = [], gw_pending = []\<rparr>"

definition gateway_wires :: "zone list \<Rightarrow> zone list" where
  \<comment> \<open>\<open>_tripwires\<close>: those with an entry direction\<close>
  "gateway_wires zs = filter (\<lambda>z. entry_side (z_direction z) \<noteq> None) zs"

definition crossed_event :: "frame_ctx \<Rightarrow> zone \<Rightarrow> string \<Rightarrow> epoch \<times> direction \<times> tobject \<Rightarrow> event" where
  "crossed_event ctx wire t x =
     (case x of (ts, dir, seen) \<Rightarrow>
        \<lparr>ev_camera = fc_camera ctx, ev_activity = ''entry_exit_WLE_logs'', ev_started = ts, ev_zone = wire, ev_confidence = o_confidence seen,
         ev_track = Some t, ev_class = o_label seen, ev_attributes = Crossed dir (z_key wire) (z_name wire) (round_box (o_bbox seen))\<rparr>)"

definition gateway_one :: "clip_line \<Rightarrow> frame_ctx \<Rightarrow> tobject \<Rightarrow> string \<Rightarrow> zone \<Rightarrow> gateway \<Rightarrow> event list \<times> gateway" where
  \<comment> \<open>one person, one tripwire\<close>
  "gateway_one clip ctx o' t wire s =
     (let key = (z_key wire, t);
          passages = set_default key passage_init (gw_passages s);
          (crossing, p) = passage_step clip (fc_width ctx) (fc_height ctx) wire (o_bbox o') (the (map_of passages key));
          pending = (case crossing of
                       None \<Rightarrow> gw_pending s
                     | Some dir \<Rightarrow> AList.update key ((case map_of (gw_pending s) key of Some xs \<Rightarrow> xs | None \<Rightarrow> []) @ [(fc_ts ctx, dir, o')]) (gw_pending s));
          s1 = \<lparr>gw_passages = AList.update key p passages, gw_pending = pending\<rparr>
      in if o_confirmed o'
         then (map (crossed_event ctx wire t) (case map_of pending key of Some xs \<Rightarrow> xs | None \<Rightarrow> []), s1\<lparr>gw_pending := AList.delete key pending\<rparr>)
         else ([], s1))"

fun gateway_all :: "clip_line \<Rightarrow> frame_ctx \<Rightarrow> tobject \<Rightarrow> string \<Rightarrow> zone list \<Rightarrow> gateway \<Rightarrow> event list \<times> gateway" where
  "gateway_all clip ctx o' t [] s = ([], s)"
| "gateway_all clip ctx o' t (wire # wires) s =
     (let (es, s1) = gateway_one clip ctx o' t wire s; (fs, s2) = gateway_all clip ctx o' t wires s1 in (es @ fs, s2))"

fun gateway_objects :: "clip_line \<Rightarrow> frame_ctx \<Rightarrow> zone list \<Rightarrow> tobject list \<Rightarrow> gateway \<Rightarrow> event list \<times> gateway" where
  "gateway_objects clip ctx wires [] s = ([], s)"
| "gateway_objects clip ctx wires (o' # os) s =
     (let (es, s1) = (case o_track o' of
                        None \<Rightarrow> ([], s)
                      | Some t \<Rightarrow> if py_lower (py_strip (o_label o')) = ''person'' then gateway_all clip ctx o' t wires s else ([], s));
          (fs, s2) = gateway_objects clip ctx wires os s1
      in (es @ fs, s2))"

definition gateway_evaluate :: "clip_line \<Rightarrow> zone list \<Rightarrow> frame_ctx \<Rightarrow> gateway \<Rightarrow> event list \<times> gateway" where
  "gateway_evaluate clip wires ctx s = gateway_objects clip ctx wires (fc_objects ctx) s"

definition gateway_forget :: "string set \<Rightarrow> gateway \<Rightarrow> gateway" where
  "gateway_forget ids s =
     \<lparr>gw_passages = filter (\<lambda>kv. snd (fst kv) \<notin> ids) (gw_passages s), gw_pending = filter (\<lambda>kv. snd (fst kv) \<notin> ids) (gw_pending s)\<rparr>"

subsection \<open>Settings stay inside their own bounds\<close>

definition setting_ok :: "param \<Rightarrow> json \<Rightarrow> bool" where
  "setting_ok p v =
     (case pm_kind p of
        Number \<Rightarrow> (case v of JNum x \<Rightarrow> (pm_integer p \<longrightarrow> is_whole x) \<and> (case pm_min p of Some m \<Rightarrow> m \<le> x | None \<Rightarrow> True) \<and>
                              (case pm_max p of Some m \<Rightarrow> x \<le> m | None \<Rightarrow> True) | _ \<Rightarrow> False)
      | Text \<Rightarrow> (case v of JStr _ \<Rightarrow> True | _ \<Rightarrow> False)
      | Bool \<Rightarrow> (case v of JBool _ \<Rightarrow> True | _ \<Rightarrow> False)
      | Enum \<Rightarrow> offered p v
      | List_of \<Rightarrow> (case v of JArr vs \<Rightarrow> list_all (offered p) vs \<and> distinct vs \<and> (case pm_min_items p of Some n \<Rightarrow> n \<le> length vs | None \<Rightarrow> True) | _ \<Rightarrow> False))"

lemma keep_items_ok:
  "keep_items p items kept dropped = Some (kept', dropped') \<Longrightarrow> list_all (offered p) kept \<Longrightarrow> distinct kept \<Longrightarrow> list_all (offered p) kept' \<and> distinct kept'"
proof (induction items arbitrary: kept dropped)
  case (Cons item rest)
  from Cons.prems obtain v where v: "alias_of p (normal_item item) = Some v"
    by (auto split: option.splits)
  consider (drop) "\<not> offered p v" | (again) "offered p v" "v \<in> set kept" | (new) "offered p v" "v \<notin> set kept" by blast
  then show ?case
  proof cases
    case drop
    then have "keep_items p rest kept (dropped @ [item]) = Some (kept', dropped')" using Cons.prems(1) v by simp
    then show ?thesis using Cons.prems(2,3) by (rule Cons.IH)
  next
    case again
    then have "keep_items p rest kept dropped = Some (kept', dropped')" using Cons.prems(1) v by simp
    then show ?thesis using Cons.prems(2,3) by (rule Cons.IH)
  next
    case new
    then have "keep_items p rest (kept @ [v]) dropped = Some (kept', dropped')" using Cons.prems(1) v by simp
    then show ?thesis by (rule Cons.IH) (use Cons.prems(2,3) new in auto)
  qed
qed simp

lemma resolve_param_ok:
  assumes "setting_ok p (pm_default p)" "resolve_param p raw = Some (v, why)"
  shows "setting_ok p v"
proof (cases "pm_kind p")
  case Number
  then show ?thesis using assms
    by (auto simp: resolve_param_def resolve_number_def setting_ok_def split: json.splits if_splits option.splits)
next
  case List_of
  then obtain items where "raw = JArr items \<and> resolve_list p items = Some (v, why) \<or> v = pm_default p"
    using assms(2) by (auto simp: resolve_param_def split: json.splits)
  then show ?thesis
  proof (elim disjE conjE)
    assume "resolve_list p items = Some (v, why)"
    then obtain kept dropped where k: "keep_items p items [] [] = Some (kept, dropped)"
      and v: "v = pm_default p \<or> v = JArr kept \<and> (case pm_min_items p of Some n \<Rightarrow> n \<le> length kept | None \<Rightarrow> True)"
      by (auto simp: resolve_list_def split: option.splits if_splits)
    show ?thesis using v assms(1) keep_items_ok [OF k] List_of by (auto simp: setting_ok_def)
  qed (use assms(1) in simp)
qed (use assms in \<open>auto simp: resolve_param_def setting_ok_def Let_def split: json.splits if_splits\<close>)

lemma resolve_params_keeps:
  "resolve_params ps stored r = Some r' \<Longrightarrow> k \<notin> pm_key ` set ps \<Longrightarrow> map_of (rs_values r') k = map_of (rs_values r) k"
proof (induction ps arbitrary: r)
  case (Cons p ps)
  then have k: "k \<noteq> pm_key p" "k \<notin> pm_key ` set ps" by auto
  from Cons.prems(1) obtain v r1 where "resolve_params ps stored r1 = Some r'" "rs_values r1 = AList.update (pm_key p) v (rs_values r)"
    by (force split: option.splits if_splits prod.splits)
  then show ?case using Cons.IH [OF _ k(2)] k(1) by (simp add: update_conv')
qed simp

lemma resolve_params_ok:
  "resolve_params ps stored r = Some r' \<Longrightarrow> distinct (map pm_key ps) \<Longrightarrow> \<forall>p \<in> set ps. setting_ok p (pm_default p) \<Longrightarrow>
    \<forall>p \<in> set ps. \<exists>v. map_of (rs_values r') (pm_key p) = Some v \<and> setting_ok p v"
proof (induction ps arbitrary: r)
  case (Cons p ps)
  from Cons.prems obtain v r1 where s: "resolve_params ps stored r1 = Some r'" "rs_values r1 = AList.update (pm_key p) v (rs_values r)" "setting_ok p v"
    by (force split: option.splits if_splits prod.splits intro: resolve_param_ok)
  have "map_of (rs_values r') (pm_key p) = Some v"
    using resolve_params_keeps [OF s(1)] s(2) Cons.prems(2) by (auto simp: update_conv')
  then show ?case using Cons.IH [OF s(1)] Cons.prems(2,3) s(3) by auto
qed simp

subsection \<open>The registered activities\<close>

definition number_param :: "string \<Rightarrow> rat \<Rightarrow> rat \<Rightarrow> rat \<Rightarrow> bool \<Rightarrow> param" where
  "number_param key d lo hi whole =
     \<lparr>pm_key = key, pm_kind = Number, pm_default = JNum d, pm_min = Some lo, pm_max = Some hi, pm_integer = whole, pm_options = None,
      pm_min_items = None, pm_aliases = []\<rparr>"

definition stray_parking_def :: activity_def where
  "stray_parking_def =
     \<lparr>df_key = ''stray_parking'', df_available = True, df_zone_rule = Zone_required, df_domains = [''vehicles''],
      df_params = [\<lparr>pm_key = ''vehicle_classes'', pm_kind = List_of, pm_default = JArr [JStr ''car'', JStr ''truck'', JStr ''bus'', JStr ''motorcycle''],
                    pm_min = None, pm_max = None, pm_integer = False,
                    pm_options = Some [JStr ''car'', JStr ''motorcycle'', JStr ''bus'', JStr ''truck''], pm_min_items = Some 1,
                    pm_aliases = [(''bike'', ''motorcycle'')]\<rparr>,
                   number_param ''required_duration_s'' 600 1 86400 False]\<rparr>"

definition restricted_zone_entry_def :: activity_def where
  "restricted_zone_entry_def =
     \<lparr>df_key = ''restricted_zone_entry'', df_available = True, df_zone_rule = Zone_optional, df_domains = [''person''],
      df_params = [number_param ''cooldown_s'' 60 1 86400 False]\<rparr>"

definition people_gathering_def :: activity_def where
  "people_gathering_def =
     \<lparr>df_key = ''people_gathering'', df_available = True, df_zone_rule = Zone_optional, df_domains = [''person''],
      df_params = [number_param ''required_duration_s'' 60 1 86400 False, number_param ''last_time'' 30 1 3600 False,
                   number_param ''min_group_size'' 2 2 50 True, number_param ''proximity_factor'' (135 / 100) (1 / 2) 10 False,
                   number_param ''cooldown_s'' 100 1 86400 False]\<rparr>"

definition entry_exit_def :: activity_def where
  "entry_exit_def =
     \<lparr>df_key = ''entry_exit_WLE_logs'', df_available = True, df_zone_rule = Zone_tripwire, df_domains = [''person''], df_params = []\<rparr>"

definition setting :: "activity_spec \<Rightarrow> string \<Rightarrow> rat option" where
  \<comment> \<open>\<open>float(spec.params[key])\<close>\<close>
  "setting sp key = Option.bind (map_of (sp_params sp) key) json_float"

definition parking_of_spec :: "activity_spec \<Rightarrow> parking_cfg option" where
  "parking_of_spec sp =
     (case (map_of (sp_params sp) ''vehicle_classes'', setting sp ''required_duration_s'') of
        (Some (JArr vs), Some d) \<Rightarrow>
          Some \<lparr>kc_classes = List.map_filter (\<lambda>v. case v of JStr c \<Rightarrow> Some c | _ \<Rightarrow> None) vs, kc_duration = d, kc_zones = sp_zones sp\<rparr>
      | _ \<Rightarrow> None)"

definition entry_of_spec :: "activity_spec \<Rightarrow> entry_cfg option" where
  "entry_of_spec sp = map_option (\<lambda>c. \<lparr>nc_cooldown = c, nc_zones = sp_zones sp\<rparr>) (setting sp ''cooldown_s'')"

definition gather_of_spec :: "activity_spec \<Rightarrow> gather_cfg option" where
  "gather_of_spec sp =
     (case (setting sp ''required_duration_s'', setting sp ''last_time'', setting sp ''min_group_size'', setting sp ''proximity_factor'', setting sp ''cooldown_s'') of
        (Some d, Some r, Some n, Some f, Some c) \<Rightarrow>
          Some \<lparr>gc_duration = d, gc_reset_after = r, gc_min_group = nat (py_int n), gc_proximity = f, gc_cooldown = c, gc_zones = sp_zones sp\<rparr>
      | _ \<Rightarrow> None)"

lemma setting_ok_number:
  "pm_kind p = Number \<Longrightarrow> setting_ok p v \<Longrightarrow> \<exists>x. v = JNum x \<and> (pm_integer p \<longrightarrow> is_whole x) \<and>
     (case pm_min p of Some m \<Rightarrow> m \<le> x | None \<Rightarrow> True) \<and> (case pm_max p of Some m \<Rightarrow> x \<le> m | None \<Rightarrow> True)"
  by (cases v) (simp_all add: setting_ok_def)

lemma setting_ok_list:
  "pm_kind p = List_of \<Longrightarrow> setting_ok p v \<Longrightarrow>
     \<exists>vs. v = JArr vs \<and> list_all (offered p) vs \<and> (case pm_min_items p of Some n \<Rightarrow> n \<le> length vs | None \<Rightarrow> True)"
  by (cases v) (simp_all add: setting_ok_def)

lemma number_setting:
  assumes "resolve_params ps stored nothing_resolved = Some r" "distinct (map pm_key ps)" "\<forall>p \<in> set ps. setting_ok p (pm_default p)"
    and "number_param key d lo hi whole \<in> set ps"
  shows "\<exists>x. map_of (rs_values r) key = Some (JNum x) \<and> lo \<le> x \<and> x \<le> hi \<and> (whole \<longrightarrow> is_whole x)"
proof -
  obtain v where v: "map_of (rs_values r) key = Some v" "setting_ok (number_param key d lo hi whole) v"
    using bspec [OF resolve_params_ok [OF assms(1-3)] assms(4)] by (auto simp: number_param_def)
  then show ?thesis using setting_ok_number [OF _ v(2)] by (auto simp: number_param_def)
qed

lemma build_spec_Inr:
  "build_spec df activity regions = Inr sp \<Longrightarrow>
    \<exists>r stored zs. resolve_params (df_params df) stored nothing_resolved = Some r \<and> sp_params sp = rs_values r \<and>
      resolve_zones activity regions (df_zone_rule df) = Inr zs \<and> sp_zones sp = zs"
  by (auto simp: build_spec_def Let_def split: option.splits sum.splits)

lemma zones_by_rule_kind:
  "z \<in> set (zones_by_rule rule zs) \<Longrightarrow> z_kind z = (if rule = Zone_tripwire then Tripwire else Area)"
  by (auto simp: zones_by_rule_def Let_def full_frame_def split: if_splits)

lemma resolve_zones_kind:
  "resolve_zones activity regions rule = Inr zs \<Longrightarrow> z \<in> set zs \<Longrightarrow> z_kind z = (if rule = Zone_tripwire then Tripwire else Area)"
  by (auto simp: resolve_zones_def Let_def zones_by_rule_kind split: option.splits sum.splits)

lemma registered_defaults:
  "df \<in> {stray_parking_def, restricted_zone_entry_def, people_gathering_def} \<Longrightarrow>
    distinct (map pm_key (df_params df)) \<and> (\<forall>p \<in> set (df_params df). setting_ok p (pm_default p))"
  by (elim insertE) (simp_all add: stray_parking_def_def restricted_zone_entry_def_def people_gathering_def_def number_param_def setting_ok_def
      offered_def is_whole_def)

lemma parking_settings:
  assumes "build_spec stray_parking_def activity regions = Inr sp"
  shows "\<exists>cfg. parking_of_spec sp = Some cfg \<and> 1 \<le> kc_duration cfg \<and> kc_duration cfg \<le> 86400 \<and> kc_classes cfg \<noteq> [] \<and>
    set (kc_classes cfg) \<subseteq> {''car'', ''motorcycle'', ''bus'', ''truck''}"
proof -
  from assms obtain r stored where r: "resolve_params (df_params stray_parking_def) stored nothing_resolved = Some r" "sp_params sp = rs_values r"
    using build_spec_Inr by blast
  note ok = registered_defaults [of stray_parking_def, simplified]
  obtain d where d: "map_of (rs_values r) ''required_duration_s'' = Some (JNum d)" "1 \<le> d" "d \<le> 86400"
    using number_setting [OF r(1) conjunct1 [OF ok] conjunct2 [OF ok], of "''required_duration_s''" 600 1 86400 False]
    by (auto simp: stray_parking_def_def)
  obtain vs where vs: "map_of (rs_values r) ''vehicle_classes'' = Some (JArr vs)" "vs \<noteq> []"
    "set vs \<subseteq> {JStr ''car'', JStr ''motorcycle'', JStr ''bus'', JStr ''truck''}"
  proof -
    let ?p = "hd (df_params stray_parking_def)"
    obtain v where v: "map_of (rs_values r) ''vehicle_classes'' = Some v" "setting_ok ?p v"
      using bspec [OF resolve_params_ok [OF r(1) conjunct1 [OF ok] conjunct2 [OF ok]], of ?p] by (auto simp: stray_parking_def_def)
    obtain vs where "v = JArr vs" "list_all (offered ?p) vs" "1 \<le> length vs"
      using setting_ok_list [OF _ v(2)] by (auto simp: stray_parking_def_def)
    moreover from this have "vs \<noteq> []" by auto
    ultimately show ?thesis using v(1) by (intro that) (auto simp: stray_parking_def_def offered_def list_all_iff)
  qed
  let ?cs = "List.map_filter (\<lambda>v. case v of JStr c \<Rightarrow> Some c | _ \<Rightarrow> None) vs"
  have "?cs \<noteq> []" using vs(2,3) by (cases vs) (auto simp: List.map_filter_def)
  moreover have "set ?cs \<subseteq> {''car'', ''motorcycle'', ''bus'', ''truck''}" 
  proof
    fix c assume "c \<in> set ?cs"
    then obtain v where v: "v \<in> set vs" "(case v of JStr c \<Rightarrow> Some c | _ \<Rightarrow> None) = Some c" by (auto simp: in_map_filter)
    from v(2) have "v = JStr c" by (cases v) auto
    then show "c \<in> {''car'', ''motorcycle'', ''bus'', ''truck''}" using v(1) vs(3) by auto
  qed
  ultimately show ?thesis
    using d vs(1) r(2) by (simp add: parking_of_spec_def setting_def)
qed

lemma gathering_settings:
  assumes "build_spec people_gathering_def activity regions = Inr sp"
  shows "\<exists>cfg. gather_of_spec sp = Some cfg \<and> 1 \<le> gc_duration cfg \<and> 1 \<le> gc_reset_after cfg \<and> 2 \<le> gc_min_group cfg \<and> gc_min_group cfg \<le> 50 \<and>
    1 / 2 \<le> gc_proximity cfg \<and> 1 \<le> gc_cooldown cfg"
proof -
  from assms obtain r stored where r: "resolve_params (df_params people_gathering_def) stored nothing_resolved = Some r" "sp_params sp = rs_values r"
    using build_spec_Inr by blast
  note ok = registered_defaults [of people_gathering_def, simplified]
  note num = number_setting [OF r(1) conjunct1 [OF ok] conjunct2 [OF ok], unfolded people_gathering_def_def, simplified]
  obtain d where d: "map_of (rs_values r) ''required_duration_s'' = Some (JNum d)" "1 \<le> d" using num [of "''required_duration_s''" 60 1 86400 False] by auto
  obtain l where l: "map_of (rs_values r) ''last_time'' = Some (JNum l)" "1 \<le> l" using num [of "''last_time''" 30 1 3600 False] by auto
  obtain n where n: "map_of (rs_values r) ''min_group_size'' = Some (JNum n)" "2 \<le> n" "n \<le> 50" using num [of "''min_group_size''" 2 2 50 True] by auto
  obtain f where f: "map_of (rs_values r) ''proximity_factor'' = Some (JNum f)" "1 / 2 \<le> f" using num [of "''proximity_factor''" "135 / 100" "1 / 2" 10 False] by auto
  obtain c where c: "map_of (rs_values r) ''cooldown_s'' = Some (JNum c)" "1 \<le> c" using num [of "''cooldown_s''" 100 1 86400 False] by auto
  have "2 \<le> nat (py_int n)" "nat (py_int n) \<le> 50"
    using n(2,3) py_int_le [of n] py_int_gt [of n] by (auto simp: py_int_def le_floor_iff floor_le_iff nat_le_iff)
  then show ?thesis
    using d l n f c r(2) by (simp add: gather_of_spec_def setting_def)
qed

lemma entry_settings:
  assumes "build_spec restricted_zone_entry_def activity regions = Inr sp"
  shows "\<exists>cfg. entry_of_spec sp = Some cfg \<and> 1 \<le> nc_cooldown cfg \<and> nc_cooldown cfg \<le> 86400"
proof -
  from assms obtain r stored where r: "resolve_params (df_params restricted_zone_entry_def) stored nothing_resolved = Some r" "sp_params sp = rs_values r"
    using build_spec_Inr by blast
  note ok = registered_defaults [of restricted_zone_entry_def, simplified]
  obtain c where "map_of (rs_values r) ''cooldown_s'' = Some (JNum c)" "1 \<le> c" "c \<le> 86400"
    using number_setting [OF r(1) conjunct1 [OF ok] conjunct2 [OF ok], unfolded restricted_zone_entry_def_def, simplified, of "''cooldown_s''" 60 1 86400 False] by auto
  then show ?thesis
    using r(2) by (simp add: entry_of_spec_def setting_def)
qed

text \<open>
  An activity runs on settings inside their own bounds, whatever is stored. When a stray-parking activity can be built at all from a
  camera's configuration, its required duration lies between one second and a day and it watches at least one class of vehicle, all of them
  classes the detector knows; a gathering needs between 2 and 50 people and positive times; the cooldown of a restricted zone is at least a second.
\<close>

theorem settings_in_bounds:
  "(build_spec stray_parking_def activity regions = Inr sp \<longrightarrow>
      (\<exists>cfg. parking_of_spec sp = Some cfg \<and> 1 \<le> kc_duration cfg \<and> kc_duration cfg \<le> 86400 \<and> kc_classes cfg \<noteq> [] \<and>
         set (kc_classes cfg) \<subseteq> {''car'', ''motorcycle'', ''bus'', ''truck''})) \<and>
   (build_spec people_gathering_def activity regions = Inr sp \<longrightarrow>
      (\<exists>cfg. gather_of_spec sp = Some cfg \<and> 1 \<le> gc_duration cfg \<and> 1 \<le> gc_reset_after cfg \<and> 2 \<le> gc_min_group cfg \<and> gc_min_group cfg \<le> 50 \<and>
         1 / 2 \<le> gc_proximity cfg \<and> 1 \<le> gc_cooldown cfg)) \<and>
   (build_spec restricted_zone_entry_def activity regions = Inr sp \<longrightarrow>
      (\<exists>cfg. entry_of_spec sp = Some cfg \<and> 1 \<le> nc_cooldown cfg \<and> nc_cooldown cfg \<le> 86400))"
  using parking_settings gathering_settings entry_settings by blast

definition sample_activity :: "(string, json) dict" where
  "sample_activity =
     [(''type'', JStr ''stray_parking''), (''regions'', JArr [JStr ''r1'', JStr ''gone'']),
      (''params'', JObj [(''vehicle_classes'', JArr [JStr ''bike'', JStr ''tank'', JStr ''car'']), (''required_duration_s'', JNum (- 5))])]"

definition sample_regions :: "(string, json) dict" where
  "sample_regions =
     [(''r1'', JObj [(''kind'', JStr ''zone''), (''name'', JStr ''Gate''),
        (''points'', JArr [JArr [JNum 0, JNum 0], JArr [JNum (1 / 2), JNum 0], JArr [JNum (1 / 2), JNum 1], JArr [JNum 0, JNum 1]])])]"

theorem settings_in_bounds_witness:
  "\<exists>sp cfg. build_spec stray_parking_def sample_activity sample_regions = Inr sp \<and> parking_of_spec sp = Some cfg \<and>
     kc_duration cfg = 600 \<and> kc_classes cfg = [''motorcycle'', ''car''] \<and> 1 \<le> kc_duration cfg \<and> map z_key (kc_zones cfg) = [''r1'']"
proof -
  let ?b = "build_spec stray_parking_def sample_activity sample_regions"
  have n: "normal_item (JStr ''bike'') = JStr ''bike''" "normal_item (JStr ''tank'') = JStr ''tank''" "normal_item (JStr ''car'') = JStr ''car''"
    by (simp_all add: normal_item_def py_strip_def is_space_def py_lower_def)
  have k: "keep_items (hd (df_params stray_parking_def)) [JStr ''bike'', JStr ''tank'', JStr ''car''] [] [] = Some ([JStr ''motorcycle'', JStr ''car''], [JStr ''tank''])"
    by (simp add: n alias_of_def offered_def stray_parking_def_def)
  have r: "resolve_params (df_params stray_parking_def) (mapping_of (json_get ''params'' sample_activity)) nothing_resolved =
      Some \<lparr>rs_values = [(''vehicle_classes'', JArr [JStr ''motorcycle'', JStr ''car'']), (''required_duration_s'', JNum 600)],
            rs_defaulted = [], rs_problems = [(''vehicle_classes'', Unsupported [JStr ''tank'']), (''required_duration_s'', Below_minimum)]\<rparr>"
    using k by (simp add: sample_activity_def json_get_def mapping_of_def stray_parking_def_def resolve_param_def resolve_list_def
        number_param_def resolve_number_def nothing_resolved_def)
  have z: "resolve_zones sample_activity sample_regions Zone_required =
      Inr [\<lparr>z_key = ''r1'', z_name = JStr ''Gate'', z_kind = Area, z_points = [(0, 0), (1 / 2, 0), (1 / 2, 1), (0, 1)], z_direction = JNull, z_implicit = False\<rparr>]"
    by (simp add: resolve_zones_def sample_activity_def sample_regions_def json_get_def json_truthy_def zone_from_region_def point_of_def zones_by_rule_def)
  have e: "map_sum (\<lambda>_. ()) (\<lambda>sp. map_option (\<lambda>c. (kc_duration c, kc_classes c, map z_key (kc_zones c))) (parking_of_spec sp)) ?b =
      Inr (Some (600, [''motorcycle'', ''car''], [''r1'']))"
    using r z by (simp add: build_spec_def Let_def schedule_from_params_def sample_activity_def json_get_def mapping_of_def stray_parking_def_def
        parking_of_spec_def setting_def List.map_filter_def)
  then obtain sp where sp: "?b = Inr sp" by (cases ?b) auto
  obtain cfg where cfg: "parking_of_spec sp = Some cfg" "1 \<le> kc_duration cfg" using settings_in_bounds [of sample_activity sample_regions sp] sp by blast
  show ?thesis using e sp cfg by auto
qed

end
