(* ===== verification/Activity_Rules.thy ===== *)
theory Activity_Rules
  imports Activities
begin

text \<open>
  What the activities of \<open>Activities\<close> raise, stated over the history of sights of one track: when a parked vehicle is reported, when a
  person's entry is, how many crossings of a tripwire are counted, and which people a gathering consists of.
\<close>

subsection \<open>Stray parking\<close>

definition once_each :: "frame_ctx \<Rightarrow> bool" where
  \<comment> \<open>what the tracker promises of a frame: no two detections share an id\<close>
  "once_each f \<longleftrightarrow> distinct (List.map_filter o_track (fc_objects f))"

definition of_track :: "string \<Rightarrow> event list \<Rightarrow> event list" where
  "of_track t = filter (\<lambda>e. ev_track e = Some t)"

lemma of_track_simps [simp]:
  "of_track t [] = []"
  "of_track t (xs @ ys) = of_track t xs @ of_track t ys"
  "of_track t (e # es) = (if ev_track e = Some t then e # of_track t es else of_track t es)"
  by (simp_all add: of_track_def)

definition vehicle_sight :: "parking_cfg \<Rightarrow> string \<Rightarrow> tobject \<Rightarrow> bool" where
  "vehicle_sight cfg t o' \<longleftrightarrow> o_track o' = Some t \<and> o_domain o' = ''vehicles'' \<and> o_label o' \<in> set (kc_classes cfg)"

definition sight :: "parking_cfg \<Rightarrow> string \<Rightarrow> frame_ctx \<Rightarrow> tobject option" where
  "sight cfg t f = List.find (vehicle_sight cfg t) (fc_objects f)"

definition prolong :: "epoch \<Rightarrow> bool \<Rightarrow> epoch option \<Rightarrow> epoch option" where
  "prolong ts inside e = (if inside then Some (case e of Some x \<Rightarrow> x | None \<Rightarrow> ts) else None)"

definition stay :: "parking_cfg \<Rightarrow> string \<Rightarrow> zone \<Rightarrow> frame_ctx list \<Rightarrow> epoch option" where
  \<comment> \<open>since when every sight of the vehicle has been inside the zone\<close>
  "stay cfg t z fs =
     fold (\<lambda>f e. case sight cfg t f of Some o' \<Rightarrow> prolong (fc_ts f) (zone_contains z (anchor o')) e | None \<Rightarrow> e) fs None"

definition long_enough :: "parking_cfg \<Rightarrow> epoch \<Rightarrow> epoch option \<Rightarrow> bool" where
  "long_enough cfg ts e \<longleftrightarrow> (case e of Some x \<Rightarrow> kc_duration cfg \<le> ts - x | None \<Rightarrow> False)"

fun parking_verdict :: "parking_cfg \<Rightarrow> string \<Rightarrow> frame_ctx list \<Rightarrow> frame_ctx list \<Rightarrow> event option" where
  \<comment> \<open>the first sight at which some zone has held the vehicle long enough\<close>
  "parking_verdict cfg t past [] = None"
| "parking_verdict cfg t past (f # fs) =
     (case sight cfg t f of
        None \<Rightarrow> parking_verdict cfg t (past @ [f]) fs
      | Some o' \<Rightarrow>
          (case List.find (\<lambda>z. long_enough cfg (fc_ts f) (stay cfg t z (past @ [f]))) (kc_zones cfg) of
             None \<Rightarrow> parking_verdict cfg t (past @ [f]) fs
           | Some z \<Rightarrow> Some (parked_event f z t o' (the (stay cfg t z (past @ [f]))))))"

fun parking_run :: "parking_cfg \<Rightarrow> frame_ctx list \<Rightarrow> parking \<Rightarrow> event list \<times> parking" where
  "parking_run cfg [] s = ([], s)"
| "parking_run cfg (f # fs) s =
     (let (es, s1) = parking_evaluate cfg f s; (gs, s2) = parking_run cfg fs s1 in (es @ gs, s2))"

definition entered_at :: "parking \<Rightarrow> string \<Rightarrow> string \<Rightarrow> epoch option" where
  "entered_at s t k = map_of (pk_entered s) (k, t)"

definition unknown_vehicle :: "string \<Rightarrow> parking \<Rightarrow> bool" where
  "unknown_vehicle t s \<longleftrightarrow> t \<notin> pk_reported s \<and> entered_at s t = (\<lambda>_. None)"

lemma map_of_filter_by_key: "map_of (filter (\<lambda>kv. P (fst kv)) d) k = (if P k then map_of d k else None)"
  by (induction d) auto

lemma map_of_set_default: "map_of (set_default k v d) j = (if j = k then Some (case map_of d k of Some w \<Rightarrow> w | None \<Rightarrow> v) else map_of d j)"
  by (auto simp: set_default_def update_conv' split: option.splits)

lemma parked_event_track [simp]: "ev_track (parked_event ctx z t o' e) = Some t"
  by (simp add: parked_event_def)

lemma unknown_after_forget: "t \<in> ids \<Longrightarrow> unknown_vehicle t (parking_forget ids s)"
  using map_of_filter_by_key [of "\<lambda>k. snd k \<notin> ids" "pk_entered s"] by (auto simp: unknown_vehicle_def parking_forget_def entered_at_def)

lemma unknown_at_first: "unknown_vehicle t parking_init"
  by (simp add: unknown_vehicle_def parking_init_def entered_at_def fun_eq_iff)

lemma park_zones_spec:
  assumes "distinct (map z_key zs)" "park_zones (kc_duration cfg) ctx o' t zs s = (es, s')"
  defines "m \<equiv> \<lambda>z. prolong (fc_ts ctx) (zone_contains z (anchor o')) (entered_at s t (z_key z))"
  shows "(\<forall>u. u \<noteq> t \<longrightarrow> entered_at s' u = entered_at s u) \<and>
    (case List.find (\<lambda>z. long_enough cfg (fc_ts ctx) (m z)) zs of
       Some z \<Rightarrow> es = [parked_event ctx z t o' (the (m z))] \<and> pk_reported s' = insert t (pk_reported s)
     | None \<Rightarrow> es = [] \<and> pk_reported s' = pk_reported s \<and> (\<forall>k. entered_at s' t k = (case List.find (\<lambda>z. z_key z = k) zs of Some z \<Rightarrow> m z | None \<Rightarrow> entered_at s t k)))"
  using assms(1,2) unfolding m_def
proof (induction zs arbitrary: s)
  case (Cons z zs)
  let ?c = "zone_contains z (anchor o')" and ?e = "entered_at s t (z_key z)"
  have none: "List.find (\<lambda>y. z_key y = z_key z) zs = None" using Cons.prems(1) by (simp add: find_None_iff) (metis image_eqI)
  show ?case
  proof (cases "long_enough cfg (fc_ts ctx) (prolong (fc_ts ctx) ?c ?e)")
    case True
    then have c: ?c by (simp add: long_enough_def prolong_def split: if_splits)
    let ?d = "set_default (z_key z, t) (fc_ts ctx) (pk_entered s)"
    have "the (map_of ?d (z_key z, t)) = the (prolong (fc_ts ctx) ?c ?e)"
      using c by (simp add: map_of_set_default prolong_def entered_at_def)
    then have "es = [parked_event ctx z t o' (the (prolong (fc_ts ctx) ?c ?e))]" "s' = s\<lparr>pk_entered := filter (\<lambda>kv. snd (fst kv) \<noteq> t) ?d, pk_reported := insert t (pk_reported s)\<rparr>"
      using Cons.prems(2) c True by (auto simp: Let_def long_enough_def prolong_def split: if_splits option.splits)
    then show ?thesis using True map_of_filter_by_key [of "\<lambda>k. snd k \<noteq> t" ?d] by (simp add: entered_at_def map_of_set_default fun_eq_iff)
  next
    case False
    obtain s1 where s1: "park_zones (kc_duration cfg) ctx o' t zs s1 = (es, s')" "pk_reported s1 = pk_reported s"
      "\<And>u k. entered_at s1 u k = (if u = t \<and> k = z_key z then prolong (fc_ts ctx) ?c ?e else entered_at s u k)"
    proof (cases ?c)
      case True
      let ?d = "set_default (z_key z, t) (fc_ts ctx) (pk_entered s)"
      have "fc_ts ctx - the (map_of ?d (z_key z, t)) < kc_duration cfg"
        using True False by (auto simp: map_of_set_default long_enough_def prolong_def entered_at_def split: option.splits)
      then have "park_zones (kc_duration cfg) ctx o' t zs (s\<lparr>pk_entered := ?d\<rparr>) = (es, s')" using Cons.prems(2) True by (simp add: Let_def)
      then show thesis by (rule that) (auto simp: True entered_at_def map_of_set_default prolong_def)
    next
      case False
      then have "park_zones (kc_duration cfg) ctx o' t zs (s\<lparr>pk_entered := AList.delete (z_key z, t) (pk_entered s)\<rparr>) = (es, s')" using Cons.prems(2) by simp
      then show thesis by (rule that) (auto simp: False entered_at_def delete_conv' prolong_def)
    qed
    have same: "entered_at s1 t (z_key y) = entered_at s t (z_key y)" if "y \<in> set zs" for y
    proof -
      have "z_key y \<noteq> z_key z" using Cons.prems(1) that by (metis distinct.simps(2) image_eqI list.set_map list.simps(9))
      then show ?thesis by (simp add: s1(3))
    qed
    then have "List.find (\<lambda>y. long_enough cfg (fc_ts ctx) (prolong (fc_ts ctx) (zone_contains y (anchor o')) (entered_at s1 t (z_key y)))) zs =
        List.find (\<lambda>y. long_enough cfg (fc_ts ctx) (prolong (fc_ts ctx) (zone_contains y (anchor o')) (entered_at s t (z_key y)))) zs"
      by (intro find_cong) auto
    moreover have "y \<in> set zs" if "List.find P zs = Some y" for y P using that by (auto simp: find_Some_iff)
    ultimately show ?thesis using Cons.IH [OF _ s1(1)] Cons.prems(1) s1(2,3) False none same
      by (auto simp: fun_eq_iff split: option.splits)
  qed
qed (auto simp: fun_eq_iff)

definition untouched :: "string \<Rightarrow> parking \<Rightarrow> event list \<Rightarrow> parking \<Rightarrow> bool" where
  "untouched t s es s' \<longleftrightarrow> of_track t es = [] \<and> (t \<in> pk_reported s' \<longleftrightarrow> t \<in> pk_reported s) \<and> entered_at s' t = entered_at s t"

definition judged :: "parking_cfg \<Rightarrow> frame_ctx \<Rightarrow> string \<Rightarrow> tobject \<Rightarrow> parking \<Rightarrow> event list \<Rightarrow> parking \<Rightarrow> bool" where
  "judged cfg ctx t o' s es s' \<longleftrightarrow>
     (let m = (\<lambda>z. prolong (fc_ts ctx) (zone_contains z (anchor o')) (entered_at s t (z_key z)))
      in case List.find (\<lambda>z. long_enough cfg (fc_ts ctx) (m z)) (kc_zones cfg) of
           Some z \<Rightarrow> of_track t es = [parked_event ctx z t o' (the (m z))] \<and> t \<in> pk_reported s'
         | None \<Rightarrow> of_track t es = [] \<and> t \<notin> pk_reported s' \<and>
             (\<forall>k. entered_at s' t k = (case List.find (\<lambda>z. z_key z = k) (kc_zones cfg) of Some z \<Rightarrow> m z | None \<Rightarrow> entered_at s t k)))"

lemma park_object_other:
  assumes "distinct (map z_key (kc_zones cfg))" "park_object cfg ctx o' s = (es, s')" "\<not> vehicle_sight cfg t o' \<or> t \<in> pk_reported s"
  shows "untouched t s es s'"
proof (cases "o_track o'")
  case (Some u)
  show ?thesis
  proof (cases "vehicle_sight cfg u o' \<and> u \<notin> pk_reported s")
    case True
    then have "u \<noteq> t" "park_zones (kc_duration cfg) ctx o' u (kc_zones cfg) s = (es, s')"
      using assms(2,3) Some by (auto simp: park_object_def vehicle_sight_def split: if_splits)
    then show ?thesis using park_zones_spec [OF assms(1)] by (fastforce simp: untouched_def split: option.splits)
  next
    case False
    then show ?thesis using assms(2) Some by (auto simp: park_object_def vehicle_sight_def untouched_def split: if_splits)
  qed
qed (use assms(2) in \<open>simp add: park_object_def untouched_def\<close>)

lemma park_object_sight:
  assumes "distinct (map z_key (kc_zones cfg))" "park_object cfg ctx o' s = (es, s')" "vehicle_sight cfg t o'" "t \<notin> pk_reported s"
  shows "judged cfg ctx t o' s es s'"
proof -
  have "park_zones (kc_duration cfg) ctx o' t (kc_zones cfg) s = (es, s')"
    using assms(2-4) by (auto simp: park_object_def vehicle_sight_def)
  from park_zones_spec [OF assms(1) this] assms(4) show ?thesis by (auto simp: judged_def Let_def split: option.splits)
qed

lemma park_objects_untouched:
  "distinct (map z_key (kc_zones cfg)) \<Longrightarrow> park_objects cfg ctx os s = (es, s') \<Longrightarrow> List.find (vehicle_sight cfg t) os = None \<or> t \<in> pk_reported s \<Longrightarrow>
    untouched t s es s'"
proof (induction os arbitrary: s es)
  case (Cons o' os)
  obtain es1 s1 where 1: "park_object cfg ctx o' s = (es1, s1)" by fastforce
  obtain es2 where 2: "park_objects cfg ctx os s1 = (es2, s')" "es = es1 @ es2" using Cons.prems(2) 1 by (auto split: prod.splits)
  have "untouched t s es1 s1" using Cons.prems(3) by (intro park_object_other [OF Cons.prems(1) 1]) (auto split: if_splits)
  moreover from this have "untouched t s1 es2 s'"
    using Cons.prems(3) by (intro Cons.IH [OF Cons.prems(1) 2(1)]) (auto simp: untouched_def split: if_splits)
  ultimately show ?case by (simp add: untouched_def 2(2))
qed (simp add: untouched_def)

lemma no_second_sight: "distinct (List.map_filter o_track (o' # os)) \<Longrightarrow> vehicle_sight cfg t o' \<Longrightarrow> List.find (vehicle_sight cfg t) os = None"
  by (force simp: find_None_iff vehicle_sight_def List.map_filter_simps in_map_filter)

lemma park_objects_judged:
  "distinct (map z_key (kc_zones cfg)) \<Longrightarrow> park_objects cfg ctx os s = (es, s') \<Longrightarrow> distinct (List.map_filter o_track os) \<Longrightarrow>
    List.find (vehicle_sight cfg t) os = Some o' \<Longrightarrow> t \<notin> pk_reported s \<Longrightarrow> judged cfg ctx t o' s es s'"
proof (induction os arbitrary: s es)
  case (Cons x os)
  obtain es1 s1 where 1: "park_object cfg ctx x s = (es1, s1)" by fastforce
  obtain es2 where 2: "park_objects cfg ctx os s1 = (es2, s')" "es = es1 @ es2" using Cons.prems(2) 1 by (auto split: prod.splits)
  show ?case
  proof (cases "vehicle_sight cfg t x")
    case True
    then have "judged cfg ctx t o' s es1 s1" using park_object_sight [OF Cons.prems(1) 1] Cons.prems(4,5) by simp
    moreover have "untouched t s1 es2 s'" using no_second_sight [OF Cons.prems(3) True] by (intro park_objects_untouched [OF Cons.prems(1) 2(1)]) simp
    ultimately show ?thesis by (auto simp: judged_def untouched_def Let_def 2(2) split: option.splits)
  next
    case False
    then have u: "untouched t s es1 s1" using park_object_other [OF Cons.prems(1) 1] by simp
    moreover have "judged cfg ctx t o' s1 es2 s'"
      using Cons.prems(3-5) False u by (intro Cons.IH [OF Cons.prems(1) 2(1)]) (auto simp: untouched_def List.map_filter_simps split: option.splits)
    ultimately show ?thesis by (auto simp: judged_def untouched_def Let_def 2(2) split: option.splits)
  qed
qed simp

definition keeps_stays :: "parking_cfg \<Rightarrow> string \<Rightarrow> frame_ctx list \<Rightarrow> parking \<Rightarrow> bool" where
  "keeps_stays cfg t past s \<longleftrightarrow> t \<notin> pk_reported s \<and> (\<forall>z \<in> set (kc_zones cfg). entered_at s t (z_key z) = stay cfg t z past)"

lemma stay_snoc: "stay cfg t z (past @ [f]) =
    (case sight cfg t f of Some o' \<Rightarrow> prolong (fc_ts f) (zone_contains z (anchor o')) (stay cfg t z past) | None \<Rightarrow> stay cfg t z past)"
  by (cases "sight cfg t f") (simp_all add: stay_def)

lemma find_own_key: "distinct (map z_key zs) \<Longrightarrow> z \<in> set zs \<Longrightarrow> List.find (\<lambda>y. z_key y = z_key z) zs = Some z"
  by (induction zs) (auto simp: image_iff)

lemma parking_run_reported:
  "distinct (map z_key (kc_zones cfg)) \<Longrightarrow> t \<in> pk_reported s \<Longrightarrow> of_track t (fst (parking_run cfg fs s)) = []"
proof (induction fs arbitrary: s)
  case (Cons f fs)
  obtain es s1 where e: "park_objects cfg f (fc_objects f) s = (es, s1)" by fastforce
  with park_objects_untouched [OF Cons.prems(1) e, of t] Cons.prems Cons.IH [of s1] show ?case
    by (auto simp: parking_evaluate_def untouched_def split: prod.splits)
qed simp

lemma parking_run_verdict:
  "distinct (map z_key (kc_zones cfg)) \<Longrightarrow> \<forall>f \<in> set fs. once_each f \<Longrightarrow> keeps_stays cfg t past s \<Longrightarrow>
    of_track t (fst (parking_run cfg fs s)) = (case parking_verdict cfg t past fs of Some e \<Rightarrow> [e] | None \<Rightarrow> [])"
proof (induction fs arbitrary: past s)
  case (Cons f fs)
  obtain es s1 where e: "park_objects cfg f (fc_objects f) s = (es, s1)" by fastforce
  have run: "of_track t (fst (parking_run cfg (f # fs) s)) = of_track t es @ of_track t (fst (parking_run cfg fs s1))"
    using e by (simp add: parking_evaluate_def split: prod.splits)
  have fresh: "t \<notin> pk_reported s" using Cons.prems(3) by (simp add: keeps_stays_def)
  show ?case
  proof (cases "sight cfg t f")
    case None
    then have u: "untouched t s es s1" using park_objects_untouched [OF Cons.prems(1) e, of t] by (simp add: sight_def)
    then have "keeps_stays cfg t (past @ [f]) s1" using Cons.prems(3) None by (simp add: keeps_stays_def untouched_def stay_snoc)
    from Cons.IH [OF Cons.prems(1) _ this] Cons.prems(2) show ?thesis using u run None by (simp add: untouched_def)
  next
    case (Some o')
    let ?m = "\<lambda>z. prolong (fc_ts f) (zone_contains z (anchor o')) (entered_at s t (z_key z))"
    have j: "judged cfg f t o' s es s1"
      using park_objects_judged [OF Cons.prems(1) e] Some Cons.prems(2) fresh by (simp add: sight_def once_each_def)
    have m: "?m z = stay cfg t z (past @ [f])" if "z \<in> set (kc_zones cfg)" for z
      using that Cons.prems(3) Some by (simp add: keeps_stays_def stay_snoc)
    then have same: "List.find (\<lambda>z. long_enough cfg (fc_ts f) (?m z)) (kc_zones cfg) =
        List.find (\<lambda>z. long_enough cfg (fc_ts f) (stay cfg t z (past @ [f]))) (kc_zones cfg)" by (intro find_cong) auto
    show ?thesis
    proof (cases "List.find (\<lambda>z. long_enough cfg (fc_ts f) (?m z)) (kc_zones cfg)")
      case (Some z)
      then have "z \<in> set (kc_zones cfg)" by (auto simp: find_Some_iff)
      then show ?thesis
        using j Some same m run \<open>sight cfg t f = Some o'\<close> parking_run_reported [OF Cons.prems(1), of t s1 fs] by (simp add: judged_def Let_def)
    next
      case None
      then have "keeps_stays cfg t (past @ [f]) s1"
        using j m find_own_key [OF Cons.prems(1)] by (simp add: judged_def Let_def keeps_stays_def)
      from Cons.IH [OF Cons.prems(1) _ this] Cons.prems(2) show ?thesis
        using j None same run \<open>sight cfg t f = Some o'\<close> by (simp add: judged_def Let_def)
    qed
  qed
qed simp

text \<open>
  C27. A parked vehicle is reported once, and exactly when it should be. Over any sequence of frames, for a track the activity knows nothing of
  (at start, after a reset, after the tracker retired the name), what is raised for the track is one event at the first sight at which some zone
  has held it for the required time, counted from the first of an unbroken series of sights inside that zone, and nothing else: frames in which
  it was missed do not end the series, a sight outside does.
\<close>

theorem parking_exact:
  assumes "distinct (map z_key (kc_zones cfg))" "\<forall>f \<in> set fs. once_each f" "unknown_vehicle t s"
  shows "of_track t (fst (parking_run cfg fs s)) = (case parking_verdict cfg t [] fs of Some e \<Rightarrow> [e] | None \<Rightarrow> [])"
  using assms(3) by (intro parking_run_verdict [OF assms(1,2)]) (simp add: keeps_stays_def unknown_vehicle_def stay_def)

definition demo_zone :: zone where
  "demo_zone = \<lparr>z_key = ''z'', z_name = JStr ''Gate'', z_kind = Area, z_points = [(0, 0), (1, 0), (1, 9 / 10), (0, 9 / 10)], z_direction = JNull, z_implicit = False\<rparr>"

definition demo_object :: "string \<Rightarrow> string \<Rightarrow> string \<Rightarrow> rat \<Rightarrow> tobject" where
  "demo_object t d l y = \<lparr>o_track = Some t, o_domain = d, o_label = l, o_confidence = 8 / 10, o_bbox = (1 / 10, 1 / 10, 3 / 10, y), o_confirmed = True\<rparr>"

definition demo_ctx :: "epoch \<Rightarrow> tobject list \<Rightarrow> frame_ctx" where
  "demo_ctx ts os = \<lparr>fc_camera = ''cam'', fc_ts = ts, fc_width = 1000, fc_height = 500, fc_objects = os\<rparr>"

definition demo_parking :: parking_cfg where
  "demo_parking = \<lparr>kc_classes = [''car''], kc_duration = 600, kc_zones = [demo_zone]\<rparr>"

definition car_at :: "epoch \<Rightarrow> rat \<Rightarrow> frame_ctx" where
  "car_at ts y = demo_ctx ts [demo_object ''car1'' ''vehicles'' ''car'' y, demo_object ''p1'' ''person'' ''person'' (1 / 2)]"

theorem parking_exact_witness:
  \<comment> \<open>it drives out at 300, so the ten minutes run from 400, and it is reported at 1000 and not again at 1100\<close>
  "map (\<lambda>e. (ev_started e, ev_attributes e)) (of_track ''car1'' (fst (parking_run demo_parking
      [car_at 0 (1 / 2), car_at 300 (95 / 100), car_at 400 (1 / 2), demo_ctx 700 [], car_at 1000 (1 / 2), car_at 1100 (1 / 2)] parking_init))) =
    [(1000, Parked (JStr ''Gate'') (1 / 10, 1 / 10, 3 / 10, 1 / 2) 400 600)]"
proof -
  let ?fs = "[car_at 0 (1 / 2), car_at 300 (95 / 100), car_at 400 (1 / 2), demo_ctx 700 [], car_at 1000 (1 / 2), car_at 1100 (1 / 2)]"
  have "of_track ''car1'' (fst (parking_run demo_parking ?fs parking_init)) =
      (case parking_verdict demo_parking ''car1'' [] ?fs of Some e \<Rightarrow> [e] | None \<Rightarrow> [])"
    by (rule parking_exact) (simp_all add: demo_parking_def once_each_def car_at_def demo_ctx_def demo_object_def List.map_filter_simps unknown_at_first)
  moreover have "sight demo_parking ''car1'' (car_at ts y) = Some (demo_object ''car1'' ''vehicles'' ''car'' y)" "sight demo_parking ''car1'' (demo_ctx ts []) = None"
    "fc_ts (car_at ts y) = ts" "fc_camera (car_at ts y) = ''cam''" for ts y
    by (simp_all add: sight_def car_at_def demo_ctx_def vehicle_sight_def demo_parking_def demo_object_def)
  moreover have "zone_contains demo_zone (anchor (demo_object t d l (1 / 2)))" "\<not> zone_contains demo_zone (anchor (demo_object t d l (95 / 100)))" for t d l
    by (simp_all add: zone_contains_def demo_zone_def anchor_def demo_object_def edge_flips_def)
  ultimately have "map (\<lambda>e. (ev_started e, ev_attributes e)) (of_track ''car1'' (fst (parking_run demo_parking ?fs parking_init))) =
      map (\<lambda>e. (ev_started e, ev_attributes e)) [parked_event (car_at 1000 (1 / 2)) demo_zone ''car1'' (demo_object ''car1'' ''vehicles'' ''car'' (1 / 2)) 400]"
    by (simp add: stay_def prolong_def long_enough_def demo_parking_def [unfolded atomize_eq])
  then show ?thesis
    by (simp add: parked_event_def round_box_def round_to_def round_half_even_def demo_object_def car_at_def demo_ctx_def demo_zone_def)
qed

subsection \<open>Feet on the lower edge\<close>

lemma ray_cast_above:
  "(\<And>p. p \<in> set ps \<Longrightarrow> snd p \<le> y) \<Longrightarrow> snd prev \<le> y \<Longrightarrow> ray_cast x y prev ps inside = inside"
proof (induction ps arbitrary: prev)
  case (Cons p ps)
  have "\<not> edge_flips x y p prev" using Cons.prems(1) [of p] Cons.prems(2) by (cases p; cases prev) (auto simp: edge_flips_def)
  then show ?case using Cons by simp
qed simp

lemma below_every_corner:
  assumes "\<not> z_implicit z" "\<And>p. p \<in> set (z_points z) \<Longrightarrow> snd p \<le> y"
  shows "\<not> zone_contains z (x, y)"
proof (cases "length (z_points z) < 3")
  case False
  then have "last (z_points z) \<in> set (z_points z)" by (intro last_in_set) auto
  then show ?thesis using ray_cast_above [OF assms(2), where prev = "last (z_points z)"] assms(2) by (auto simp: zone_contains_def assms(1))
qed (simp add: zone_contains_def assms(1))

lemma cut_off_vehicle_never_parked:
  \<comment> \<open>a vehicle whose box reaches the lower edge of the picture is inside no zone that was drawn on it, however long it stands\<close>
  assumes "\<forall>z \<in> set (kc_zones cfg). \<not> z_implicit z \<and> (\<forall>p \<in> set (z_points z). snd p \<le> 1)"
    and "\<forall>f \<in> set fs. \<forall>o'. sight cfg t f = Some o' \<longrightarrow> snd (anchor o') = 1"
    and "\<forall>z \<in> set (kc_zones cfg). stay cfg t z past = None"
  shows "parking_verdict cfg t past fs = None"
  using assms(2,3)
proof (induction fs arbitrary: past)
  case (Cons f fs)
  have out: "stay cfg t z (past @ [f]) = None" if "z \<in> set (kc_zones cfg)" for z
  proof (cases "sight cfg t f")
    case (Some o')
    then have "snd (anchor o') = 1" using Cons.prems(1) by simp
    then have "\<not> zone_contains z (anchor o')" using below_every_corner [of z 1 "fst (anchor o')"] assms(1) that by (cases "anchor o'") auto
    then show ?thesis using Some by (simp add: stay_snoc prolong_def)
  qed (use Cons.prems(2) that in \<open>simp add: stay_snoc\<close>)
  then have "List.find (\<lambda>z. long_enough cfg (fc_ts f) (stay cfg t z (past @ [f]))) (kc_zones cfg) = None"
    by (auto simp: find_None_iff long_enough_def)
  moreover have "parking_verdict cfg t (past @ [f]) fs = None" using out Cons by simp
  ultimately show ?case by (simp split: option.splits)
qed simp

subsection \<open>Restricted zones\<close>

definition of_stay :: "string \<Rightarrow> string \<Rightarrow> event list \<Rightarrow> event list" where
  "of_stay k t = filter (\<lambda>e. z_key (ev_zone e) = k \<and> ev_track e = Some t)"

lemma of_stay_simps [simp]:
  "of_stay k t [] = []"
  "of_stay k t (xs @ ys) = of_stay k t xs @ of_stay k t ys"
  "of_stay k t (e # es) = (if z_key (ev_zone e) = k \<and> ev_track e = Some t then e # of_stay k t es else of_stay k t es)"
  by (simp_all add: of_stay_def)

definition person_sight :: "string \<Rightarrow> tobject \<Rightarrow> bool" where
  "person_sight t o' \<longleftrightarrow> o_track o' = Some t \<and> o_label o' = ''person''"

definition same_stay :: "string \<Rightarrow> string \<Rightarrow> entries \<Rightarrow> event list \<Rightarrow> entries \<Rightarrow> bool" where
  "same_stay k t s es s' \<longleftrightarrow> of_stay k t es = [] \<and> ((k, t) \<in> en_inside s' \<longleftrightarrow> (k, t) \<in> en_inside s) \<and> map_of (en_last s') (k, t) = map_of (en_last s) (k, t)"

definition raises :: "rat \<Rightarrow> epoch \<Rightarrow> bool \<Rightarrow> epoch option \<Rightarrow> bool" where
  "raises cooldown ts inside prev \<longleftrightarrow> \<not> inside \<and> (case prev of None \<Rightarrow> True | Some l \<Rightarrow> cooldown \<le> ts - l)"

definition entered_stay :: "entry_cfg \<Rightarrow> frame_ctx \<Rightarrow> zone \<Rightarrow> nat \<Rightarrow> string \<Rightarrow> tobject \<Rightarrow> entries \<Rightarrow> event list \<Rightarrow> entries \<Rightarrow> bool" where
  "entered_stay cfg ctx z n t o' s es s' \<longleftrightarrow>
     (let k = (z_key z, t); up = raises (nc_cooldown cfg) (fc_ts ctx) (k \<in> en_inside s) (map_of (en_last s) k)
      in of_stay (z_key z) t es = (if up then [entered_event cfg ctx z n t o'] else []) \<and> k \<in> en_inside s' \<and>
         map_of (en_last s') k = (if up then Some (fc_ts ctx) else map_of (en_last s) k))"

lemma entered_event_simps [simp]: "ev_track (entered_event cfg ctx z n t o') = Some t" "ev_zone (entered_event cfg ctx z n t o') = z"
  "ev_started (entered_event cfg ctx z n t o') = fc_ts ctx"
  by (simp_all add: entered_event_def)

lemma enter_one_other:
  "enter_one cfg ctx z n o' s = (es, s') \<Longrightarrow> z_key z \<noteq> k \<or> o_track o' \<noteq> Some t \<Longrightarrow> same_stay k t s es s'"
  by (auto simp: enter_one_def Let_def same_stay_def update_conv' split: option.splits if_splits)

lemma enter_one_own:
  "enter_one cfg ctx z n o' s = (es, s') \<Longrightarrow> o_track o' = Some t \<Longrightarrow> entered_stay cfg ctx z n t o' s es s'"
  by (auto simp: enter_one_def entered_stay_def raises_def Let_def update_conv' split: option.splits if_splits)

lemma enter_all_other:
  "enter_all cfg ctx z n os s = (es, s') \<Longrightarrow> z_key z \<noteq> k \<or> (\<forall>o' \<in> set os. o_track o' \<noteq> Some t) \<Longrightarrow> same_stay k t s es s'"
proof (induction os arbitrary: s es)
  case (Cons o' os)
  obtain es1 s1 where 1: "enter_one cfg ctx z n o' s = (es1, s1)" by fastforce
  obtain es2 where 2: "enter_all cfg ctx z n os s1 = (es2, s')" "es = es1 @ es2" using Cons.prems(1) 1 by (auto split: prod.splits)
  from enter_one_other [OF 1] Cons.IH [OF 2(1)] Cons.prems(2) 2(2) show ?case by (auto simp: same_stay_def)
qed (simp add: same_stay_def)

lemma enter_all_own:
  "enter_all cfg ctx z n os s = (es, s') \<Longrightarrow> distinct (List.map_filter o_track os) \<Longrightarrow> List.find (\<lambda>o'. o_track o' = Some t) os = Some o' \<Longrightarrow>
    entered_stay cfg ctx z n t o' s es s'"
proof (induction os arbitrary: s es)
  case (Cons x os)
  obtain es1 s1 where 1: "enter_one cfg ctx z n x s = (es1, s1)" by fastforce
  obtain es2 where 2: "enter_all cfg ctx z n os s1 = (es2, s')" "es = es1 @ es2" using Cons.prems(1) 1 by (auto split: prod.splits)
  show ?case
  proof (cases "o_track x = Some t")
    case True
    then have "entered_stay cfg ctx z n t o' s es1 s1" using enter_one_own [OF 1 True] Cons.prems(3) by simp
    moreover have "same_stay (z_key z) t s1 es2 s'"
      using Cons.prems(2) True by (intro enter_all_other [OF 2(1)]) (force simp: List.map_filter_simps in_map_filter)
    ultimately show ?thesis by (auto simp: entered_stay_def same_stay_def Let_def 2(2))
  next
    case False
    then have u: "same_stay (z_key z) t s es1 s1" using enter_one_other [OF 1] by simp
    moreover have "entered_stay cfg ctx z n t o' s1 es2 s'"
      using Cons.prems(2,3) False by (intro Cons.IH [OF 2(1)]) (auto simp: List.map_filter_simps split: option.splits)
    ultimately show ?thesis by (simp add: entered_stay_def same_stay_def Let_def 2(2))
  qed
qed simp

lemma leave_zone_stay:
  "(k, t) \<in> en_inside (leave_zone z people s) \<longleftrightarrow> (k, t) \<in> en_inside s \<and>
     \<not> (k = z_key z \<and> (\<exists>o' \<in> set people. o_track o' = Some t) \<and> (\<forall>o' \<in> set people. o_track o' = Some t \<longrightarrow> \<not> zone_contains z (center o')))"
proof -
  let ?ids = "map o_track (filter (\<lambda>o'. zone_contains z (center o')) people)"
  have "(k, t) \<in> set (List.map_filter (\<lambda>o'. case o_track o' of Some t \<Rightarrow> if Some t \<in> set ?ids then None else Some (z_key z, t) | None \<Rightarrow> None) people) \<longleftrightarrow>
      k = z_key z \<and> (\<exists>o' \<in> set people. o_track o' = Some t \<and> Some t \<notin> set ?ids)" (is "?l \<longleftrightarrow> ?r")
  proof
    assume ?l then show ?r unfolding in_map_filter by (elim bexE) (auto split: option.splits if_splits)
  next
    assume ?r then show ?l unfolding in_map_filter by (elim conjE bexE, intro bexI) simp_all
  qed
  moreover have "Some t \<in> set ?ids \<longleftrightarrow> (\<exists>o' \<in> set people. o_track o' = Some t \<and> zone_contains z (center o'))" by (auto simp: image_iff eq_commute)
  ultimately show ?thesis by (simp add: leave_zone_def Let_def)
qed

lemma leave_zone_last [simp]: "en_last (leave_zone z people s) = en_last s"
  by (simp add: leave_zone_def Let_def)

fun entry_times :: "rat \<Rightarrow> bool \<Rightarrow> epoch option \<Rightarrow> (epoch \<times> bool) list \<Rightarrow> epoch list" where
  \<comment> \<open>the reference: one person, one zone, the sights as (time, inside)\<close>
  "entry_times cooldown inside prev [] = []"
| "entry_times cooldown inside prev ((ts, here) # h) =
     (if here \<and> raises cooldown ts inside prev then ts # entry_times cooldown True (Some ts) h else entry_times cooldown here prev h)"

fun entry_run :: "entry_cfg \<Rightarrow> frame_ctx list \<Rightarrow> entries \<Rightarrow> event list \<times> entries" where
  "entry_run cfg [] s = ([], s)"
| "entry_run cfg (f # fs) s = (let (es, s1) = entry_evaluate cfg f s; (gs, s2) = entry_run cfg fs s1 in (es @ gs, s2))"

definition person_sights :: "zone \<Rightarrow> string \<Rightarrow> frame_ctx list \<Rightarrow> (epoch \<times> bool) list" where
  "person_sights z t fs =
     List.map_filter (\<lambda>f. map_option (\<lambda>o'. (fc_ts f, zone_contains z (center o'))) (List.find (person_sight t) (fc_objects f))) fs"

lemma entry_zones_other:
  "entry_zones cfg ctx people zs s = (es, s') \<Longrightarrow> k \<notin> z_key ` set zs \<or> (\<forall>o' \<in> set people. o_track o' \<noteq> Some t) \<Longrightarrow> same_stay k t s es s'"
proof (induction zs arbitrary: s es)
  case (Cons z zs)
  let ?in = "filter (\<lambda>o'. zone_contains z (center o')) people"
  obtain es1 s1 where 1: "enter_all cfg ctx z (length ?in) ?in (leave_zone z people s) = (es1, s1)" by fastforce
  obtain es2 where 2: "entry_zones cfg ctx people zs s1 = (es2, s')" "es = es1 @ es2" using Cons.prems(1) 1 by (auto simp: Let_def split: prod.splits)
  have "same_stay k t (leave_zone z people s) es1 s1" using Cons.prems(2) by (intro enter_all_other [OF 1]) auto
  moreover have "same_stay k t s1 es2 s'" using Cons.prems(2) by (intro Cons.IH [OF 2(1)]) auto
  ultimately show ?case using Cons.prems(2) by (auto simp: same_stay_def 2(2) leave_zone_stay)
qed (simp add: same_stay_def)

definition zone_outcome :: "entry_cfg \<Rightarrow> frame_ctx \<Rightarrow> zone \<Rightarrow> string \<Rightarrow> tobject \<Rightarrow> entries \<Rightarrow> event list \<Rightarrow> entries \<Rightarrow> bool" where
  "zone_outcome cfg ctx z t o' s es s' \<longleftrightarrow>
     (let k = (z_key z, t); here = zone_contains z (center o'); up = here \<and> raises (nc_cooldown cfg) (fc_ts ctx) (k \<in> en_inside s) (map_of (en_last s) k)
      in map ev_started (of_stay (z_key z) t es) = (if up then [fc_ts ctx] else []) \<and> (k \<in> en_inside s' \<longleftrightarrow> here) \<and>
         map_of (en_last s') k = (if up then Some (fc_ts ctx) else map_of (en_last s) k))"

lemma find_unique_filter:
  assumes "distinct (List.map_filter o_track os)" "List.find (\<lambda>o'. o_track o' = Some t) os = Some o'"
  shows "List.find (\<lambda>o'. o_track o' = Some t) (filter P os) = (if P o' then Some o' else None)" "distinct (List.map_filter o_track (filter P os))"
    "\<And>x. x \<in> set os \<Longrightarrow> o_track x = Some t \<Longrightarrow> x = o'"
proof -
  show same: "x \<in> set os \<Longrightarrow> o_track x = Some t \<Longrightarrow> x = o'" for x
    using assms by (induction os) (force simp: List.map_filter_simps in_map_filter split: if_splits option.splits)+
  have o': "o' \<in> set os" "o_track o' = Some t" using assms(2) by (auto simp: find_Some_iff)
  show "List.find (\<lambda>o'. o_track o' = Some t) (filter P os) = (if P o' then Some o' else None)"
  proof (cases "List.find (\<lambda>o'. o_track o' = Some t) (filter P os)")
    case None
    then show ?thesis using o' by (auto simp: find_None_iff)
  next
    case (Some x)
    then have "x \<in> set os" "P x" "o_track x = Some t" by (auto simp: find_Some_iff dest!: nth_mem)
    then show ?thesis using Some same by auto
  qed
  show "distinct (List.map_filter o_track (filter P os))"
    using assms(1) by (induction os) (auto simp: List.map_filter_simps in_map_filter split: option.splits)
qed

lemma entry_zones_own:
  "entry_zones cfg ctx people zs s = (es, s') \<Longrightarrow> distinct (map z_key zs) \<Longrightarrow> z \<in> set zs \<Longrightarrow> distinct (List.map_filter o_track people) \<Longrightarrow>
    List.find (\<lambda>o'. o_track o' = Some t) people = Some o' \<Longrightarrow> zone_outcome cfg ctx z t o' s es s'"
proof (induction zs arbitrary: s es)
  case (Cons y zs)
  let ?in = "filter (\<lambda>o'. zone_contains y (center o')) people"
  obtain es1 s1 where 1: "enter_all cfg ctx y (length ?in) ?in (leave_zone y people s) = (es1, s1)" by fastforce
  obtain es2 where 2: "entry_zones cfg ctx people zs s1 = (es2, s')" "es = es1 @ es2" using Cons.prems(1) 1 by (auto simp: Let_def split: prod.splits)
  note u = find_unique_filter [OF Cons.prems(4,5)]
  show ?case
  proof (cases "y = z")
    case True
    have o': "o' \<in> set people" "o_track o' = Some t" using Cons.prems(5) by (auto simp: find_Some_iff)
    have "z_key z \<notin> z_key ` set zs" using Cons.prems(2) True by simp
    then have rest: "same_stay (z_key z) t s1 es2 s'" using entry_zones_other [OF 2(1)] by blast
    show ?thesis
    proof (cases "zone_contains z (center o')")
      case here: True
      then have "entered_stay cfg ctx z (length ?in) t o' (leave_zone z people s) es1 s1"
        using enter_all_own [OF 1 u(2), of t o'] u(1) True by simp
      moreover have "(z_key z, t) \<in> en_inside (leave_zone z people s) \<longleftrightarrow> (z_key z, t) \<in> en_inside s"
        using here o' unfolding leave_zone_stay by blast
      ultimately show ?thesis using rest here by (auto simp: zone_outcome_def entered_stay_def same_stay_def Let_def 2(2))
    next
      case out: False
      have "\<forall>x \<in> set ?in. o_track x \<noteq> Some t" using u(3) out True by auto
      then have "same_stay (z_key z) t (leave_zone z people s) es1 s1" using enter_all_other [OF 1] True by blast
      moreover have "\<forall>x \<in> set people. o_track x = Some t \<longrightarrow> \<not> zone_contains z (center x)" using u(3) out by blast
      ultimately show ?thesis using rest out o' by (auto simp: zone_outcome_def same_stay_def Let_def 2(2) leave_zone_stay)
    qed
  next
    case False
    then have z: "z \<in> set zs" "z_key y \<noteq> z_key z" using Cons.prems(2,3) by (auto simp: image_iff)
    have "same_stay (z_key z) t (leave_zone y people s) es1 s1" using enter_all_other [OF 1] z(2) by blast
    moreover have "zone_outcome cfg ctx z t o' s1 es2 s'" using Cons.prems z by (intro Cons.IH [OF 2(1)]) auto
    ultimately show ?thesis using z(2) by (auto simp: zone_outcome_def same_stay_def Let_def 2(2) leave_zone_stay)
  qed
qed simp

lemma find_filter: "List.find P (filter Q xs) = List.find (\<lambda>x. Q x \<and> P x) xs"
  by (induction xs) auto

lemma map_filter_distinct_filter: "distinct (List.map_filter f xs) \<Longrightarrow> distinct (List.map_filter f (filter P xs))"
  by (induction xs) (auto simp: List.map_filter_simps in_map_filter split: option.splits)

lemma entry_evaluate_frame:
  assumes "entry_evaluate cfg ctx s = (es, s')" "distinct (map z_key (nc_zones cfg))" "z \<in> set (nc_zones cfg)" "once_each ctx"
  shows "case List.find (person_sight t) (fc_objects ctx) of Some o' \<Rightarrow> zone_outcome cfg ctx z t o' s es s' | None \<Rightarrow> same_stay (z_key z) t s es s'"
proof -
  let ?people = "filter (\<lambda>o'. o_label o' = ''person'') (fc_objects ctx)"
  have found: "List.find (person_sight t) (fc_objects ctx) = List.find (\<lambda>o'. o_track o' = Some t) ?people"
    by (simp add: find_filter person_sight_def [abs_def] conj_commute)
  have d: "distinct (List.map_filter o_track ?people)" using assms(4) by (simp add: once_each_def map_filter_distinct_filter)
  show ?thesis
  proof (cases "?people = []")
    case True
    then have "es = []" "s' = s" using assms(1) by (auto simp: entry_evaluate_def)
    then show ?thesis using True found by (simp add: same_stay_def)
  next
    case False
    then have e: "entry_zones cfg ctx ?people (nc_zones cfg) s = (es, s')" using assms(1) by (simp add: entry_evaluate_def)
    show ?thesis
    proof (cases "List.find (\<lambda>o'. o_track o' = Some t) ?people")
      case None
      then have "\<forall>o' \<in> set ?people. o_track o' \<noteq> Some t" by (auto simp: find_None_iff)
      then show ?thesis using entry_zones_other [OF e, of "z_key z" t] None found by simp
    next
      case (Some o')
      then show ?thesis using entry_zones_own [OF e assms(2,3) d Some] found by simp
    qed
  qed
qed

lemma entry_run_times:
  assumes "distinct (map z_key (nc_zones cfg))" "z \<in> set (nc_zones cfg)"
  shows "\<forall>f \<in> set fs. once_each f \<Longrightarrow> map ev_started (of_stay (z_key z) t (fst (entry_run cfg fs s))) =
    entry_times (nc_cooldown cfg) ((z_key z, t) \<in> en_inside s) (map_of (en_last s) (z_key z, t)) (person_sights z t fs)"
proof (induction fs arbitrary: s)
  case (Cons f fs)
  obtain es s1 where e: "entry_evaluate cfg f s = (es, s1)" by fastforce
  have run: "map ev_started (of_stay (z_key z) t (fst (entry_run cfg (f # fs) s))) =
      map ev_started (of_stay (z_key z) t es) @ map ev_started (of_stay (z_key z) t (fst (entry_run cfg fs s1)))"
    using e by (simp split: prod.splits)
  note step = entry_evaluate_frame [OF e assms, of t] and ih = Cons.IH [of s1]
  show ?case
  proof (cases "List.find (person_sight t) (fc_objects f)")
    case None
    then show ?thesis using step ih run Cons.prems by (simp add: same_stay_def person_sights_def List.map_filter_simps)
  next
    case (Some o')
    then show ?thesis using step ih run Cons.prems by (simp add: zone_outcome_def Let_def person_sights_def List.map_filter_simps)
  qed
qed (simp add: person_sights_def List.map_filter_simps)

lemma entry_times_spaced:
  "successively (\<lambda>a b. cooldown \<le> b - a) (entry_times cooldown inside prev h)"
  "entry_times cooldown inside (Some a) h = b # bs \<Longrightarrow> cooldown \<le> b - a"
proof -
  show first: "entry_times cooldown inside (Some a) h = b # bs \<Longrightarrow> cooldown \<le> b - a" for inside a b bs h
    by (induction h arbitrary: inside) (auto simp: raises_def split: if_splits)
  show "successively (\<lambda>a b. cooldown \<le> b - a) (entry_times cooldown inside prev h)"
  proof (induction h arbitrary: inside prev)
    case (Cons x h)
    obtain ts here where x: "x = (ts, here)" by fastforce
    show ?case
    proof (cases "entry_times cooldown True (Some ts) h")
      case (Cons b bs)
      then show ?thesis using Cons.IH [of True "Some ts"] Cons.IH [of here prev] first [OF Cons] by (auto simp: x)
    qed (use Cons.IH in \<open>auto simp: x\<close>)
  qed simp
qed

text \<open>
  C29. A person is reported on entering a restricted zone, once per stay. For each person and each zone the times of the events are exactly
  those of the reference, which sees nothing but that person's sights: an event at a sight inside that follows a sight outside (or is the
  first), unless the last event was less than the cooldown ago. So other people, other zones and frames without the person have no influence,
  and two events of one person in one zone are never closer than the cooldown.
\<close>

theorem entry_exact:
  assumes "distinct (map z_key (nc_zones cfg))" "z \<in> set (nc_zones cfg)" "\<forall>f \<in> set fs. once_each f"
  shows "map ev_started (of_stay (z_key z) t (fst (entry_run cfg fs entries_init))) =
      entry_times (nc_cooldown cfg) False None (person_sights z t fs) \<and>
    successively (\<lambda>a b. nc_cooldown cfg \<le> b - a) (map ev_started (of_stay (z_key z) t (fst (entry_run cfg fs entries_init))))"
  using entry_run_times [OF assms, of t entries_init] by (simp add: entries_init_def entry_times_spaced)

definition demo_entry :: entry_cfg where
  "demo_entry = \<lparr>nc_cooldown = 60, nc_zones = [demo_zone]\<rparr>"

definition person_at :: "epoch \<Rightarrow> rat \<Rightarrow> frame_ctx" where
  "person_at ts x = demo_ctx ts [demo_object ''p1'' ''person'' ''person'' x, demo_object ''p2'' ''person'' ''person'' (1 / 2)]"

theorem entry_exact_witness:
  \<comment> \<open>in at 0, out at 10, in again at 20 (too soon), out, in again at 100\<close>
  "map ev_started (of_stay ''z'' ''p1'' (fst (entry_run demo_entry
      [person_at 0 (1 / 2), person_at 10 2, person_at 20 (1 / 2), person_at 30 2, person_at 100 (1 / 2)] entries_init))) = [0, 100]"
proof -
  let ?fs = "[person_at 0 (1 / 2), person_at 10 2, person_at 20 (1 / 2), person_at 30 2, person_at 100 (1 / 2)]"
  have "map ev_started (of_stay (z_key demo_zone) ''p1'' (fst (entry_run demo_entry ?fs entries_init))) =
      entry_times (nc_cooldown demo_entry) False None (person_sights demo_zone ''p1'' ?fs)"
    by (rule conjunct1 [OF entry_exact])
      (simp_all add: demo_entry_def once_each_def person_at_def demo_ctx_def demo_object_def List.map_filter_simps)
  moreover have "zone_contains demo_zone (center (demo_object t d l (1 / 2)))" "\<not> zone_contains demo_zone (center (demo_object t d l 2))" for t d l
    by (simp_all add: zone_contains_def demo_zone_def center_def demo_object_def edge_flips_def)
  moreover have "List.find (person_sight ''p1'') (fc_objects (person_at ts x)) = Some (demo_object ''p1'' ''person'' ''person'' x)" "fc_ts (person_at ts x) = ts" for ts x
    by (simp_all add: person_at_def demo_ctx_def person_sight_def demo_object_def)
  ultimately show ?thesis
    by (simp add: person_sights_def List.map_filter_simps raises_def demo_entry_def demo_zone_def)
qed

subsection \<open>Tripwires\<close>



definition passage_at :: "gateway \<Rightarrow> string \<times> string \<Rightarrow> passage" where
  "passage_at s key = (case map_of (gw_passages s) key of Some p \<Rightarrow> p | None \<Rightarrow> passage_init)"






lemma crossed_event_simps [simp]: "ev_track (crossed_event f wire t x) = Some t" "ev_zone (crossed_event f wire t x) = wire"
  by (simp_all add: crossed_event_def split: prod.splits)

lemma of_stay_crossed [simp]: "of_stay k u (map (crossed_event f wire t) xs) = (if k = z_key wire \<and> u = t then map (crossed_event f wire t) xs else [])"
  by (induction xs) auto

lemma passage_at_update [simp]:
  "passage_at \<lparr>gw_passages = AList.update k p (set_default k passage_init d), gw_pending = x\<rparr> j =
     (if j = k then p else case map_of d j of Some q \<Rightarrow> q | None \<Rightarrow> passage_init)"
  by (simp add: passage_at_def update_conv' map_of_set_default)













definition crossing_of :: "event \<Rightarrow> epoch \<times> direction option" where
  "crossing_of e = (ev_started e, case ev_attributes e of Crossed d _ _ _ \<Rightarrow> Some d | _ \<Rightarrow> None)"

lemma crossing_of_crossed [simp]: "crossing_of (crossed_event f wire t x) = (fst x, Some (fst (snd x)))"
  by (simp add: crossing_of_def crossed_event_def split: prod.splits)






lemma crossing_direction:
  \<comment> \<open>a crossing leads from one side of the line to the other, and is an entry when it leads to the entry side\<close>
  assumes "passage_step clip w h wire box p = (Some d, p')"
  shows "pa_side p' = side_of w h box (z_points wire)" "pa_side p' \<noteq> 0" "pa_side p \<noteq> 0" "pa_side p' \<noteq> pa_side p"
    "d = Entry \<longleftrightarrow> Some (pa_side p') = entry_side (z_direction wire)"
  using assms by (auto simp: passage_step_def Let_def split: if_splits)

subsection \<open>Who gathers\<close>

inductive rep :: "parents \<Rightarrow> string \<Rightarrow> string \<Rightarrow> bool" for p where
  Root: "map_of p x = Some x \<Longrightarrow> rep p x x"
| Up: "map_of p x = Some y \<Longrightarrow> y \<noteq> x \<Longrightarrow> rep p y r \<Longrightarrow> rep p x r"

lemma rep_root: "rep p x r \<Longrightarrow> map_of p r = Some r"
  by (induction rule: rep.induct)

lemma rep_unique: "rep p x r \<Longrightarrow> rep p x r' \<Longrightarrow> r' = r"
proof (induction rule: rep.induct)
  case (Root x)
  then show ?case by (auto elim: rep.cases)
next
  case (Up x y r)
  from Up.prems Up.hyps(1,2) have "rep p y r'" by (auto elim: rep.cases)
  then show ?case by (rule Up.IH)
qed

lemma rep_compress:
  assumes "rep p x r"
  shows "rep (AList.update x r p) a z \<longleftrightarrow> rep p a z"
proof
  let ?q = "AList.update x r p"
  have lk: "map_of ?q b = (if b = x then Some r else map_of p b)" for b by (simp add: update_conv')
  have root: "map_of p r = Some r" using rep_root [OF assms] .
  then have rq: "rep ?q r r" by (intro rep.Root) (simp add: lk)
  show "rep ?q a z \<Longrightarrow> rep p a z"
  proof (induction rule: rep.induct)
    case (Root b)
    then show ?case using assms by (auto simp: lk split: if_splits intro: rep.Root)
  next
    case (Up b y c)
    show ?case
    proof (cases "b = x")
      case True
      then have "y = r" using Up.hyps(1) by (simp add: lk)
      then have "c = r" using rep_unique [OF rep.Root [of p r, OF root]] Up.IH by auto
      then show ?thesis using assms True by simp
    qed (use Up in \<open>auto simp: lk intro: rep.Up\<close>)
  qed
  show "rep p a z \<Longrightarrow> rep ?q a z"
  proof (induction rule: rep.induct)
    case (Root b)
    then have "b = x \<Longrightarrow> r = x" using rep_unique [OF assms] rep.Root [of p b] by auto
    then show ?case using Root by (auto simp: lk intro!: rep.Root)
  next
    case (Up b y c)
    show ?case
    proof (cases "b = x")
      case True
      have "rep p b c" using Up.hyps by (rule rep.Up)
      then have "c = r" using rep_unique [OF assms] True by simp
      moreover have "r \<noteq> x" using root Up.hyps(1,2) True by auto
      from rep.Up [OF _ this rq] have "rep ?q x r" by (simp add: lk)
      ultimately show ?thesis using True by simp
    qed (use Up in \<open>auto simp: lk intro: rep.Up\<close>)
  qed
qed

lemma uf_find_rep:
  assumes "rep p x r"
  shows "\<exists>q. uf_find x p = Some (r, q) \<and> (\<forall>a z. rep q a z \<longleftrightarrow> rep p a z) \<and> map fst q = map fst p"
  using assms
proof (induction rule: rep.induct)
  case (Root x)
  then show ?case by (subst uf_find.simps) simp
next
  case (Up x y r)
  then obtain q where q: "uf_find y p = Some (r, q)" "\<forall>a z. rep q a z \<longleftrightarrow> rep p a z" "map fst q = map fst p" by blast
  have "rep q x r" using q(2) rep.Up [OF Up.hyps] by simp
  moreover have "x \<in> set (map fst q)" using Up.hyps(1) q(3) by (metis map_of_eq_None_iff option.distinct(1) set_map)
  ultimately show ?case using q Up.hyps(1,2) rep_compress [of q x r]
    by (intro exI [of _ "AList.update x r q"]) (subst uf_find.simps, auto simp: AList.update_keys)
qed

definition complete_forest :: "parents \<Rightarrow> bool" where
  "complete_forest p \<longleftrightarrow> distinct (map fst p) \<and> (\<forall>x \<in> set (map fst p). \<exists>r. rep p x r)"

lemma rep_key: "rep p x r \<Longrightarrow> x \<in> set (map fst p) \<and> r \<in> set (map fst p)"
  by (induction rule: rep.induct) (auto dest!: map_of_SomeD intro: rev_image_eqI)

lemma rep_link:
  assumes "map_of p s = Some s" "map_of p t = Some t" "s \<noteq> t"
  shows "rep (AList.update t s p) a z \<longleftrightarrow> (\<exists>r. rep p a r \<and> z = (if r = t then s else r))"
proof
  let ?q = "AList.update t s p"
  have lk: "map_of ?q b = (if b = t then Some s else map_of p b)" for b by (simp add: update_conv')
  have s: "rep ?q s s" using assms by (intro rep.Root) (simp add: lk)
  show "rep ?q a z \<Longrightarrow> \<exists>r. rep p a r \<and> z = (if r = t then s else r)"
  proof (induction rule: rep.induct)
    case (Root b)
    then show ?case using assms(3) by (intro exI [of _ b]) (auto simp: lk split: if_splits intro: rep.Root)
  next
    case (Up b y c)
    show ?case
    proof (cases "b = t")
      case True
      then have "y = s" using Up.hyps(1) by (simp add: lk)
      then have "c = s" using rep_unique [OF s] Up.hyps(3) by simp
      then show ?thesis using True assms(2) by (intro exI [of _ t]) (auto intro: rep.Root)
    next
      case False
      then have "map_of p b = Some y" using Up.hyps(1) by (simp add: lk)
      moreover obtain r where r: "rep p y r" "c = (if r = t then s else r)" using Up.IH by blast
      ultimately have "rep p b r" using Up.hyps(2) by (intro rep.Up [of p b y r])
      then show ?thesis using r(2) by blast
    qed
  qed
  assume "\<exists>r. rep p a r \<and> z = (if r = t then s else r)"
  then obtain r where "rep p a r" "z = (if r = t then s else r)" by blast
  then show "rep ?q a z"
  proof (induction rule: rep.induct)
    case (Root b)
    show ?case
    proof (cases "b = t")
      case True
      from rep.Up [OF _ _ s] have "rep ?q t s" using assms(3) by (auto simp: lk)
      then show ?thesis using Root True by simp
    qed (use Root in \<open>auto simp: lk intro: rep.Root\<close>)
  next
    case (Up b y c)
    then have "b \<noteq> t" using assms(2) by auto
    then show ?case using Up by (auto simp: lk intro: rep.Up)
  qed
qed

definition partners :: "parents \<Rightarrow> (string \<times> string) set" where
  "partners p = {(a, b). \<exists>r. rep p a r \<and> rep p b r}"

definition linked :: "pairs \<Rightarrow> (string \<times> string) set" where
  \<comment> \<open>the reference: connected through pairs\<close>
  "linked ps = (set ps \<union> (set ps)\<inverse>)\<^sup>*"

lemma partners_iff: "rep p a r \<Longrightarrow> rep p b s \<Longrightarrow> (a, b) \<in> partners p \<longleftrightarrow> r = s"
  by (auto simp: partners_def dest: rep_unique)

lemma partners_sym: "(a, b) \<in> partners p \<Longrightarrow> (b, a) \<in> partners p"
  by (auto simp: partners_def)

lemma partners_trans: "(a, b) \<in> partners p \<Longrightarrow> (b, c) \<in> partners p \<Longrightarrow> (a, c) \<in> partners p"
  by (auto simp: partners_def dest: rep_unique)

lemma uf_union_spec:
  assumes "complete_forest p" "x \<in> set (map fst p)" "y \<in> set (map fst p)"
  obtains q where "uf_union x y p = Some q" "complete_forest q" "map fst q = map fst p"
    "\<And>a b. (a, b) \<in> partners q \<longleftrightarrow> (a, b) \<in> partners p \<or> (a, x) \<in> partners p \<and> (y, b) \<in> partners p \<or> (a, y) \<in> partners p \<and> (x, b) \<in> partners p"
proof -
  obtain rx where rx: "rep p x rx" using assms(1,2) by (auto simp: complete_forest_def)
  obtain ry where ry: "rep p y ry" using assms(1,3) by (auto simp: complete_forest_def)
  obtain p1 where p1: "uf_find x p = Some (rx, p1)" "\<forall>a z. rep p1 a z \<longleftrightarrow> rep p a z" "map fst p1 = map fst p" using uf_find_rep [OF rx] by blast
  obtain p2 where p2: "uf_find y p1 = Some (ry, p2)" "\<forall>a z. rep p2 a z \<longleftrightarrow> rep p1 a z" "map fst p2 = map fst p1" using uf_find_rep [of p1 y ry] ry p1(2) by blast
  have total: "\<exists>r. rep p a r" if "a \<in> set (map fst p)" for a using assms(1) that unfolding complete_forest_def by blast
  show thesis
  proof (cases "rx = ry")
    case True
    have same: "partners p2 = partners p" by (simp add: partners_def p2(2) p1(2))
    have xy: "(x, y) \<in> partners p" using rx ry True by (auto simp: partners_def)
    show ?thesis
    proof (rule that [of p2])
      show "uf_union x y p = Some p2" using True by (simp add: uf_union_def p1(1) p2(1))
      show "complete_forest p2" using assms(1) by (simp add: complete_forest_def p2 p1)
      show "map fst p2 = map fst p" by (simp add: p2 p1)
      show "(a, b) \<in> partners p2 \<longleftrightarrow> (a, b) \<in> partners p \<or> (a, x) \<in> partners p \<and> (y, b) \<in> partners p \<or> (a, y) \<in> partners p \<and> (x, b) \<in> partners p" for a b
        unfolding same using xy by (meson partners_sym partners_trans)
    qed
  next
    case False
    let ?q = "AList.update ry rx p2"
    have roots: "map_of p2 rx = Some rx" "map_of p2 ry = Some ry" using rx ry rep_root p1(2) p2(2) by blast+
    have link: "rep ?q a z \<longleftrightarrow> (\<exists>r. rep p a r \<and> z = (if r = ry then rx else r))" for a z
      using rep_link [OF roots False] p1(2) p2(2) by simp
    have keys: "map fst ?q = map fst p" using rep_key [OF ry] by (simp add: AList.update_keys p1(3) p2(3))
    show ?thesis
    proof (rule that [of ?q])
      show "uf_union x y p = Some ?q" using False by (simp add: uf_union_def p1(1) p2(1))
      show "map fst ?q = map fst p" by (rule keys)
      show "complete_forest ?q" using assms(1) total unfolding complete_forest_def keys link by blast
      show "(a, b) \<in> partners ?q \<longleftrightarrow> (a, b) \<in> partners p \<or> (a, x) \<in> partners p \<and> (y, b) \<in> partners p \<or> (a, y) \<in> partners p \<and> (x, b) \<in> partners p" for a b
      proof (cases "(\<exists>r. rep p a r) \<and> (\<exists>r. rep p b r)")
        case True
        then obtain ra rb where r: "rep p a ra" "rep p b rb" by blast
        have "(a, b) \<in> partners ?q \<longleftrightarrow> (if ra = ry then rx else ra) = (if rb = ry then rx else rb)"
          using link r by (intro partners_iff) auto
        moreover note partners_iff [OF r] partners_iff [OF r(1) rx] partners_iff [OF ry r(2)] partners_iff [OF r(1) ry] partners_iff [OF rx r(2)]
        ultimately show ?thesis by auto
      qed (auto simp: partners_def link)
    qed
  qed
qed

lemma linked_refl [simp]: "(a, a) \<in> linked ps"
  by (simp add: linked_def)

lemma linked_sym: "(a, b) \<in> linked ps \<Longrightarrow> (b, a) \<in> linked ps"
  unfolding linked_def using sym_rtrancl [OF sym_Un_converse [of "set ps"]] by (rule symD)

lemma linked_trans: "(a, b) \<in> linked ps \<Longrightarrow> (b, c) \<in> linked ps \<Longrightarrow> (a, c) \<in> linked ps"
  unfolding linked_def by (rule rtrancl_trans)

lemma linked_mono: "set ps \<subseteq> set qs \<Longrightarrow> (a, b) \<in> linked ps \<Longrightarrow> (a, b) \<in> linked qs"
  unfolding linked_def by (rule rtrancl_mono [THEN subsetD]) auto

lemma linked_snoc:
  "(a, b) \<in> linked (ps @ [(x, y)]) \<longleftrightarrow> (a, b) \<in> linked ps \<or> (a, x) \<in> linked ps \<and> (y, b) \<in> linked ps \<or> (a, y) \<in> linked ps \<and> (x, b) \<in> linked ps"
proof
  show "(a, b) \<in> linked (ps @ [(x, y)]) \<Longrightarrow> (a, b) \<in> linked ps \<or> (a, x) \<in> linked ps \<and> (y, b) \<in> linked ps \<or> (a, y) \<in> linked ps \<and> (x, b) \<in> linked ps"
    unfolding linked_def [of "ps @ [(x, y)]"]
  proof (induction rule: rtrancl_induct)
    case (step c d)
    from step.hyps(2) consider "(c, d) \<in> linked ps" | "c = x" "d = y" | "c = y" "d = x" by (auto simp: linked_def)
    then show ?case using step.IH linked_trans linked_refl by cases (meson, metis, metis)
  qed simp
next
  have m: "(a, b) \<in> linked (ps @ [(x, y)])" if "(a, b) \<in> linked ps" for a b by (rule linked_mono [OF _ that]) auto
  have "(x, y) \<in> linked (ps @ [(x, y)])" by (auto simp: linked_def)
  then show "(a, b) \<in> linked ps \<or> (a, x) \<in> linked ps \<and> (y, b) \<in> linked ps \<or> (a, y) \<in> linked ps \<and> (x, b) \<in> linked ps \<Longrightarrow> (a, b) \<in> linked (ps @ [(x, y)])"
    using m linked_trans linked_sym by meson
qed

definition members :: "pairs \<Rightarrow> string set" where
  "members ps = fst ` set ps \<union> snd ` set ps"

definition joined :: "pairs \<Rightarrow> parents \<Rightarrow> bool" where
  \<comment> \<open>the forest after these pairs\<close>
  "joined ps p \<longleftrightarrow> complete_forest p \<and> set (map fst p) = members ps \<and> (\<forall>a \<in> members ps. \<forall>b \<in> members ps. (a, b) \<in> partners p \<longleftrightarrow> (a, b) \<in> linked ps)"

lemma add_key:
  assumes "complete_forest p"
  shows "complete_forest (set_default x x p)" "set (map fst (set_default x x p)) = insert x (set (map fst p))"
    "(a, b) \<in> partners (set_default x x p) \<longleftrightarrow> (a, b) \<in> partners p \<or> a = x \<and> b = x"
proof -
  let ?q = "set_default x x p"
  consider (old) y where "map_of p x = Some y" | (new) "map_of p x = None" by (cases "map_of p x") auto
  then have all: "complete_forest ?q \<and> set (map fst ?q) = insert x (set (map fst p)) \<and> ((a, b) \<in> partners ?q \<longleftrightarrow> (a, b) \<in> partners p \<or> a = x \<and> b = x)"
  proof cases
    case old
    then have "?q = p" "x \<in> set (map fst p)" by (auto simp: set_default_def dest!: map_of_SomeD intro: rev_image_eqI)
    moreover from this assms obtain r where "rep p x r" unfolding complete_forest_def by blast
    ultimately show ?thesis using assms by (auto simp: partners_def)
  next
    case new
    have q: "?q = AList.update x x p" "x \<notin> set (map fst p)" using new by (simp add: set_default_def, simp add: map_of_eq_None_iff)
    have lk: "map_of ?q c = (if c = x then Some x else map_of p c)" for c by (simp add: q(1) update_conv')
    have old: "rep p c z \<Longrightarrow> rep ?q c z" for c z
    proof (induction rule: rep.induct)
      case (Up c y r)
      then have "c \<noteq> x" using new by auto
      then show ?case using Up.hyps(1,2) Up.IH by (intro rep.Up [of ?q c y r]) (simp_all add: lk)
    qed (use new in \<open>auto simp: lk intro: rep.Root\<close>)
    have newer: "rep ?q c z \<Longrightarrow> c \<noteq> x \<longrightarrow> rep p c z" for c z
    proof (induction rule: rep.induct)
      case (Up c y z)
      show ?case
      proof
        assume c: "c \<noteq> x"
        then have y: "map_of p c = Some y" using Up.hyps(1) by (simp add: lk)
        have "y \<noteq> x"
        proof
          assume "y = x"
          obtain r where "rep p c r" using assms y unfolding complete_forest_def by (metis map_of_eq_None_iff option.distinct(1) set_map)
          then have "rep p y r" using y Up.hyps(2) by (auto elim: rep.cases)
          then show False using rep_key [of p y r] q(2) \<open>y = x\<close> by simp
        qed
        then show "rep p c z" using y Up.hyps(2) Up.IH by (auto intro: rep.Up)
      qed
    qed (auto simp: lk intro: rep.Root)
    have x: "rep ?q x z \<longleftrightarrow> z = x" for z using rep.Root [of ?q x] rep_unique [of ?q x x z] by (auto simp: lk)
    have r: "rep ?q c z \<longleftrightarrow> (if c = x then z = x else rep p c z)" for c z using x old [of c z] newer [of c z] by auto
    have nx: "\<not> rep p c x" for c using rep_key [of p c x] q(2) by blast
    have "complete_forest ?q" using assms q unfolding complete_forest_def r by (auto simp: AList.update_keys)
    moreover have "set (map fst ?q) = insert x (set (map fst p))" by (auto simp: q(1) AList.update_keys)
    moreover have "(a, b) \<in> partners ?q \<longleftrightarrow> (a, b) \<in> partners p \<or> a = x \<and> b = x"
      using rep_key [of p] q(2) nx by (auto simp: partners_def r)
    ultimately show ?thesis by blast
  qed
  show "complete_forest ?q" "set (map fst ?q) = insert x (set (map fst p))" "(a, b) \<in> partners ?q \<longleftrightarrow> (a, b) \<in> partners p \<or> a = x \<and> b = x"
    using all by blast+
qed

lemma linked_members: "(a, b) \<in> linked ps \<Longrightarrow> a \<noteq> b \<Longrightarrow> a \<in> members ps \<and> b \<in> members ps"
  unfolding linked_def
proof (induction rule: rtrancl_induct)
  case (step b c)
  then show ?case by (cases "a = b") (force simp: members_def)+
qed simp

lemma joined_step:
  assumes "joined ps p"
  obtains q where "uf_union a b (set_default b b (set_default a a p)) = Some q" "joined (ps @ [(a, b)]) q"
proof -
  let ?p1 = "set_default a a p" and ?p2 = "set_default b b (set_default a a p)"
  have f: "complete_forest p" "set (map fst p) = members ps" using assms by (simp_all add: joined_def)
  note k1 = add_key [OF f(1), where x = a] and k2 = add_key [OF add_key(1) [OF f(1), where x = a], where x = b]
  have keys: "set (map fst ?p2) = members (ps @ [(a, b)])" using k1(2) k2(2) f(2) by (auto simp: members_def)
  have parts: "(c, d) \<in> partners ?p2 \<longleftrightarrow> (c, d) \<in> partners p \<or> c = a \<and> d = a \<or> c = b \<and> d = b" for c d
    using k1(3) [where a = c and b = d] k2(3) [where a = c and b = d] by blast
  have known: "(c, d) \<in> partners ?p2 \<longleftrightarrow> (c, d) \<in> linked ps" if "c \<in> members (ps @ [(a, b)])" "d \<in> members (ps @ [(a, b)])" for c d
  proof (cases "c \<in> members ps \<and> d \<in> members ps")
    case True
    then show ?thesis using assms parts [of c d] linked_refl by (auto simp: joined_def)
  next
    case False
    then have "(c, d) \<notin> partners p" using rep_key f(2) by (fastforce simp: partners_def)
    moreover have "(c, d) \<in> linked ps \<longleftrightarrow> c = d" using linked_members [of c d ps] False linked_refl by blast
    moreover have "c = a \<or> c = b \<or> d = a \<or> d = b" using that False by (auto simp: members_def)
    ultimately show ?thesis using parts [of c d] partners_sym that False by (auto simp: members_def)
  qed
  have ab: "a \<in> set (map fst ?p2)" "b \<in> set (map fst ?p2)" by (simp_all only: keys) (simp_all add: members_def)
  from uf_union_spec [OF k2(1) ab] obtain q where q: "uf_union a b ?p2 = Some q" "complete_forest q" "map fst q = map fst ?p2"
    "\<And>c d. (c, d) \<in> partners q \<longleftrightarrow> (c, d) \<in> partners ?p2 \<or> (c, a) \<in> partners ?p2 \<and> (b, d) \<in> partners ?p2 \<or> (c, b) \<in> partners ?p2 \<and> (a, d) \<in> partners ?p2" by blast
  have m: "a \<in> members (ps @ [(a, b)])" "b \<in> members (ps @ [(a, b)])" by (simp_all add: members_def)
  have "joined (ps @ [(a, b)]) q" unfolding joined_def q(3) keys using q(2) by (simp add: q(4) known linked_snoc m)
  with q(1) show thesis by (rule that)
qed

lemma join_pairs_joined: "joined ps p \<Longrightarrow> \<exists>q. join_pairs qs p = Some q \<and> joined (ps @ qs) q"
proof (induction qs arbitrary: ps p)
  case (Cons x qs)
  obtain a b where x: "x = (a, b)" by (cases x)
  from joined_step [OF Cons.prems, of a b] obtain q where q: "uf_union a b (set_default b b (set_default a a p)) = Some q" "joined (ps @ [(a, b)]) q" by blast
  from Cons.IH [OF q(2)] q(1) show ?case by (simp add: x)
qed simp

lemma joined_empty: "joined [] []"
  by (simp add: joined_def complete_forest_def members_def)

lemma collect_members_spec:
  "(\<And>t. t \<in> set ts \<Longrightarrow> \<exists>r. rep p t r) \<Longrightarrow>
    \<exists>q m'. collect_members ts p m = Some (q, m') \<and> (\<forall>a z. rep q a z \<longleftrightarrow> rep p a z) \<and>
      (\<forall>r. map_of m' r = (let xs = filter (\<lambda>t. rep p t r) ts in if xs = [] then map_of m r else Some ((case map_of m r of Some ys \<Rightarrow> ys | None \<Rightarrow> []) @ xs)))"
proof (induction ts arbitrary: p m)
  case (Cons t ts)
  from Cons.prems obtain r where r: "rep p t r" by force
  then obtain q where q: "uf_find t p = Some (r, q)" "\<forall>a z. rep q a z \<longleftrightarrow> rep p a z" using uf_find_rep by blast
  let ?m = "AList.update r ((case map_of m r of Some xs \<Rightarrow> xs | None \<Rightarrow> []) @ [t]) m"
  have "\<exists>s. rep q u s" if "u \<in> set ts" for u using Cons.prems [of u] that q(2) by simp
  from Cons.IH [OF this, of ?m] obtain q' m' where i: "collect_members ts q ?m = Some (q', m')" "\<forall>a z. rep q' a z \<longleftrightarrow> rep q a z"
    "\<forall>s. map_of m' s = (let xs = filter (\<lambda>t. rep q t s) ts in if xs = [] then map_of ?m s else Some ((case map_of ?m s of Some ys \<Rightarrow> ys | None \<Rightarrow> []) @ xs))" by blast
  have own: "rep p t s \<longleftrightarrow> s = r" for s using r rep_unique by blast
  show ?case
    by (rule exI [of _ q'], rule exI [of _ m']) (use i q own in \<open>auto simp: update_conv' Let_def\<close>)
qed simp

lemma pick_clusters_spec:
  "(\<And>a b. (a, b) \<in> set ps \<Longrightarrow> (\<exists>r. rep p a r) \<and> (\<exists>r. rep p b r)) \<Longrightarrow> fst acc = map (\<lambda>r. the (map_of m r)) (snd acc) \<Longrightarrow> distinct (snd acc) \<Longrightarrow>
    \<exists>q seen. pick_clusters ps p m acc = Some (map (\<lambda>r. the (map_of m r)) seen, q) \<and> (\<forall>a z. rep q a z \<longleftrightarrow> rep p a z) \<and>
      distinct seen \<and> set seen = set (snd acc) \<union> {r. \<exists>a \<in> members ps. rep p a r}"
proof (induction ps arbitrary: p acc)
  case Nil
  then show ?case by (intro exI [of _ p] exI [of _ "snd acc"]) (simp add: members_def)
next
  case (Cons x ps)
  obtain a b where x: "x = (a, b)" by (cases x)
  from Cons.prems(1) [of a b] x obtain ra rb where r: "rep p a ra" "rep p b rb" by auto
  obtain p1 where p1: "uf_find a p = Some (ra, p1)" "\<forall>c z. rep p1 c z \<longleftrightarrow> rep p c z" using uf_find_rep [OF r(1)] by blast
  obtain p2 where p2: "uf_find b p1 = Some (rb, p2)" "\<forall>c z. rep p2 c z \<longleftrightarrow> rep p1 c z" using uf_find_rep [of p1 b rb] r(2) p1(2) by blast
  let ?acc = "note_root rb m (note_root ra m acc)"
  have a: "fst ?acc = map (\<lambda>r. the (map_of m r)) (snd ?acc)" "distinct (snd ?acc)" "set (snd ?acc) = set (snd acc) \<union> {ra, rb}"
    using Cons.prems(2,3) by (cases acc; auto simp: note_root_def)+
  have "(\<exists>r. rep p2 c r) \<and> (\<exists>r. rep p2 d r)" if "(c, d) \<in> set ps" for c d using Cons.prems(1) [of c d] that p1(2) p2(2) by simp
  from Cons.IH [OF this a(1,2)] obtain q seen where i: "pick_clusters ps p2 m ?acc = Some (map (\<lambda>r. the (map_of m r)) seen, q)"
    "\<forall>c z. rep q c z \<longleftrightarrow> rep p2 c z" "distinct seen" "set seen = set (snd ?acc) \<union> {r. \<exists>c \<in> members ps. rep p2 c r}" by blast
  have "{r. \<exists>c \<in> members (x # ps). rep p c r} = {ra, rb} \<union> {r. \<exists>c \<in> members ps. rep p c r}"
    using r rep_unique by (auto simp: members_def x)
  then show ?case using i p1 p2 a(3) x by (intro exI [of _ q] exI [of _ seen]) auto
qed

definition component :: "pairs \<Rightarrow> string \<Rightarrow> string set" where
  "component ps a = {b. (a, b) \<in> linked ps}"

definition clusters_of :: "pairs \<Rightarrow> pairs \<Rightarrow> string list list \<Rightarrow> bool" where
  \<comment> \<open>each component met by the zone's pairs, once, each as a list without repetition\<close>
  "clusters_of every ps cs \<longleftrightarrow> set ` set cs = component every ` members ps \<and> distinct (map set cs) \<and> (\<forall>c \<in> set cs. distinct c \<and> c \<noteq> [])"

definition zone_roots :: "parents \<Rightarrow> (string, string list) dict \<Rightarrow> string \<times> pairs \<Rightarrow> string \<times> string list list \<Rightarrow> bool" where
  "zone_roots p m g out \<longleftrightarrow> fst out = fst g \<and>
     (\<exists>seen. snd out = map (\<lambda>r. the (map_of m r)) seen \<and> distinct seen \<and> set seen = {r. \<exists>a \<in> members (snd g). rep p a r})"

lemma pick_all_spec:
  assumes "\<And>a z. rep p0 a z \<longleftrightarrow> rep p a z" "\<And>z ps a. (z, ps) \<in> set gs \<Longrightarrow> a \<in> members ps \<Longrightarrow> \<exists>r. rep p a r"
  shows "\<exists>out. pick_all gs p0 m = Some out \<and> list_all2 (zone_roots p m) gs out"
  using assms
proof (induction gs arbitrary: p0)
  case (Cons g gs)
  obtain z ps where g: "g = (z, ps)" by (cases g)
  have t: "(\<exists>r. rep p0 a r) \<and> (\<exists>r. rep p0 b r)" if "(a, b) \<in> set ps" for a b
  proof -
    have "a \<in> members ps" "b \<in> members ps" using that by (force simp: members_def)+
    then show ?thesis using Cons.prems(1) Cons.prems(2) [of z ps] g by simp
  qed
  obtain q seen where q: "pick_clusters ps p0 m ([], []) = Some (map (\<lambda>r. the (map_of m r)) seen, q)" "\<forall>a z. rep q a z \<longleftrightarrow> rep p0 a z"
    "distinct seen" "set seen = {r. \<exists>a \<in> members ps. rep p0 a r}"
    using pick_clusters_spec [of ps p0 "([], [])" m, OF t] by auto
  have "rep q a z \<longleftrightarrow> rep p a z" for a z by (simp add: q(2) Cons.prems(1))
  moreover have "\<exists>r. rep p a r" if "(z, ps) \<in> set gs" "a \<in> members ps" for z ps a using Cons.prems(2) that by (meson list.set_intros(2))
  ultimately obtain out where "pick_all gs q m = Some out" "list_all2 (zone_roots p m) gs out" using Cons.IH [of q] by blast
  moreover have "zone_roots p m g (z, map (\<lambda>r. the (map_of m r)) seen)" using q(3,4) Cons.prems(1) by (auto simp: zone_roots_def g)
  ultimately show ?case using q(1) by (simp add: g)
qed simp

definition collected :: "parents \<Rightarrow> (string, string list) dict \<Rightarrow> bool" where
  \<comment> \<open>under each root its members, in the order of the forest's keys\<close>
  "collected p m \<longleftrightarrow> (\<forall>r. map_of m r = (let xs = filter (\<lambda>t. rep p t r) (dict_keys p) in
      if xs = [] then map_of [] r else Some ((case map_of [] r of Some ys \<Rightarrow> ys | None \<Rightarrow> []) @ xs)))"

lemma root_component:
  assumes "joined every p" "collected p m" "a \<in> members every" "rep p a r"
  shows "set (the (map_of m r)) = component every a \<and> distinct (the (map_of m r)) \<and> the (map_of m r) \<noteq> []"
proof -
  have keys: "set (dict_keys p) = members every" "distinct (dict_keys p)"
    using assms(1) unfolding joined_def complete_forest_def by blast+
  have ne: "filter (\<lambda>t. rep p t r) (dict_keys p) \<noteq> []" using assms(3,4) keys(1) by (auto simp: filter_empty_conv)
  then have m: "the (map_of m r) = filter (\<lambda>t. rep p t r) (dict_keys p)" using assms(2) by (auto simp: collected_def Let_def)
  have "b \<in> members every \<and> rep p b r \<longleftrightarrow> (a, b) \<in> linked every" for b
  proof (cases "b \<in> members every")
    case True
    then have "(a, b) \<in> linked every \<longleftrightarrow> (a, b) \<in> partners p" using assms(1,3) by (simp add: joined_def)
    also have "\<dots> \<longleftrightarrow> rep p b r" using assms(4) by (auto simp: partners_def dest: rep_unique)
    finally show ?thesis using True by simp
  qed (use linked_members [of a b every] assms(3) in blast)
  then show ?thesis using keys ne by (auto simp: m component_def)
qed

lemma zone_clusters:
  assumes "joined every p" "collected p m" "members ps \<subseteq> members every" "distinct seen" "set seen = {r. \<exists>a \<in> members ps. rep p a r}"
  shows "clusters_of every ps (map (\<lambda>r. the (map_of m r)) seen)"
proof -
  note comp = root_component [OF assms(1,2)]
  have from_root: "\<exists>a. a \<in> members ps \<and> a \<in> members every \<and> rep p a r" if "r \<in> set seen" for r using that assms(3,5) by auto
  have to_root: "\<exists>r. r \<in> set seen \<and> rep p a r" if "a \<in> members ps" for a
    using that assms(1,3,5) unfolding joined_def complete_forest_def by blast
  have "set ` set (map (\<lambda>r. the (map_of m r)) seen) = component every ` members ps" (is "?l = ?r")
  proof
    show "?l \<subseteq> ?r" using from_root comp by fastforce
    show "?r \<subseteq> ?l" using to_root comp assms(3) by fastforce
  qed
  moreover have "inj_on (set \<circ> (\<lambda>r. the (map_of m r))) (set seen)"
  proof (rule inj_onI)
    fix r s assume rs: "r \<in> set seen" "s \<in> set seen" "(set \<circ> (\<lambda>r. the (map_of m r))) r = (set \<circ> (\<lambda>r. the (map_of m r))) s"
    obtain a b where ab: "a \<in> members every" "rep p a r" "b \<in> members every" "rep p b s" using from_root rs(1,2) by meson
    then have "component every a = component every b" using comp [OF ab(1,2)] comp [OF ab(3,4)] rs(3) by simp
    moreover have "b \<in> component every b" by (simp add: component_def)
    ultimately have "b \<in> component every a" by simp
    then have "(a, b) \<in> partners p" using assms(1) ab by (simp add: joined_def component_def)
    then show "r = s" using partners_iff [OF ab(2,4)] by simp
  qed
  then have "distinct (map set (map (\<lambda>r. the (map_of m r)) seen))" using assms(4) by (simp add: distinct_map comp_def)
  moreover have "distinct c \<and> c \<noteq> []" if c: "c \<in> set (map (\<lambda>r. the (map_of m r)) seen)" for c
  proof -
    obtain r where r: "r \<in> set seen" "c = the (map_of m r)" using c by auto
    obtain a where "a \<in> members every" "rep p a r" using from_root [OF r(1)] by blast
    from comp [OF this] show ?thesis by (simp add: r(2))
  qed
  ultimately show ?thesis unfolding clusters_of_def by blast
qed

lemma clusters_spec:
  "\<exists>clusters. find_clusters_by_zone gathered = Some clusters \<and>
     list_all2 (\<lambda>(z, ps) (z', cs). z' = z \<and> clusters_of (concat (map snd gathered)) ps cs) gathered clusters"
proof -
  let ?all = "concat (map snd gathered)"
  obtain p where p: "join_pairs ?all [] = Some p" "joined ?all p" using join_pairs_joined [OF joined_empty, of ?all] by auto
  have keys: "set (dict_keys p) = members ?all" "\<And>a. a \<in> members ?all \<Longrightarrow> \<exists>r. rep p a r"
    using p(2) unfolding joined_def complete_forest_def by blast+
  obtain q m where q: "collect_members (dict_keys p) p [] = Some (q, m)" "\<forall>a z. rep q a z \<longleftrightarrow> rep p a z" "collected p m"
    using collect_members_spec [of "dict_keys p" p "[]"] keys unfolding collected_def by blast
  have sub: "members ps \<subseteq> members ?all" if "(z, ps) \<in> set gathered" for z ps using that by (force simp: members_def)
  obtain out where out: "pick_all gathered q m = Some out" "list_all2 (zone_roots p m) gathered out"
    using pick_all_spec [of q p gathered m] q(2) keys(2) sub by blast
  have "list_all2 (\<lambda>(z, ps) (z', cs). z' = z \<and> clusters_of ?all ps cs) gathered out"
  proof (rule list.rel_mono_strong [OF out(2)])
    fix g o' assume "g \<in> set gathered" "o' \<in> set out" "zone_roots p m g o'"
    then show "(\<lambda>(z, ps) (z', cs). z' = z \<and> clusters_of ?all ps cs) g o'"
      using zone_clusters [OF p(2) q(3)] sub [of "fst g" "snd g"] by (cases g; cases o') (auto simp: zone_roots_def)
  qed
  then show ?thesis by (simp add: find_clusters_by_zone_def p(1) q(1) out(1))
qed

text \<open>
  C30. A gathering is a connected group. Whatever pairs of people were found close together in whatever zones, the union-find terminates without
  an error, and the clusters it gives for a zone are the connected components of the graph of all pairs that contain somebody of that
  zone's pairs: each of them once, none empty, nobody twice in one cluster.
\<close>

theorem clusters_exact:
  "\<exists>clusters. find_clusters_by_zone gathered = Some clusters \<and>
     list_all2 (\<lambda>(z, ps) (z', cs). z' = z \<and> clusters_of (concat (map snd gathered)) ps cs) gathered clusters"
  by (rule clusters_spec)

subsection \<open>When a gathering is reported\<close>

lemma report_clusters_cooling:
  "fc_ts ctx < zs_cooldown_until st \<Longrightarrow> report_clusters cfg ctx z by_id cs st reported =
    ([], if cs = [] then st else st\<lparr>zs_since := Some (fc_ts ctx), zs_last_seen := fc_ts ctx\<rparr>, reported \<union> \<Union> (set ` set cs))"
  by (induction cs arbitrary: st reported) (auto simp: Let_def)

lemma report_clusters_spec:
  assumes "0 < gc_cooldown cfg" "\<not> fc_ts ctx < zs_cooldown_until st" "cs \<noteq> []"
  shows "\<exists>st'. report_clusters cfg ctx z by_id cs st reported =
      ([gathered_event ctx z (hd cs) by_id (the (zs_since st))], st', reported \<union> \<Union> (set ` set cs)) \<and> zs_cooldown_until st' = fc_ts ctx + gc_cooldown cfg"
proof (cases cs)
  case (Cons c ds)
  let ?st = "st\<lparr>zs_since := Some (fc_ts ctx), zs_last_seen := fc_ts ctx, zs_cooldown_until := fc_ts ctx + gc_cooldown cfg\<rparr>"
  have "fc_ts ctx < zs_cooldown_until ?st" using assms(1) by simp
  from report_clusters_cooling [OF this, of cfg z by_id ds "reported \<union> set c"] show ?thesis
    using assms(2) by (auto simp: Cons Let_def Un_assoc)
qed (use assms(3) in simp)

lemma reported_not_active: "set c \<subseteq> reported \<Longrightarrow> c \<noteq> [] \<Longrightarrow> c \<notin> set (active_clusters cfg reported cs)"
  by (auto simp: active_clusters_def mostly_reported_def filter_id_conv subset_iff)

definition zone_state_of :: "string \<Rightarrow> gathering \<Rightarrow> zone_state" where
  "zone_state_of k s = (case map_of (ga_zones s) k of Some st \<Rightarrow> st | None \<Rightarrow> zone_state_init)"

definition zone_active :: "gather_cfg \<Rightarrow> (string, string list list) dict \<Rightarrow> zone \<Rightarrow> gathering \<Rightarrow> string list list" where
  "zone_active cfg clusters z s = active_clusters cfg (ga_reported s) (case map_of clusters (z_key z) of Some cs \<Rightarrow> cs | None \<Rightarrow> [])"

lemma second_group_never_reported:
  \<comment> \<open>two groups stand in one zone long enough: one event is raised, for the first; the people of the second are marked as reported, and no
     group made of such people is ever active again\<close>
  assumes "zone_active cfg clusters z s = c1 # c2 # cs" "0 < gc_cooldown cfg"
    and "zs_since (zone_state_of (z_key z) s) = Some since" "gc_duration cfg \<le> fc_ts ctx - since" "zs_cooldown_until (zone_state_of (z_key z) s) \<le> fc_ts ctx"
    and "gather_zone cfg ctx by_id clusters z s = (es, s')" "set c \<subseteq> set c2" "c \<noteq> []" "ga_reported s' \<subseteq> reported"
  shows "es = [gathered_event ctx z c1 by_id since] \<and> c \<notin> set (active_clusters cfg reported any)"
proof -
  let ?st = "(zone_state_of (z_key z) s)\<lparr>zs_since := Some since, zs_last_seen := fc_ts ctx\<rparr>"
  have st: "the (map_of (set_default (z_key z) zone_state_init (ga_zones s)) (z_key z)) = zone_state_of (z_key z) s"
    by (simp add: map_of_set_default zone_state_of_def)
  have "\<not> fc_ts ctx < zs_cooldown_until ?st" using assms(5) by simp
  from report_clusters_spec [OF assms(2) this, of "c1 # c2 # cs" z by_id "ga_reported s"]
  obtain st' where "report_clusters cfg ctx z by_id (c1 # c2 # cs) ?st (ga_reported s) =
      ([gathered_event ctx z c1 by_id since], st', ga_reported s \<union> \<Union> (set ` set (c1 # c2 # cs)))" by auto
  then have "es = [gathered_event ctx z c1 by_id since]" "ga_reported s' = ga_reported s \<union> \<Union> (set ` set (c1 # c2 # cs))"
    using assms(6) assms(1,3,4) by (auto simp: gather_zone_def Let_def st zone_active_def)
  then show ?thesis using assms(7-9) by (intro conjI reported_not_active) auto
qed



definition of_zone :: "string \<Rightarrow> event list \<Rightarrow> event list" where
  "of_zone k = filter (\<lambda>e. z_key (ev_zone e) = k)"

lemma of_zone_simps [simp]:
  "of_zone k [] = []"
  "of_zone k (xs @ ys) = of_zone k xs @ of_zone k ys"
  "of_zone k (e # es) = (if z_key (ev_zone e) = k then e # of_zone k es else of_zone k es)"
  by (simp_all add: of_zone_def)


lemma gathered_event_simps [simp]: "ev_zone (gathered_event ctx z c by_id since) = z" "ev_started (gathered_event ctx z c by_id since) = fc_ts ctx"
  by (simp_all add: gathered_event_def Let_def)











end
