(* ===== verification/Activity_Engine.thy ===== *)
theory Activity_Engine
  imports Activity_Rules Tracking
begin

text \<open>
  The activity engine and the pipeline that feeds it, \<open>services/analytics/analytics/activities/engine.py\<close> and
  \<open>activity_pipeline.py\<close>: building a camera's activities from its configuration, running them on a frame, and the way of a frame from
  the detector through the tracker to the activities. SHA-256 of the canonical configuration (\<open>digest\<close>), \<open>cv2.clipLine\<close>, local time
  and what the detector finds are parameters. The text of the last error and the log lines are left out.
\<close>

subsection \<open>The registry\<close>

definition idle_worker_def :: activity_def where
  "idle_worker_def = \<lparr>df_key = ''idle_worker'', df_available = False, df_zone_rule = Zone_required, df_domains = [], df_params = []\<rparr>"

definition no_person_area_def :: activity_def where
  "no_person_area_def = \<lparr>df_key = ''no_person_area'', df_available = False, df_zone_rule = Zone_required, df_domains = [], df_params = []\<rparr>"

definition car_detection_def :: activity_def where
  "car_detection_def = \<lparr>df_key = ''car_detection'', df_available = False, df_zone_rule = Zone_required, df_domains = [], df_params = []\<rparr>"

datatype activity_class =
    Restricted_zone_entry
  | People_gathering
  | Stray_parking
  | Entry_exit
  | No_person_area
  | Car_detection
  | Idle_worker

definition definition_of :: "activity_class \<Rightarrow> activity_def" where
  "definition_of c =
     (case c of
        Restricted_zone_entry \<Rightarrow> restricted_zone_entry_def
      | People_gathering \<Rightarrow> people_gathering_def
      | Stray_parking \<Rightarrow> stray_parking_def
      | Entry_exit \<Rightarrow> entry_exit_def
      | No_person_area \<Rightarrow> no_person_area_def
      | Car_detection \<Rightarrow> car_detection_def
      | Idle_worker \<Rightarrow> idle_worker_def)"

definition activity_classes :: "(string, activity_class) dict" where
  "activity_classes = map (\<lambda>c. (df_key (definition_of c), c))
     [Restricted_zone_entry, People_gathering, Stray_parking, Entry_exit, No_person_area, Car_detection, Idle_worker]"

subsection \<open>One activity of one camera\<close>

datatype running =                      \<comment> \<open>the fields of an instance: what it read of its settings, and its memory\<close>
    Parking parking_cfg parking
  | Entering entry_cfg entries
  | Gathering gather_cfg gathering
  | Passing "zone list" gateway
  | On_hold

definition hashable :: "json \<Rightarrow> bool" where
  "hashable v \<longleftrightarrow> (case v of JArr _ \<Rightarrow> False | JObj _ \<Rightarrow> False | _ \<Rightarrow> True)"

definition construct :: "activity_class \<Rightarrow> activity_spec \<Rightarrow> crash + running" where
  \<comment> \<open>the class's \<open>__init__\<close>\<close>
  "construct c sp =
     (let need = (\<lambda>x. case x of Some r \<Rightarrow> Inr r | None \<Rightarrow> Inl Key_error)
      in case c of
           Stray_parking \<Rightarrow> need (map_option (\<lambda>cfg. Parking cfg parking_init) (parking_of_spec sp))
         | Restricted_zone_entry \<Rightarrow> need (map_option (\<lambda>cfg. Entering cfg entries_init) (entry_of_spec sp))
         | People_gathering \<Rightarrow> need (map_option (\<lambda>cfg. Gathering cfg gathering_init) (gather_of_spec sp))
         | Entry_exit \<Rightarrow>
             if list_all (hashable \<circ> z_direction) (sp_zones sp) then Inr (Passing (gateway_wires (sp_zones sp)) gateway_init)
             else Inl Type_error
         | _ \<Rightarrow> Inr On_hold)"

record activity =
  ac_class :: activity_class
  ac_spec :: activity_spec
  ac_running :: running

definition watched :: "activity \<Rightarrow> zone list" where
  \<comment> \<open>the property \<open>zones\<close>\<close>
  "watched a = (case ac_running a of Passing wires _ \<Rightarrow> wires | _ \<Rightarrow> sp_zones (ac_spec a))"

definition runnable :: "activity \<Rightarrow> bool" where
  "runnable a \<longleftrightarrow> df_available (definition_of (ac_class a)) \<and> watched a \<noteq> []"

definition evaluate_running :: "clip_line \<Rightarrow> frame_ctx \<Rightarrow> running \<Rightarrow> (event list \<times> running) option" where
  \<comment> \<open>\<^term>\<open>None\<close>: the activity raised, before it had changed anything\<close>
  "evaluate_running clip ctx r =
     (case r of
        Parking cfg s \<Rightarrow> Some (let (es, s') = parking_evaluate cfg ctx s in (es, Parking cfg s'))
      | Entering cfg s \<Rightarrow> Some (let (es, s') = entry_evaluate cfg ctx s in (es, Entering cfg s'))
      | Gathering cfg s \<Rightarrow> map_option (\<lambda>(es, s'). (es, Gathering cfg s')) (gathering_evaluate cfg ctx s)
      | Passing wires s \<Rightarrow> Some (let (es, s') = gateway_evaluate clip wires ctx s in (es, Passing wires s'))
      | On_hold \<Rightarrow> None)"

definition process_activity :: "clip_line \<Rightarrow> local_time \<Rightarrow> frame_ctx \<Rightarrow> activity \<Rightarrow> (event list \<times> activity) option" where
  "process_activity clip local ctx a =
     (if \<not> schedule_active local (sp_schedule (ac_spec a)) (fc_ts ctx) then Some ([], a)
      else map_option (\<lambda>(es, r). (es, a\<lparr>ac_running := r\<rparr>)) (evaluate_running clip ctx (ac_running a)))"

definition forget_running :: "string set \<Rightarrow> running \<Rightarrow> running" where
  "forget_running ids r =
     (case r of
        Parking cfg s \<Rightarrow> Parking cfg (parking_forget ids s)
      | Entering cfg s \<Rightarrow> Entering cfg (entry_forget ids s)
      | Gathering cfg s \<Rightarrow> Gathering cfg (gathering_forget ids s)
      | Passing wires s \<Rightarrow> Passing wires (gateway_forget ids s)
      | On_hold \<Rightarrow> On_hold)"

definition reset_running :: "running \<Rightarrow> running" where
  "reset_running r =
     (case r of
        Parking cfg s \<Rightarrow> Parking cfg parking_init
      | Entering cfg s \<Rightarrow> Entering cfg entries_init
      | Gathering cfg s \<Rightarrow> Gathering cfg gathering_init
      | Passing wires s \<Rightarrow> Passing wires gateway_init
      | On_hold \<Rightarrow> On_hold)"

subsection \<open>The engine\<close>

record camera_activities =
  cm_fingerprint :: string
  cm_activities :: "activity list"
  cm_unknown :: "json list"

record activity_engine =
  ae_cameras :: "(string, camera_activities) dict"
  ae_observed :: int
  ae_emitted :: int
  ae_errors :: int

definition engine_init :: activity_engine where
  "engine_init = \<lparr>ae_cameras = [], ae_observed = 0, ae_emitted = 0, ae_errors = 0\<rparr>"

definition json_or :: "json \<Rightarrow> json \<Rightarrow> json" where
  "json_or v d = (if json_truthy v then v else d)"

definition config_fingerprint :: "(json \<Rightarrow> string) \<Rightarrow> (string, json) dict \<Rightarrow> string" where
  "config_fingerprint digest cfg =
     digest (JObj [(''regions'', json_or (json_get ''regions'' cfg) (JObj [])), (''activities'', json_or (json_get ''activities'' cfg) (JArr []))])"

fun build_activities :: "json list \<Rightarrow> (string, json) dict \<Rightarrow> crash + activity list \<times> json list" where
  "build_activities [] regions = Inr ([], [])"
| "build_activities (entry # rest) regions =
     (case entry of
        JObj kvs \<Rightarrow>
          let kind = json_get ''type'' kvs
          in if \<not> json_truthy kind then build_activities rest regions
             else if \<not> hashable kind then Inl Type_error
             else (case (case kind of JStr t \<Rightarrow> map_of activity_classes t | _ \<Rightarrow> None) of
                     None \<Rightarrow> (case build_activities rest regions of Inl e \<Rightarrow> Inl e | Inr (as, us) \<Rightarrow> Inr (as, kind # us))
                   | Some c \<Rightarrow>
                       (case build_spec (definition_of c) kvs regions of
                          Inl e \<Rightarrow> Inl e
                        | Inr sp \<Rightarrow>
                            (case construct c sp of
                               Inl e \<Rightarrow> Inl e
                             | Inr r \<Rightarrow>
                                 (case build_activities rest regions of
                                    Inl e \<Rightarrow> Inl e
                                  | Inr (as, us) \<Rightarrow> Inr (\<lparr>ac_class = c, ac_spec = sp, ac_running = r\<rparr> # as, us)))))
      | _ \<Rightarrow> build_activities rest regions)"

definition configure :: "(json \<Rightarrow> string) \<Rightarrow> string \<Rightarrow> json \<Rightarrow> activity_engine \<Rightarrow> crash + activity_engine" where
  \<comment> \<open>an exception leaves the engine as it was\<close>
  "configure digest camera config e =
     (let cfg = mapping_of config; fp = config_fingerprint digest cfg; regions = mapping_of (json_get ''regions'' cfg);
          known = (case map_of (ae_cameras e) camera of Some cm \<Rightarrow> cm_fingerprint cm = fp | None \<Rightarrow> False);
          raw = json_get ''activities'' cfg
      in if known then Inr e
         else case (if json_truthy raw then json_items raw else Some []) of
                None \<Rightarrow> Inl Type_error
              | Some entries \<Rightarrow>
                  (case build_activities entries regions of
                     Inl err \<Rightarrow> Inl err
                   | Inr (as, us) \<Rightarrow>
                       Inr (e\<lparr>ae_cameras := AList.update camera \<lparr>cm_fingerprint = fp, cm_activities = as, cm_unknown = us\<rparr> (ae_cameras e)\<rparr>)))"

definition forget_camera :: "string \<Rightarrow> activity_engine \<Rightarrow> activity_engine" where
  "forget_camera camera e = e\<lparr>ae_cameras := AList.delete camera (ae_cameras e)\<rparr>"

definition map_running :: "(running \<Rightarrow> running) \<Rightarrow> camera_activities \<Rightarrow> camera_activities" where
  "map_running f cm = cm\<lparr>cm_activities := map (\<lambda>a. a\<lparr>ac_running := f (ac_running a)\<rparr>) (cm_activities cm)\<rparr>"

definition reset_camera :: "string \<Rightarrow> activity_engine \<Rightarrow> activity_engine" where
  "reset_camera camera e = e\<lparr>ae_cameras := map (\<lambda>(c, cm). (c, if c = camera then map_running reset_running cm else cm)) (ae_cameras e)\<rparr>"

definition forget_tracks :: "string list \<Rightarrow> activity_engine \<Rightarrow> activity_engine" where
  "forget_tracks ids e =
     (if ids = [] then e else e\<lparr>ae_cameras := map (\<lambda>(c, cm). (c, map_running (forget_running (set ids)) cm)) (ae_cameras e)\<rparr>)"

definition has_work :: "string \<Rightarrow> activity_engine \<Rightarrow> bool" where
  "has_work camera e \<longleftrightarrow> (case map_of (ae_cameras e) camera of Some cm \<Rightarrow> list_ex runnable (cm_activities cm) | None \<Rightarrow> False)"

definition wanted_domains :: "string \<Rightarrow> activity_engine \<Rightarrow> string list" where
  "wanted_domains camera e =
     (case map_of (ae_cameras e) camera of
        Some cm \<Rightarrow> concat (map (\<lambda>a. df_domains (definition_of (ac_class a))) (filter runnable (cm_activities cm)))
      | None \<Rightarrow> [])"

fun observe_all :: "clip_line \<Rightarrow> local_time \<Rightarrow> frame_ctx \<Rightarrow> activity list \<Rightarrow> event list \<times> int \<times> activity list" where
  \<comment> \<open>the events, the activities that raised, and the activities afterwards\<close>
  "observe_all clip local ctx [] = ([], 0, [])"
| "observe_all clip local ctx (a # as) =
     (let (fs, n, bs) = observe_all clip local ctx as
      in if \<not> runnable a then (fs, n, a # bs)
         else case process_activity clip local ctx a of
                None \<Rightarrow> (fs, n + 1, a # bs)
              | Some (es, b) \<Rightarrow> (es @ fs, n, b # bs))"

definition engine_observe :: "clip_line \<Rightarrow> local_time \<Rightarrow> frame_ctx \<Rightarrow> activity_engine \<Rightarrow> event list \<times> activity_engine" where
  "engine_observe clip local ctx e =
     (case map_of (ae_cameras e) (fc_camera ctx) of
        None \<Rightarrow> ([], e)
      | Some cm \<Rightarrow>
          if \<not> list_ex runnable (cm_activities cm) then ([], e)
          else let (es, n, bs) = observe_all clip local ctx (cm_activities cm)
               in (es, e\<lparr>ae_cameras := AList.update (fc_camera ctx) (cm\<lparr>cm_activities := bs\<rparr>) (ae_cameras e),
                         ae_observed := ae_observed e + 1, ae_errors := ae_errors e + n, ae_emitted := ae_emitted e + int (length es)\<rparr>))"

subsection \<open>The activity pipeline\<close>

record activity_pipeline =
  ap_tracker :: tracker
  ap_engine :: activity_engine
  ap_skipped_no_work :: int
  ap_detector_calls :: int
  ap_detections_seen :: int
  ap_detections_nested :: int
  ap_tracks_retired :: int

definition pipeline_start :: "string \<Rightarrow> activity_pipeline" where
  "pipeline_start nonce =
     \<lparr>ap_tracker = tracker_init nonce, ap_engine = engine_init, ap_skipped_no_work = 0, ap_detector_calls = 0, ap_detections_seen = 0,
      ap_detections_nested = 0, ap_tracks_retired = 0\<rparr>"

definition retire :: "activity_pipeline \<Rightarrow> activity_pipeline" where
  \<comment> \<open>\<open>self._retire(self._tracker.drain_expired())\<close>\<close>
  "retire s =
     (let (expired, t) = drain_expired (ap_tracker s)
      in if expired = [] then s\<lparr>ap_tracker := t\<rparr>
         else s\<lparr>ap_tracker := t, ap_tracks_retired := ap_tracks_retired s + int (length expired), ap_engine := forget_tracks expired (ap_engine s)\<rparr>)"

definition tracked_object :: "int \<Rightarrow> int \<Rightarrow> tracked \<Rightarrow> tobject" where
  "tracked_object w h td =
     (case d_xyxy (td_detection td) of (x1, y1, x2, y2) \<Rightarrow>
        \<lparr>o_track = Some (t_id (td_track td)), o_domain = d_domain (td_detection td), o_label = d_label (td_detection td),
         o_confidence = d_confidence (td_detection td),
         o_bbox = (of_int x1 / of_int w, of_int y1 / of_int h, of_int x2 / of_int w, of_int y2 / of_int h),
         o_confirmed = is_confirmed (td_track td)\<rparr>)"

definition frame_context :: "string \<Rightarrow> epoch \<Rightarrow> int \<times> int \<Rightarrow> tracked list \<Rightarrow> frame_ctx" where
  "frame_context slug ts wh out =
     \<lparr>fc_camera = slug, fc_ts = ts, fc_width = fst wh, fc_height = snd wh, fc_objects = map (tracked_object (fst wh) (snd wh)) out\<rparr>"

definition wanted_detections :: "string \<Rightarrow> detection list \<Rightarrow> activity_engine \<Rightarrow> detection list" where
  "wanted_detections slug ds e = filter (\<lambda>d. d_domain d \<in> set (wanted_domains slug e)) ds"

definition activity_frame :: "tracker_cfg \<Rightarrow> rat \<Rightarrow> clip_line \<Rightarrow> local_time \<Rightarrow> string \<Rightarrow> int \<times> int \<Rightarrow> epoch \<Rightarrow> detection list \<Rightarrow> activity_pipeline
    \<Rightarrow> event list \<times> activity_pipeline" where
  \<comment> \<open>\<open>process\<close>: the detections are what the detector finds in the frame\<close>
  "activity_frame cfg nested clip local slug wh ts ds s =
     (if \<not> has_work slug (ap_engine s) then ([], s\<lparr>ap_skipped_no_work := ap_skipped_no_work s + 1\<rparr>)
      else let found = wanted_detections slug ds (ap_engine s);
               kept = (if length found \<ge> 2 then suppress_nested nested found else found);
               (out, t) = tracker_update cfg slug kept ts (ap_tracker s);
               s1 = retire (s\<lparr>ap_tracker := t, ap_detector_calls := ap_detector_calls s + 1,
                              ap_detections_nested := ap_detections_nested s + int (length found - length kept),
                              ap_detections_seen := ap_detections_seen s + int (length kept)\<rparr>);
               (es, e) = engine_observe clip local (frame_context slug ts wh out) (ap_engine s1)
           in (es, s1\<lparr>ap_engine := e\<rparr>))"

definition pipeline_reset :: "string \<Rightarrow> activity_pipeline \<Rightarrow> activity_pipeline" where
  "pipeline_reset slug s =
     (let s1 = retire (s\<lparr>ap_tracker := tracker_reset slug (ap_tracker s)\<rparr>) in s1\<lparr>ap_engine := reset_camera slug (ap_engine s1)\<rparr>)"

definition pipeline_forget :: "string \<Rightarrow> activity_pipeline \<Rightarrow> activity_pipeline" where
  "pipeline_forget slug s = retire (s\<lparr>ap_tracker := tracker_forget slug (ap_tracker s)\<rparr>)"

subsection \<open>Whom an activity remembers\<close>

definition named :: "(string \<times> string, 'v) dict \<Rightarrow> string set" where
  \<comment> \<open>the track ids in the keys of a table\<close>
  "named d = snd ` dom (map_of d)"

lemma named_simps [simp]:
  "named [] = {}"
  "named (AList.update k v d) = insert (snd k) (named d)"
  "named (set_default k v d) = insert (snd k) (named d)"
  "named (filter (\<lambda>kv. snd (fst kv) \<notin> ids) d) = named d - ids"
proof -
  show "named (AList.update k v d) = insert (snd k) (named d)" by (auto simp: named_def update_conv' dom_def image_iff)
  have "dom (map_of (set_default k v d)) = insert k (dom (map_of d))" by (auto simp: map_of_set_default dom_def)
  then show "named (set_default k v d) = insert (snd k) (named d)" by (simp add: named_def)
  show "named (filter (\<lambda>kv. snd (fst kv) \<notin> ids) d) = named d - ids"
    by (auto simp: named_def map_of_filter_by_key [of "\<lambda>k. snd k \<notin> ids"] dom_def image_iff split: if_splits)
qed (simp add: named_def)


definition parked_tracks :: "parking \<Rightarrow> string set" where
  "parked_tracks s = named (pk_entered s) \<union> pk_reported s"

definition entered_tracks :: "entries \<Rightarrow> string set" where
  "entered_tracks s = snd ` en_inside s \<union> named (en_last s)"

definition passing_tracks :: "gateway \<Rightarrow> string set" where
  "passing_tracks s = named (gw_passages s) \<union> named (gw_pending s)"


definition remembered :: "running \<Rightarrow> string set" where
  "remembered r =
     (case r of
        Parking _ s \<Rightarrow> parked_tracks s
      | Entering _ s \<Rightarrow> entered_tracks s
      | Gathering _ s \<Rightarrow> ga_reported s
      | Passing _ s \<Rightarrow> passing_tracks s
      | On_hold \<Rightarrow> {})"













definition paired :: "(string, pairs) dict \<Rightarrow> string set" where
  "paired g = (\<Union>x \<in> set g. members (snd x))"

lemma paired_simps [simp]:
  "paired [] = {}"
  "paired (x # g) = members (snd x) \<union> paired g"
  "members [] = {}"
  "members (ps @ [p]) = insert (fst p) (insert (snd p) (members ps))"
  by (auto simp: paired_def members_def)















definition list_remembers :: "activity list \<Rightarrow> string set" where
  "list_remembers as = (\<Union>a \<in> set as. remembered (ac_running a))"

lemma list_remembers_simps [simp]:
  "list_remembers [] = {}"
  "list_remembers (a # as) = remembered (ac_running a) \<union> list_remembers as"
  by (simp_all add: list_remembers_def)






subsection \<open>An activity remembers only objects that are tracked\<close>






definition has_room :: "tracker_cfg \<Rightarrow> string \<Rightarrow> detection list \<Rightarrow> tracker \<Rightarrow> bool" where
  \<comment> \<open>no more objects than a camera may track, were all of them new\<close>
  "has_room cfg camera dets s \<longleftrightarrow>
     (\<forall>x \<in> set (group_by_domain dets). length (key_tracks (camera, fst x) s) + length (snd x) \<le> tc_max_tracks cfg)"





inductive pipeline_move :: "(json \<Rightarrow> string) \<Rightarrow> tracker_cfg \<Rightarrow> rat \<Rightarrow> clip_line \<Rightarrow> local_time \<Rightarrow> activity_pipeline \<Rightarrow> activity_pipeline \<Rightarrow> bool"
  for digest cfg nested clip local where
  Frame: "activity_frame cfg nested clip local slug wh ts ds s = (es, s') \<Longrightarrow>
    has_room cfg slug (let found = wanted_detections slug ds (ap_engine s) in if length found \<ge> 2 then suppress_nested nested found else found) (ap_tracker s) \<Longrightarrow>
    pipeline_move digest cfg nested clip local s s'"
| Interrupted: "pipeline_move digest cfg nested clip local s (pipeline_reset slug s)"
| Dropped: "pipeline_move digest cfg nested clip local s (pipeline_forget slug s)"
| Configured: "configure digest slug config (ap_engine s) = Inr e \<Longrightarrow> pipeline_move digest cfg nested clip local s (s\<lparr>ap_engine := e\<rparr>)"
| Removed: "pipeline_move digest cfg nested clip local s (s\<lparr>ap_engine := forget_camera slug (ap_engine s)\<rparr>)"









definition known_config :: "(json \<Rightarrow> string) \<Rightarrow> string \<Rightarrow> json \<Rightarrow> activity_engine \<Rightarrow> bool" where
  "known_config digest camera config e \<longleftrightarrow>
     (case map_of (ae_cameras e) camera of Some cm \<Rightarrow> cm_fingerprint cm = config_fingerprint digest (mapping_of config) | None \<Rightarrow> False)"

lemma configure_cases:
  assumes "configure digest camera config e = Inr e'"
  shows "known_config digest camera config e \<and> e' = e \<or> \<not> known_config digest camera config e \<and>
    (\<exists>entries as us. build_activities entries (mapping_of (json_get ''regions'' (mapping_of config))) = Inr (as, us) \<and>
       e' = e\<lparr>ae_cameras := AList.update camera \<lparr>cm_fingerprint = config_fingerprint digest (mapping_of config), cm_activities = as, cm_unknown = us\<rparr> (ae_cameras e)\<rparr>)"
proof (cases "known_config digest camera config e")
  case False
  define raw where "raw = json_get ''activities'' (mapping_of config)"
  note conf = assms [unfolded configure_def Let_def raw_def [symmetric]] False [unfolded known_config_def]
  obtain entries where e: "(if json_truthy raw then json_items raw else Some []) = Some entries"
    using conf by (cases "if json_truthy raw then json_items raw else Some []") auto
  obtain as us where "build_activities entries (mapping_of (json_get ''regions'' (mapping_of config))) = Inr (as, us)"
    using conf e by (cases "build_activities entries (mapping_of (json_get ''regions'' (mapping_of config)))")
      auto
  moreover from this have "e' = e\<lparr>ae_cameras := AList.update camera \<lparr>cm_fingerprint = config_fingerprint digest (mapping_of config), cm_activities = as, cm_unknown = us\<rparr> (ae_cameras e)\<rparr>"
    using conf e by auto
  ultimately show ?thesis using False by blast
qed (use assms in \<open>auto simp: configure_def Let_def known_config_def\<close>)




lemma track_of_object [simp]: "o_track (tracked_object w h td) = Some (t_id (td_track td))"
  by (cases "d_xyxy (td_detection td)") (simp add: tracked_object_def)







subsection \<open>Every camera's activities run as if they were alone\<close>

definition from_camera :: "string \<Rightarrow> event list \<Rightarrow> bool" where
  "from_camera c es \<longleftrightarrow> list_all (\<lambda>e. ev_camera e = c) es"

lemma from_camera_simps [simp]:
  "from_camera c []"
  "from_camera c (e # es) \<longleftrightarrow> ev_camera e = c \<and> from_camera c es"
  "from_camera c (es @ fs) \<longleftrightarrow> from_camera c es \<and> from_camera c fs"
  by (simp_all add: from_camera_def)

lemma event_cameras [simp]:
  "ev_camera (parked_event ctx z t o' since) = fc_camera ctx"
  "ev_camera (entered_event ecfg ctx z n t o') = fc_camera ctx"
  "ev_camera (gathered_event ctx z cl by_id since) = fc_camera ctx"
  "ev_camera (crossed_event ctx z t x) = fc_camera ctx"
  by (simp_all add: parked_event_def entered_event_def gathered_event_def crossed_event_def Let_def split: prod.splits)

lemma parking_camera: "from_camera (fc_camera ctx) (fst (parking_evaluate cfg ctx s))"
proof -
  have z: "from_camera (fc_camera ctx) (fst (park_zones d ctx o' t zs s))" for d o' t zs s
    by (induction zs arbitrary: s) (simp_all add: Let_def)
  have "from_camera (fc_camera ctx) (fst (park_objects cfg ctx os s))" for os
    by (induction os arbitrary: s) (simp_all add: park_object_def z split_beta split: option.splits)
  then show ?thesis by (simp add: parking_evaluate_def)
qed

lemma entry_camera: "from_camera (fc_camera ctx) (fst (entry_evaluate cfg ctx s))"
proof -
  have one: "from_camera (fc_camera ctx) (fst (enter_one cfg ctx z n o' s))" for z n o' s
    by (simp add: enter_one_def Let_def split: option.splits)
  have all: "from_camera (fc_camera ctx) (fst (enter_all cfg ctx z n os s))" for z n os s
    by (induction os arbitrary: s) (simp_all add: one Let_def split_beta)
  have "from_camera (fc_camera ctx) (fst (entry_zones cfg ctx people zs s))" for people zs
    by (induction zs arbitrary: s) (simp_all add: all Let_def split_beta)
  then show ?thesis by (simp add: entry_evaluate_def Let_def)
qed

lemma gathering_camera: "gathering_evaluate cfg ctx s = Some (es, s') \<Longrightarrow> from_camera (fc_camera ctx) es"
proof -
  have r: "from_camera (fc_camera ctx) (fst (report_clusters cfg ctx z by_id cs st reported))" for z by_id cs st reported
    by (induction cs arbitrary: st reported) (simp_all add: Let_def split_beta)
  have one: "from_camera (fc_camera ctx) (fst (gather_zone cfg ctx by_id clusters z s))" for by_id clusters z s
    by (simp add: r gather_zone_def Let_def split_beta)
  have all: "from_camera (fc_camera ctx) (fst (gather_zones cfg ctx by_id clusters zs s))" for by_id clusters zs
    by (induction zs arbitrary: s) (simp_all add: one Let_def split_beta)
  assume "gathering_evaluate cfg ctx s = Some (es, s')"
  then obtain by_id clusters where "gather_zones cfg ctx by_id clusters (gc_zones cfg) s = (es, s')"
    by (auto simp: gathering_evaluate_def Let_def split: option.splits)
  then show ?thesis using all [of by_id clusters "gc_zones cfg"] by simp
qed

lemma gateway_camera: "from_camera (fc_camera ctx) (fst (gateway_evaluate clip wires ctx s))"
proof -
  have one: "from_camera (fc_camera ctx) (fst (gateway_one clip ctx o' t wire s))" for o' t wire s
    by (simp add: gateway_one_def Let_def from_camera_def list_all_iff split_beta)
  have all: "from_camera (fc_camera ctx) (fst (gateway_all clip ctx o' t ws s))" for o' t ws s
    by (induction ws arbitrary: s) (simp_all add: one Let_def split_beta)
  have "from_camera (fc_camera ctx) (fst (gateway_objects clip ctx wires os s))" for os
    by (induction os arbitrary: s) (simp_all add: all Let_def split_beta split: option.splits)
  then show ?thesis by (simp add: gateway_evaluate_def)
qed

lemma process_camera:
  assumes "process_activity clip local ctx a = Some (es, b)"
  shows "from_camera (fc_camera ctx) es"
proof (cases "schedule_active local (sp_schedule (ac_spec a)) (fc_ts ctx)")
  case True
  then obtain r where "evaluate_running clip ctx (ac_running a) = Some (es, r)" using assms by (auto simp: process_activity_def)
  then show ?thesis using parking_camera entry_camera gathering_camera gateway_camera
    by (cases "ac_running a") (auto simp: evaluate_running_def split: prod.splits, (metis fst_conv)+)
qed (use assms in \<open>simp add: process_activity_def\<close>)

lemma observe_all_camera: "observe_all clip local ctx as = (es, n, bs) \<Longrightarrow> from_camera (fc_camera ctx) es"
proof (induction as arbitrary: es n bs)
  case (Cons a as)
  obtain fs m cs where 1: "observe_all clip local ctx as = (fs, m, cs)" by (cases "observe_all clip local ctx as") auto
  then show ?case using Cons process_camera by (auto split: if_splits option.splits)
qed simp

datatype engine_op =
    Observe frame_ctx
  | Reassert string json
  | Forget_ids "string list"
  | Reset_camera string
  | Remove_camera string

fun engine_do :: "(json \<Rightarrow> string) \<Rightarrow> clip_line \<Rightarrow> local_time \<Rightarrow> engine_op \<Rightarrow> activity_engine \<Rightarrow> event list \<times> activity_engine" where
  "engine_do digest clip local (Observe ctx) e = engine_observe clip local ctx e"
| "engine_do digest clip local (Reassert c config) e = ([], case configure digest c config e of Inr e' \<Rightarrow> e' | Inl _ \<Rightarrow> e)"
| "engine_do digest clip local (Forget_ids ids) e = ([], forget_tracks ids e)"
| "engine_do digest clip local (Reset_camera c) e = ([], reset_camera c e)"
| "engine_do digest clip local (Remove_camera c) e = ([], forget_camera c e)"

fun engine_run :: "(json \<Rightarrow> string) \<Rightarrow> clip_line \<Rightarrow> local_time \<Rightarrow> engine_op list \<Rightarrow> activity_engine \<Rightarrow> event list \<times> activity_engine" where
  "engine_run digest clip local [] e = ([], e)"
| "engine_run digest clip local (op # ops) e =
     (let (es, e1) = engine_do digest clip local op e; (fs, e2) = engine_run digest clip local ops e1 in (es @ fs, e2))"

fun alone_do :: "clip_line \<Rightarrow> local_time \<Rightarrow> string \<Rightarrow> engine_op \<Rightarrow> activity list \<Rightarrow> event list \<times> activity list" where
  \<comment> \<open>one camera's activities with nothing around them\<close>
  "alone_do clip local c (Observe ctx) as =
     (if fc_camera ctx = c then (case observe_all clip local ctx as of (es, _, bs) \<Rightarrow> (es, bs)) else ([], as))"
| "alone_do clip local c (Forget_ids ids) as = ([], map (\<lambda>a. a\<lparr>ac_running := forget_running (set ids) (ac_running a)\<rparr>) as)"
| "alone_do clip local c (Reset_camera d) as = ([], if d = c then map (\<lambda>a. a\<lparr>ac_running := reset_running (ac_running a)\<rparr>) as else as)"
| "alone_do clip local c _ as = ([], as)"

fun alone :: "clip_line \<Rightarrow> local_time \<Rightarrow> string \<Rightarrow> engine_op list \<Rightarrow> activity list \<Rightarrow> event list \<times> activity list" where
  "alone clip local c [] as = ([], as)"
| "alone clip local c (op # ops) as = (let (es, bs) = alone_do clip local c op as; (fs, cs) = alone clip local c ops bs in (es @ fs, cs))"

definition stays_configured :: "(json \<Rightarrow> string) \<Rightarrow> string \<Rightarrow> string \<Rightarrow> engine_op \<Rightarrow> bool" where
  "stays_configured digest c fp op \<longleftrightarrow>
     (case op of Reassert d config \<Rightarrow> d = c \<longrightarrow> config_fingerprint digest (mapping_of config) = fp | Remove_camera d \<Rightarrow> d \<noteq> c | _ \<Rightarrow> True)"

lemma map_of_map_value: "map_of (map (\<lambda>(k, v). (k, f k v)) d) c = map_option (f c) (map_of d c)"
  by (induction d) auto

lemma engine_do_own:
  assumes "map_of (ae_cameras e) c = Some cm" "stays_configured digest c (cm_fingerprint cm) op" "engine_do digest clip local op e = (es, e')"
  shows "\<exists>bs. alone_do clip local c op (cm_activities cm) = (filter (\<lambda>x. ev_camera x = c) es, bs) \<and>
    map_of (ae_cameras e') c = Some (cm\<lparr>cm_activities := bs\<rparr>)"
proof (cases op)
  case (Observe ctx)
  show ?thesis
  proof (cases "fc_camera ctx = c")
    case True
    obtain gs n bs where o: "observe_all clip local ctx (cm_activities cm) = (gs, n, bs)" by (cases "observe_all clip local ctx (cm_activities cm)") auto
    have own: "filter (\<lambda>x. ev_camera x = c) gs = gs" using observe_all_camera [OF o] True by (simp add: from_camera_def filter_id_conv list_all_iff)
    show ?thesis
    proof (cases "list_ex runnable (cm_activities cm)")
      case True
      then show ?thesis using assms(1,3) \<open>fc_camera ctx = c\<close> o own by (auto simp: Observe engine_observe_def update_conv')
    next
      case False
      have "observe_all clip local ctx as = ([], 0, as)" if "\<not> list_ex runnable as" for as using that by (induction as) auto
      then show ?thesis using False assms(1,3) \<open>fc_camera ctx = c\<close> by (auto simp: Observe engine_observe_def)
    qed
  next
    case False
    have "map_of (ae_cameras e') c = map_of (ae_cameras e) c \<and> from_camera (fc_camera ctx) es"
    proof (cases "\<exists>cm'. map_of (ae_cameras e) (fc_camera ctx) = Some cm' \<and> list_ex runnable (cm_activities cm')")
      case True
      then obtain cm' where cm': "map_of (ae_cameras e) (fc_camera ctx) = Some cm'" "list_ex runnable (cm_activities cm')" by blast
      obtain gs n bs where "observe_all clip local ctx (cm_activities cm') = (gs, n, bs)" by (cases "observe_all clip local ctx (cm_activities cm')") auto
      then show ?thesis using cm' assms(3) False observe_all_camera by (auto simp: Observe engine_observe_def update_conv')
    qed (use assms(3) in \<open>auto simp: Observe engine_observe_def split: option.splits if_splits\<close>)
    then show ?thesis using False assms(1) by (simp add: Observe from_camera_def list_all_iff filter_empty_conv)
  qed
next
  case (Reassert d config)
  have "map_of (ae_cameras e') c = Some cm"
  proof (cases "configure digest d config e")
    case (Inr e'')
    then show ?thesis using configure_cases [OF Inr] assms by (auto simp: Reassert stays_configured_def known_config_def update_conv')
  qed (use assms(1,3) in \<open>simp add: Reassert\<close>)
  then show ?thesis using assms(3) by (simp add: Reassert)
next
  case (Forget_ids ids)
  have "forget_running {} r = r" for r
    by (cases r) (simp_all add: forget_running_def parking_forget_def entry_forget_def gathering_forget_def gateway_forget_def)
  then show ?thesis using assms(1,3)
    by (auto simp: Forget_ids forget_tracks_def map_running_def map_of_map_value [where f = "\<lambda>_ cm. map_running (forget_running (set ids)) cm", unfolded map_running_def])
next
  case (Reset_camera d)
  have "map_of (ae_cameras (reset_camera d e)) c = Some (if c = d then map_running reset_running cm else cm)"
    using assms(1) map_of_map_value [of "\<lambda>k cm. if k = d then map_running reset_running cm else cm" "ae_cameras e" c] by (simp add: reset_camera_def)
  then show ?thesis using assms(3) by (auto simp: Reset_camera map_running_def)
next
  case (Remove_camera d)
  then show ?thesis using assms by (auto simp: forget_camera_def stays_configured_def delete_conv')
qed

text \<open>
  C33. Each camera's activities run as if they were alone. In any run of the engine, the events of a camera are exactly those its activities
  would raise if nothing else existed: what is configured, observed, reset or removed for other cameras has no influence, and asserting
  the same configuration again neither resets a memory nor loses an event, as long as the camera itself is not removed or reconfigured.
\<close>

theorem camera_runs_alone:
  assumes "map_of (ae_cameras e) c = Some cm" "list_all (stays_configured digest c (cm_fingerprint cm)) ops" "engine_run digest clip local ops e = (es, e')"
  shows "filter (\<lambda>x. ev_camera x = c) es = fst (alone clip local c ops (cm_activities cm)) \<and>
    map_of (ae_cameras e') c = Some (cm\<lparr>cm_activities := snd (alone clip local c ops (cm_activities cm))\<rparr>)"
  using assms
proof (induction ops arbitrary: e cm es)
  case (Cons op ops)
  obtain es1 e1 where 1: "engine_do digest clip local op e = (es1, e1)" by fastforce
  obtain es2 where 2: "engine_run digest clip local ops e1 = (es2, e')" "es = es1 @ es2" using Cons.prems(3) 1 by (auto split: prod.splits)
  obtain bs where b: "alone_do clip local c op (cm_activities cm) = (filter (\<lambda>x. ev_camera x = c) es1, bs)"
    "map_of (ae_cameras e1) c = Some (cm\<lparr>cm_activities := bs\<rparr>)" using engine_do_own [OF Cons.prems(1) _ 1] Cons.prems(2) by auto
  show ?case using Cons.IH [OF b(2) _ 2(1)] Cons.prems(2) b(1) by (simp add: 2(2) split_beta)
qed simp

subsection \<open>Witnesses\<close>

definition gate_config :: json where
  \<comment> \<open>one restricted zone, the whole frame, at all times\<close>
  "gate_config = JObj [(''activities'', JArr [JObj [(''type'', JStr ''restricted_zone_entry'')]])]"

definition gate_activities :: camera_activities where
  "gate_activities = \<lparr>cm_fingerprint = [], cm_activities = [\<lparr>ac_class = Restricted_zone_entry,
     ac_spec = \<lparr>sp_key = ''restricted_zone_entry'', sp_params = [(''cooldown_s'', JNum 60)], sp_zones = [full_frame],
                sp_schedule = \<lparr>sc_hours = None, sc_days = None\<rparr>, sp_defaulted = [''cooldown_s''], sp_problems = []\<rparr>,
     ac_running = Entering \<lparr>nc_cooldown = 60, nc_zones = [full_frame]\<rparr> entries_init\<rparr>], cm_unknown = []\<rparr>"

definition gate_engine :: activity_engine where
  "gate_engine = \<lparr>ae_cameras = [(''cam'', gate_activities)], ae_observed = 0, ae_emitted = 0, ae_errors = 0\<rparr>"


abbreviation monday :: local_time where
  "monday \<equiv> \<lambda>_. (0, 0, 0, 0)"


lemma stay_open: "schedule_active monday \<lparr>sc_hours = None, sc_days = None\<rparr> ts"
  by (simp add: schedule_active_def)

definition gate_ops :: "engine_op list" where
  "gate_ops = [Observe (person_at 1 (1 / 2)), Reassert ''cam'' gate_config, Remove_camera ''yard'', Observe (person_at 2 (1 / 2))]"

lemma gate_alone: "map ev_started (fst (alone (\<lambda>_ _ _. False) monday ''cam'' gate_ops (cm_activities gate_activities))) = [1, 1]"
  by (simp add: gate_ops_def gate_activities_def person_at_def demo_ctx_def demo_object_def runnable_def watched_def definition_of_def
      restricted_zone_entry_def_def process_activity_def stay_open evaluate_running_def entry_evaluate_def entries_init_def leave_zone_def
      center_def full_frame_def zone_contains_def enter_one_def entered_event_def List.map_filter_def Let_def)

theorem camera_runs_alone_witness:
  \<comment> \<open>two people enter once; asserting the configuration again between the frames does not let them enter again\<close>
  "map ev_started (filter (\<lambda>x. ev_camera x = ''cam'') (fst (engine_run (\<lambda>_. []) (\<lambda>_ _ _. False) monday gate_ops gate_engine))) = [1, 1]"
proof -
  have "map_of (ae_cameras gate_engine) ''cam'' = Some gate_activities" by (simp add: gate_engine_def)
  moreover have "list_all (stays_configured (\<lambda>_. []) ''cam'' (cm_fingerprint gate_activities)) gate_ops"
    by (simp add: gate_ops_def stays_configured_def config_fingerprint_def gate_activities_def)
  ultimately have "filter (\<lambda>x. ev_camera x = ''cam'') (fst (engine_run (\<lambda>_. []) (\<lambda>_ _ _. False) monday gate_ops gate_engine)) =
      fst (alone (\<lambda>_ _ _. False) monday ''cam'' gate_ops (cm_activities gate_activities))"
    using camera_runs_alone [of gate_engine "''cam''" gate_activities "\<lambda>_. []" gate_ops "\<lambda>_ _ _. False" monday] by (metis prod.collapse)
  then show ?thesis using gate_alone by simp
qed





subsection \<open>With identity switched off nothing is ever forgotten\<close>

lemma untracked_tables:
  "\<not> tc_enabled cfg \<Longrightarrow> tk_tracks s = [] \<Longrightarrow> tk_expired s = [] \<Longrightarrow> tracker_update cfg camera dets ts s = (out, s') \<Longrightarrow>
    tk_tracks s' = [] \<and> tk_expired s' = []"
  using untracked_spec [of camera dets ts s out s']
  by (auto simp: tracker_update_def age_out_tracks_def same_tables_def split: if_splits)

lemma retire_nobody: "tk_expired (ap_tracker s) = [] \<Longrightarrow> retire s = s"
  by (simp add: retire_def drain_expired_def)

lemma identity_off_never_retires:
  \<comment> \<open>no id ever expires, so \<open>forget_tracks\<close> is never called and every id of every frame stays in the memory of the activities\<close>
  assumes "rtranclp (pipeline_move digest cfg nested clip local) (pipeline_start nonce) s" "\<not> tc_enabled cfg"
  shows "ap_tracks_retired s = 0 \<and> tk_tracks (ap_tracker s) = [] \<and> tk_expired (ap_tracker s) = []"
  using assms(1)
proof (induction rule: rtranclp_induct)
  case (step s s')
  have r: "tk_tracks (tracker_reset c t) = []" "tk_expired (tracker_reset c t) = []" "tk_tracks (tracker_forget c t) = []" "tk_expired (tracker_forget c t) = []"
    if "tk_tracks t = []" "tk_expired t = []" for c t
    using that by (simp_all add: tracker_forget_def tracker_reset_def Let_def)
  from step.hyps(2) show ?case
  proof cases
    case (Frame slug wh ts ds es)
    show ?thesis
    proof (cases "has_work slug (ap_engine s)")
      case True
      define found where "found = wanted_detections slug ds (ap_engine s)"
      obtain out t where u: "tracker_update cfg slug (if length found \<ge> 2 then suppress_nested nested found else found) ts (ap_tracker s) = (out, t)" by fastforce
      have t: "tk_tracks t = [] \<and> tk_expired t = []" using untracked_tables [OF assms(2) _ _ u] step.IH by simp
      have "ap_tracker s' = t \<and> ap_tracks_retired s' = ap_tracks_retired s" using Frame(1) True t
        by (simp add: activity_frame_def Let_def found_def [symmetric] u retire_nobody split_beta) (auto simp: split_beta)
      then show ?thesis using t step.IH by simp
    qed (use Frame(1) step.IH in \<open>auto simp: activity_frame_def\<close>)
  qed (use step.IH r in \<open>auto simp: pipeline_reset_def pipeline_forget_def retire_nobody Let_def\<close>)
qed (simp add: pipeline_start_def tracker_init_def)

subsection \<open>What the engine reports is what the rules say\<close>

lemma alone_parking:
  \<comment> \<open>one stray-parking activity that is always on: its camera's frames, seen through the engine\<close>
  assumes "runnable a" "ac_running a = Parking cfg s" "\<And>ts. schedule_active local (sp_schedule (ac_spec a)) ts" "list_all (\<lambda>f. fc_camera f = c) fs"
  shows "alone clip local c (map Observe fs) [a] =
    (fst (parking_run cfg fs s), [a\<lparr>ac_running := Parking cfg (snd (parking_run cfg fs s))\<rparr>])"
  using assms
proof (induction fs arbitrary: a s)
  case (Cons f fs)
  obtain es s1 where 1: "parking_evaluate cfg f s = (es, s1)" by fastforce
  let ?b = "a\<lparr>ac_running := Parking cfg s1\<rparr>"
  have "watched ?b = watched a" using Cons.prems(2) by (simp add: watched_def)
  then have "runnable ?b" using Cons.prems(1) by (simp add: runnable_def)
  from Cons.IH [OF this, of s1] Cons.prems(3,4) have "alone clip local c (map Observe fs) [?b] =
      (fst (parking_run cfg fs s1), [?b\<lparr>ac_running := Parking cfg (snd (parking_run cfg fs s1))\<rparr>])" by simp
  then show ?case using Cons.prems 1 by (simp add: process_activity_def evaluate_running_def split_beta)
qed (metis alone.simps(1) fst_conv list.simps(8) parking_run.simps(1) snd_conv activity.surjective activity.update_convs(3))

end
