(* ===== verification/Frame_Ring.thy ===== *)
theory Frame_Ring
  imports Prelude "HOL-Library.Word"
begin

text \<open>
  The shared memory between the frame broker and its consumers (\<open>src/services/frames/broker/ring.py\<close>, the reader also vendored in
  \<open>src/services/analytics/analytics/frame_source.py\<close>).

  The mapping is its bytes: a control page of 16-byte entries (a 64-bit sequence word, then the time), then one frame per slot. First the
  sequential operations \<open>FrameRing.__init__\<close>, \<open>publish\<close> and \<open>FrameReader.read\<close>. Then one writer and one reader interleaved, where the bytes
  of a frame are stored and copied one at a time in any order and only a sequence word is one access (CPython's \<open>struct\<close> moves a native
  64-bit word at once). The memory is sequentially consistent: stores and loads take effect in program order, as on x86. Readers never
  write, so one reader stands for any number.

  \<open>pack_double\<close> is the encoding of a double, a parameter: no reader looks at the time in the ring.
\<close>

section \<open>Bytes\<close>

type_synonym byte = "8 word"
type_synonym memory = "byte list"

primrec nat_bytes :: "nat \<Rightarrow> nat \<Rightarrow> byte list" where
  \<comment> \<open>the low bytes of a number, little-endian\<close>
  "nat_bytes 0 n = []"
| "nat_bytes (Suc k) n = word_of_nat (n mod 256) # nat_bytes k (n div 256)"

fun bytes_nat :: "byte list \<Rightarrow> nat" where
  "bytes_nat [] = 0"
| "bytes_nat (b # bs) = unat b + 256 * bytes_nat bs"

lemma nat_bytes_length [simp]: "length (nat_bytes k n) = k"
  by (induction k arbitrary: n) auto

lemma unat_byte: "unat (word_of_nat (n mod 256) :: byte) = n mod 256"
  by (simp add: unat_of_nat)

lemma bytes_nat_bytes: "bytes_nat (nat_bytes k n) = n mod 256 ^ k"
  by (induction k arbitrary: n) (simp_all add: unat_byte mod_mult2_eq)

lemma bytes_nat_bytes8 [simp]: "n < 2 ^ 64 \<Longrightarrow> bytes_nat (nat_bytes 8 n) = n"
  by (simp add: bytes_nat_bytes)

definition put :: "nat \<Rightarrow> byte list \<Rightarrow> memory \<Rightarrow> memory" where
  "put a bs m = take a m @ bs @ drop (a + length bs) m"

definition peek :: "nat \<Rightarrow> nat \<Rightarrow> memory \<Rightarrow> byte list" where
  "peek a n m = take n (drop a m)"

lemma put_length [simp]: "a + length bs \<le> length m \<Longrightarrow> length (put a bs m) = length m"
  by (simp add: put_def)

lemma nth_put:
  "a + length bs \<le> length m \<Longrightarrow> x < length m \<Longrightarrow> put a bs m ! x = (if a \<le> x \<and> x < a + length bs then bs ! (x - a) else m ! x)"
  by (auto simp: put_def nth_append min_def)

lemma peek_length [simp]: "a + n \<le> length m \<Longrightarrow> length (peek a n m) = n"
  by (simp add: peek_def)

lemma nth_peek: "a + n \<le> length m \<Longrightarrow> x < n \<Longrightarrow> peek a n m ! x = m ! (a + x)"
  by (simp add: peek_def)

lemma peek_cong:
  "length m' = length m \<Longrightarrow> a + n \<le> length m \<Longrightarrow> (\<And>x. a \<le> x \<Longrightarrow> x < a + n \<Longrightarrow> m' ! x = m ! x) \<Longrightarrow> peek a n m' = peek a n m"
  by (rule nth_equalityI) (simp_all add: nth_peek)

lemma peek_put: "a + length bs \<le> length m \<Longrightarrow> n = length bs \<Longrightarrow> peek a n (put a bs m) = bs"
  by (rule nth_equalityI) (simp_all add: nth_peek nth_put)

lemma peek_put_apart:
  "b + length bs \<le> length m \<Longrightarrow> a + n \<le> length m \<Longrightarrow> a + n \<le> b \<or> b + length bs \<le> a \<Longrightarrow> peek a n (put b bs m) = peek a n m"
  by (rule peek_cong) (auto simp: nth_put)

lemma peek_update_apart:
  "a + n \<le> length m \<Longrightarrow> x < a \<or> a + n \<le> x \<Longrightarrow> peek a n (m[x := b]) = peek a n m"
  by (rule peek_cong) auto

section \<open>The ring\<close>

record frame =
  fr_height :: nat
  fr_width :: nat
  fr_bytes :: "byte list"

record ring =
  rg_path :: path
  rg_width :: nat
  rg_height :: nat
  rg_channels :: nat
  rg_slots :: nat
  rg_memory :: memory
  rg_seq :: nat
  rg_written :: nat
  rg_epoch :: int

datatype ring_error = WrongShape | StructError | WrongSize

definition ctrl_bytes :: nat where "ctrl_bytes = 4096"
definition ring_entry :: nat where "ring_entry = 16"

definition shm_path :: "path \<Rightarrow> string \<Rightarrow> path" where
  "shm_path shm_dir camera = path_join shm_dir (''vms_frames.'' @ camera)"

definition frame_bytes :: "ring \<Rightarrow> nat" where
  "frame_bytes r = rg_width r * rg_height r * rg_channels r"

definition ring_nbytes :: "ring \<Rightarrow> nat" where
  "ring_nbytes r = ctrl_bytes + rg_slots r * frame_bytes r"

definition entry_at :: "nat \<Rightarrow> nat" where
  "entry_at slot = slot * ring_entry"

definition base_at :: "ring \<Rightarrow> nat \<Rightarrow> nat" where
  "base_at r slot = ctrl_bytes + slot * frame_bytes r"

definition ring_init :: "path \<Rightarrow> string \<Rightarrow> nat \<Rightarrow> nat \<Rightarrow> nat \<Rightarrow> int \<Rightarrow> int \<Rightarrow> ring" where
  \<comment> \<open>a file truncated to length reads as zeros; \<open>time.time_ns()\<close> is the last argument\<close>
  "ring_init shm_dir camera width height channels slots time_ns =
     (let n = nat (max 2 slots); fb = width * height * channels
      in \<lparr>rg_path = shm_path shm_dir camera, rg_width = width, rg_height = height, rg_channels = channels, rg_slots = n,
          rg_memory = replicate (ctrl_bytes + n * fb) 0, rg_seq = 0, rg_written = 0, rg_epoch = time_ns\<rparr>)"

definition pack_into :: "nat \<Rightarrow> byte list \<Rightarrow> ring \<Rightarrow> ring option" where
  \<comment> \<open>\<open>struct.pack_into\<close>: the field has to lie in the buffer\<close>
  "pack_into a bs r = (if a + length bs \<le> length (rg_memory r) then Some (r\<lparr>rg_memory := put a bs (rg_memory r)\<rparr>) else None)"

definition pack_seq :: "nat \<Rightarrow> nat \<Rightarrow> ring \<Rightarrow> ring option" where
  \<comment> \<open>\<open>struct.pack_into("<Q", ...)\<close>: the number has to fit 64 bits\<close>
  "pack_seq slot n r = (if n < 2 ^ 64 then pack_into (entry_at slot) (nat_bytes 8 n) r else None)"

definition next_slot :: "ring \<Rightarrow> nat" where
  "next_slot r = Suc (rg_seq r) mod rg_slots r"

definition ring_publish :: "(rat \<Rightarrow> byte list) \<Rightarrow> ring \<Rightarrow> frame \<Rightarrow> rat \<Rightarrow> ring \<times> (ring_error + nat \<times> nat)" where
  \<comment> \<open>an exception leaves what was done before it\<close>
  "ring_publish pack_double r f ts =
     (if fr_height f \<noteq> rg_height r \<or> fr_width f \<noteq> rg_width r then (r, Inl WrongShape)
      else
        let seq = Suc (rg_seq r); slot = next_slot r; r1 = r\<lparr>rg_seq := seq\<rparr>
        in case pack_seq slot (2 * seq - 1) r1 of
             None \<Rightarrow> (r1, Inl StructError)
           | Some r2 \<Rightarrow>
               if length (fr_bytes f) \<noteq> frame_bytes r then (r2, Inl WrongSize)
               else
                 let r3 = r2\<lparr>rg_memory := put (base_at r slot) (fr_bytes f) (rg_memory r2)\<rparr>
                 in case pack_into (entry_at slot + 8) (pack_double ts) r3 of
                      None \<Rightarrow> (r3, Inl StructError)
                    | Some r4 \<Rightarrow>
                        (case pack_seq slot (2 * seq) r4 of
                           None \<Rightarrow> (r4, Inl StructError)
                         | Some r5 \<Rightarrow> (r5\<lparr>rg_written := rg_written r5 + frame_bytes r\<rparr>, Inr (seq, slot))))"

definition seq_word :: "ring \<Rightarrow> nat \<Rightarrow> nat" where
  "seq_word r slot = bytes_nat (peek (entry_at slot) 8 (rg_memory r))"

definition slot_bytes :: "ring \<Rightarrow> nat \<Rightarrow> byte list" where
  "slot_bytes r slot = peek (base_at r slot) (frame_bytes r) (rg_memory r)"

definition frame_read :: "ring \<Rightarrow> nat \<Rightarrow> nat \<Rightarrow> byte list option" where
  \<comment> \<open>\<open>read\<close> with nothing happening in between: the second look sees what the first saw\<close>
  "frame_read r slot expect_seq =
     (let before = seq_word r slot
      in if before mod 2 = 1 \<or> before div 2 \<noteq> expect_seq then None
         else let buf = slot_bytes r slot; after = seq_word r slot
              in if after \<noteq> before then None else Some buf)"

section \<open>The layout\<close>

definition ring_ok :: "ring \<Rightarrow> bool" where
  "ring_ok r \<longleftrightarrow> 2 \<le> rg_slots r \<and> rg_slots r \<le> 256 \<and> length (rg_memory r) = ring_nbytes r"

lemmas layout_defs = ring_nbytes_def base_at_def entry_at_def ctrl_bytes_def ring_entry_def

lemma ring_okD:
  assumes "ring_ok r"
  shows "0 < rg_slots r" "rg_slots r \<le> 256" "length (rg_memory r) = ring_nbytes r"
  using assms by (auto simp: ring_ok_def)

lemma next_slot_less: "ring_ok r \<Longrightarrow> next_slot r < rg_slots r"
  by (simp add: next_slot_def ring_ok_def)

lemma entry_in_page: "ring_ok r \<Longrightarrow> slot < rg_slots r \<Longrightarrow> entry_at slot + 16 \<le> ctrl_bytes"
  by (simp add: ring_ok_def layout_defs)

lemma page_in_memory: "ctrl_bytes \<le> ring_nbytes r"
  by (simp add: ring_nbytes_def)

lemma entries_apart: "i \<noteq> j \<Longrightarrow> entry_at i + 16 \<le> entry_at j \<or> entry_at j + 16 \<le> entry_at i"
  by (auto simp: layout_defs)

lemma base_after_page: "ctrl_bytes \<le> base_at r slot"
  by (simp add: base_at_def)

lemma slot_in_memory: "slot < rg_slots r \<Longrightarrow> base_at r slot + frame_bytes r \<le> ring_nbytes r"
proof -
  assume "slot < rg_slots r"
  then have "Suc slot * frame_bytes r \<le> rg_slots r * frame_bytes r" by (intro mult_right_mono) auto
  then show ?thesis by (simp add: layout_defs)
qed

lemma slots_apart:
  assumes "i \<noteq> j"
  shows "base_at r i + frame_bytes r \<le> base_at r j \<or> base_at r j + frame_bytes r \<le> base_at r i"
proof -
  have "Suc a * frame_bytes r \<le> b * frame_bytes r" if "a < b" for a b using that by (intro mult_right_mono) auto
  then show ?thesis using assms by (cases "i < j") (fastforce simp: base_at_def add.commute add.left_commute)+
qed

definition same_ring :: "ring \<Rightarrow> ring \<Rightarrow> bool" where
  \<comment> \<open>the same mapping, whatever its bytes and counters\<close>
  "same_ring r r' \<longleftrightarrow> rg_path r' = rg_path r \<and> rg_width r' = rg_width r \<and> rg_height r' = rg_height r \<and> rg_channels r' = rg_channels r \<and>
     rg_slots r' = rg_slots r \<and> rg_epoch r' = rg_epoch r \<and> length (rg_memory r') = length (rg_memory r)"

lemma same_ring_geometry:
  assumes "same_ring r r'"
  shows "frame_bytes r' = frame_bytes r" "ring_nbytes r' = ring_nbytes r" "base_at r' slot = base_at r slot" "rg_slots r' = rg_slots r"
    "ring_ok r' = ring_ok r"
  using assms by (simp_all add: same_ring_def frame_bytes_def ring_nbytes_def base_at_def ring_ok_def)

lemma pack_seq_eq:
  assumes "ring_ok r" "slot < rg_slots r" "n < 2 ^ 64"
  shows "pack_seq slot n r = Some (r\<lparr>rg_memory := put (entry_at slot) (nat_bytes 8 n) (rg_memory r)\<rparr>)"
  using entry_in_page [OF assms(1,2)] page_in_memory [of r] assms by (simp add: pack_seq_def pack_into_def ring_ok_def)

lemma pack_seq_effect:
  assumes "ring_ok r" "slot < rg_slots r" "pack_seq slot n r = Some r'"
  shows "same_ring r r'" "rg_seq r' = rg_seq r" "rg_written r' = rg_written r" "n < 2 ^ 64"
    "i < rg_slots r \<Longrightarrow> seq_word r' i = (if i = slot then n else seq_word r i)"
    "i < rg_slots r \<Longrightarrow> slot_bytes r' i = slot_bytes r i"
proof -
  let ?m = "put (entry_at slot) (nat_bytes 8 n) (rg_memory r)"
  have bound: "n < 2 ^ 64" and r': "r' = r\<lparr>rg_memory := ?m\<rparr>"
    using assms(3) by (auto simp: pack_seq_def pack_into_def split: if_splits)
  have len: "length (rg_memory r) = ring_nbytes r" using assms(1) by (simp add: ring_ok_def)
  note page = entry_in_page [OF assms(1)] and small = page_in_memory [of r]
  show same: "same_ring r r'" "rg_seq r' = rg_seq r" "rg_written r' = rg_written r" "n < 2 ^ 64"
    using page [OF assms(2)] small len bound by (simp_all add: r' same_ring_def)
  show "seq_word r' i = (if i = slot then n else seq_word r i)" if "i < rg_slots r"
    using page [OF assms(2)] page [OF that] small len bound entries_apart [of i slot]
    by (auto simp: r' seq_word_def peek_put peek_put_apart)
  show "slot_bytes r' i = slot_bytes r i" if "i < rg_slots r"
  proof -
    have "peek (base_at r i) (frame_bytes r) ?m = peek (base_at r i) (frame_bytes r) (rg_memory r)"
      using page [OF assms(2)] base_after_page [of r i] slot_in_memory [OF that] small len by (intro peek_put_apart) auto
    then show ?thesis by (simp add: slot_bytes_def same_ring_geometry [OF same(1)]) (simp add: r')
  qed
qed

lemma put_frame_effect:
  assumes "ring_ok r" "slot < rg_slots r" "length bs = frame_bytes r"
    and r': "r' = r\<lparr>rg_memory := put (base_at r slot) bs (rg_memory r)\<rparr>"
  shows "same_ring r r'" "rg_seq r' = rg_seq r" "rg_written r' = rg_written r"
    "i < rg_slots r \<Longrightarrow> seq_word r' i = seq_word r i"
    "i < rg_slots r \<Longrightarrow> slot_bytes r' i = (if i = slot then bs else slot_bytes r i)"
proof -
  have len: "length (rg_memory r) = ring_nbytes r" using assms(1) by (simp add: ring_ok_def)
  note slot = slot_in_memory [OF assms(2)]
  show same: "same_ring r r'" "rg_seq r' = rg_seq r" "rg_written r' = rg_written r"
    using slot len assms(3) by (simp_all add: r' same_ring_def)
  show "seq_word r' i = seq_word r i" if "i < rg_slots r"
    using entry_in_page [OF assms(1) that] base_after_page [of r slot] slot len assms(3) page_in_memory [of r]
    by (simp add: r' seq_word_def peek_put_apart)
  show "slot_bytes r' i = (if i = slot then bs else slot_bytes r i)" if "i < rg_slots r"
    using slot len assms(3) slot_in_memory [OF that] slots_apart [of i slot r]
    by (auto simp: slot_bytes_def same_ring_geometry [OF same(1)]) (auto simp: r' peek_put peek_put_apart)
qed

lemma stamp_effect:
  assumes "ring_ok r" "slot < rg_slots r" "length bs = 8" "pack_into (entry_at slot + 8) bs r = Some r'"
  shows "same_ring r r'" "rg_seq r' = rg_seq r" "rg_written r' = rg_written r"
    "i < rg_slots r \<Longrightarrow> seq_word r' i = seq_word r i" "i < rg_slots r \<Longrightarrow> slot_bytes r' i = slot_bytes r i"
proof -
  let ?m = "put (entry_at slot + 8) bs (rg_memory r)"
  have r': "r' = r\<lparr>rg_memory := ?m\<rparr>" using assms(4) by (auto simp: pack_into_def split: if_splits)
  have len: "length (rg_memory r) = ring_nbytes r" using assms(1) by (simp add: ring_ok_def)
  note page = entry_in_page [OF assms(1)] and small = page_in_memory [of r]
  show same: "same_ring r r'" "rg_seq r' = rg_seq r" "rg_written r' = rg_written r"
    using page [OF assms(2)] small len assms(3) by (simp_all add: r' same_ring_def)
  show "seq_word r' i = seq_word r i" if "i < rg_slots r"
  proof -
    have "peek (entry_at i) 8 ?m = peek (entry_at i) 8 (rg_memory r)"
      using page [OF assms(2)] page [OF that] small len assms(3) entries_apart [of i slot]
      by (intro peek_put_apart) (auto, (cases "i = slot"; auto))
    then show ?thesis by (simp add: r' seq_word_def)
  qed
  show "slot_bytes r' i = slot_bytes r i" if "i < rg_slots r"
    using page [OF assms(2)] base_after_page [of r i] slot_in_memory [OF that] small len assms(3)
    by (simp add: slot_bytes_def same_ring_geometry [OF same(1)]) (simp add: r' peek_put_apart)
qed

section \<open>Publishing and reading, one after the other\<close>

definition frame_fits :: "ring \<Rightarrow> frame \<Rightarrow> bool" where
  "frame_fits r f \<longleftrightarrow> fr_height f = rg_height r \<and> fr_width f = rg_width r \<and> length (fr_bytes f) = frame_bytes r"

lemma same_ring_fits: "same_ring r r' \<Longrightarrow> frame_fits r' f = frame_fits r f"
  by (auto simp: frame_fits_def frame_bytes_def same_ring_def)

lemma pack_seq_total: "ring_ok r \<Longrightarrow> slot < rg_slots r \<Longrightarrow> n < 2 ^ 64 \<Longrightarrow> \<exists>r'. pack_seq slot n r = Some r'"
  by (simp add: pack_seq_eq)

lemma stamp_total:
  "ring_ok r \<Longrightarrow> slot < rg_slots r \<Longrightarrow> length bs = 8 \<Longrightarrow> \<exists>r'. pack_into (entry_at slot + 8) bs r = Some r'"
  using entry_in_page [of r slot] page_in_memory [of r] by (simp add: pack_into_def ring_ok_def)

lemma same_ring_trans: "same_ring a b \<Longrightarrow> same_ring b c \<Longrightarrow> same_ring a c"
  by (simp add: same_ring_def)

lemma publish_effect:
  assumes ok: "ring_ok r" and fits: "frame_fits r f" and room: "2 * Suc (rg_seq r) < 2 ^ 64" and dbl: "\<And>t. length (pack_double t) = 8"
  obtains r' where "ring_publish pack_double r f ts = (r', Inr (Suc (rg_seq r), next_slot r))" "same_ring r r'" "rg_seq r' = Suc (rg_seq r)"
    "\<forall>i < rg_slots r. seq_word r' i = (if i = next_slot r then 2 * Suc (rg_seq r) else seq_word r i)"
    "\<forall>i < rg_slots r. slot_bytes r' i = (if i = next_slot r then fr_bytes f else slot_bytes r i)"
proof -
  let ?slot = "next_slot r" and ?r1 = "r\<lparr>rg_seq := Suc (rg_seq r)\<rparr>"
  have s: "?slot < rg_slots r" using next_slot_less [OF ok] .
  have one: "same_ring r ?r1" "rg_seq ?r1 = Suc (rg_seq r)" "\<And>i. seq_word ?r1 i = seq_word r i" "\<And>i. slot_bytes ?r1 i = slot_bytes r i"
    by (simp_all add: same_ring_def seq_word_def slot_bytes_def base_at_def frame_bytes_def)
  note ok1 = iffD2 [OF same_ring_geometry(5) [OF one(1)] ok]
  obtain r2 where p2: "pack_seq ?slot (2 * Suc (rg_seq r) - 1) ?r1 = Some r2"
    using pack_seq_total [OF ok1, of ?slot "2 * Suc (rg_seq r) - 1"] s room by auto
  note e2 = pack_seq_effect [OF ok1 _ p2, simplified, OF s]
  note same2 = same_ring_trans [OF one(1) e2(1)]
  note ok2 = iffD2 [OF same_ring_geometry(5) [OF same2] ok]
  define r3 where "r3 = r2\<lparr>rg_memory := put (base_at r ?slot) (fr_bytes f) (rg_memory r2)\<rparr>"
  have r3': "r3 = r2\<lparr>rg_memory := put (base_at r2 ?slot) (fr_bytes f) (rg_memory r2)\<rparr>"
    by (simp add: r3_def same_ring_geometry [OF same2])
  have s2: "?slot < rg_slots r2" "length (fr_bytes f) = frame_bytes r2"
    using s fits by (simp_all add: same_ring_geometry [OF same2] frame_fits_def)
  note e3 = put_frame_effect [OF ok2 s2 r3']
  note same3 = same_ring_trans [OF same2 e3(1)]
  note ok3 = iffD2 [OF same_ring_geometry(5) [OF same3] ok]
  have s3: "?slot < rg_slots r3" using s by (simp add: same_ring_geometry [OF same3])
  obtain r4 where p4: "pack_into (entry_at ?slot + 8) (pack_double ts) r3 = Some r4" using stamp_total [OF ok3 s3 dbl] by blast
  note e4 = stamp_effect [OF ok3 s3 dbl p4]
  note same4 = same_ring_trans [OF same3 e4(1)]
  note ok4 = iffD2 [OF same_ring_geometry(5) [OF same4] ok]
  have s4: "?slot < rg_slots r4" using s by (simp add: same_ring_geometry [OF same4])
  obtain r5 where p5: "pack_seq ?slot (2 * Suc (rg_seq r)) r4 = Some r5" using pack_seq_total [OF ok4 s4, of "2 * Suc (rg_seq r)"] room by auto
  note e5 = pack_seq_effect [OF ok4 s4 p5]
  note same5 = same_ring_trans [OF same4 e5(1)]
  let ?r6 = "r5\<lparr>rg_written := rg_written r5 + frame_bytes r\<rparr>"
  have six: "same_ring r5 ?r6" "rg_seq ?r6 = rg_seq r5" "\<And>i. seq_word ?r6 i = seq_word r5 i" "\<And>i. slot_bytes ?r6 i = slot_bytes r5 i"
    by (simp_all add: same_ring_def seq_word_def slot_bytes_def base_at_def frame_bytes_def)
  have run: "ring_publish pack_double r f ts = (?r6, Inr (Suc (rg_seq r), ?slot))"
    using fits p2 p4 p5 by (simp add: ring_publish_def Let_def frame_fits_def r3_def [symmetric])
  show thesis
  proof (rule that [OF run same_ring_trans [OF same5 six(1)]])
    show "rg_seq ?r6 = Suc (rg_seq r)" by (simp add: six(2) e5(2) e4(2) e3(2) e2(2))
  next
    have "seq_word ?r6 i = (if i = ?slot then 2 * Suc (rg_seq r) else seq_word r i) \<and> slot_bytes ?r6 i = (if i = ?slot then fr_bytes f else slot_bytes r i)"
      if i: "i < rg_slots r" for i
    proof -
      have i': "i < rg_slots r2" "i < rg_slots r3" "i < rg_slots r4"
        using i by (simp_all add: same_ring_geometry [OF same2] same_ring_geometry [OF same3] same_ring_geometry [OF same4])
      show ?thesis
        using i' e5(5,6) [of i] e4(4,5) [of i] e3(4,5) [of i] e2(5,6) [of i] i by (auto simp: six one same_ring_geometry [OF one(1)])
    qed
    then show "\<forall>i < rg_slots r. seq_word ?r6 i = (if i = ?slot then 2 * Suc (rg_seq r) else seq_word r i)"
      "\<forall>i < rg_slots r. slot_bytes ?r6 i = (if i = ?slot then fr_bytes f else slot_bytes r i)" by blast+
  qed
qed

primrec last_in :: "nat \<Rightarrow> nat \<Rightarrow> nat \<Rightarrow> nat" where
  \<comment> \<open>the last of the sequence numbers 1 to m that went to slot i, 0 for none\<close>
  "last_in n i 0 = 0"
| "last_in n i (Suc m) = (if Suc m mod n = i then Suc m else last_in n i m)"

lemma last_in_le: "last_in n i m \<le> m"
  by (induction m) auto

lemma last_in_slot: "0 < last_in n i m \<Longrightarrow> last_in n i m mod n = i"
  by (induction m) (auto split: if_splits)

lemma mod_apart: "a < b \<Longrightarrow> b < a + n \<Longrightarrow> b mod n \<noteq> (a::nat) mod n"
  by (metis add_diff_inverse_nat dvd_imp_le less_imp_le mod_eq_dvd_iff_nat nat_add_left_cancel_less not_less zero_less_diff)

lemma last_in_iff:
  assumes "0 < k" "0 < n"
  shows "last_in n i m = k \<longleftrightarrow> k \<le> m \<and> k mod n = i \<and> m < k + n"
proof (induction m)
  case (Suc m)
  show ?case
  proof (cases "Suc m mod n = i")
    case True
    then show ?thesis using mod_apart [of k "Suc m" n] assms by (auto simp: le_less)
  next
    case False
    then have "Suc m \<noteq> k + n \<or> k mod n \<noteq> i" by (metis mod_add_self2)
    then show ?thesis using False Suc.IH assms by (auto simp: le_Suc_eq)
  qed
qed (use assms in auto)

primrec ring_after :: "(rat \<Rightarrow> byte list) \<Rightarrow> ring \<Rightarrow> (frame \<times> rat) list \<Rightarrow> ring" where
  \<comment> \<open>one publication after the other\<close>
  "ring_after pack_double r [] = r"
| "ring_after pack_double r (p # ps) = ring_after pack_double (fst (ring_publish pack_double r (fst p) (snd p))) ps"

lemma ring_after_append: "ring_after pack_double r (ps @ qs) = ring_after pack_double (ring_after pack_double r ps) qs"
  by (induction ps arbitrary: r) auto

lemma ring_init_ok:
  assumes "slots \<le> 256"
  shows "ring_ok (ring_init d c w h ch slots t)" "rg_seq (ring_init d c w h ch slots t) = 0"
    "i < rg_slots (ring_init d c w h ch slots t) \<Longrightarrow> seq_word (ring_init d c w h ch slots t) i = 0"
proof -
  let ?r = "ring_init d c w h ch slots t"
  have two: "2 \<le> nat (max 2 slots)" "nat (max 2 slots) \<le> 256" using assms by linarith+
  show ok: "ring_ok ?r" "rg_seq ?r = 0"
    using two by (simp_all add: ring_init_def Let_def ring_ok_def ring_nbytes_def frame_bytes_def)
  have zeros: "bytes_nat (replicate n 0) = 0" for n by (induction n) auto
  show "seq_word ?r i = 0" if "i < rg_slots ?r"
    using entry_in_page [OF ok(1) that] by (simp add: seq_word_def ring_init_def Let_def peek_def zeros layout_defs min_def)
qed

definition ring_holds :: "byte list list \<Rightarrow> ring \<Rightarrow> bool" where
  \<comment> \<open>each slot has the last frame that went to it\<close>
  "ring_holds hist r \<longleftrightarrow> rg_seq r = length hist \<and>
     (\<forall>i < rg_slots r. seq_word r i = 2 * last_in (rg_slots r) i (length hist) \<and>
        (0 < last_in (rg_slots r) i (length hist) \<longrightarrow> slot_bytes r i = hist ! (last_in (rg_slots r) i (length hist) - 1)))"

lemma publish_holds:
  assumes "ring_ok r" "frame_fits r f" "2 * Suc (length hist) < 2 ^ 64" "\<And>t. length (pack_double t) = 8" "ring_holds hist r"
  shows "ring_holds (hist @ [fr_bytes f]) (fst (ring_publish pack_double r f ts)) \<and> same_ring r (fst (ring_publish pack_double r f ts))"
proof -
  have room: "2 * Suc (rg_seq r) < 2 ^ 64" using assms(3,5) by (simp add: ring_holds_def)
  obtain r' where run: "ring_publish pack_double r f ts = (r', Inr (Suc (rg_seq r), next_slot r))" and same: "same_ring r r'"
    and seq: "rg_seq r' = Suc (rg_seq r)"
    and words: "\<forall>i < rg_slots r. seq_word r' i = (if i = next_slot r then 2 * Suc (rg_seq r) else seq_word r i)"
    and frames: "\<forall>i < rg_slots r. slot_bytes r' i = (if i = next_slot r then fr_bytes f else slot_bytes r i)"
    by (rule publish_effect [where ts = ts and pack_double = pack_double, OF assms(1,2) room assms(4)])
  have old: "(hist @ [fr_bytes f]) ! (last_in (rg_slots r) i (length hist) - 1) = hist ! (last_in (rg_slots r) i (length hist) - 1)"
    if "0 < last_in (rg_slots r) i (length hist)" for i
  proof -
    have "last_in (rg_slots r) i (length hist) - 1 < length hist" using last_in_le [of "rg_slots r" i "length hist"] that by linarith
    then show ?thesis by (simp add: nth_append)
  qed
  have "ring_holds (hist @ [fr_bytes f]) r'" unfolding ring_holds_def
  proof (intro conjI allI impI)
    show "rg_seq r' = length (hist @ [fr_bytes f])" using assms(5) seq by (simp add: ring_holds_def)
  next
    fix i assume i: "i < rg_slots r'"
    show "seq_word r' i = 2 * last_in (rg_slots r') i (length (hist @ [fr_bytes f]))"
      using i words assms(5) by (simp add: ring_holds_def same_ring_geometry [OF same] next_slot_def)
    show "slot_bytes r' i = (hist @ [fr_bytes f]) ! (last_in (rg_slots r') i (length (hist @ [fr_bytes f])) - 1)"
      if "0 < last_in (rg_slots r') i (length (hist @ [fr_bytes f]))"
      using i that frames assms(5) old [of i] by (auto simp: ring_holds_def same_ring_geometry [OF same] next_slot_def split: if_splits)
  qed
  then show ?thesis using run same by simp
qed

lemma ring_after_holds:
  assumes "ring_ok r" "ring_holds [] r" "\<And>p. p \<in> set ps \<Longrightarrow> frame_fits r (fst p)" "2 * length ps < 2 ^ 64" "\<And>t. length (pack_double t) = 8"
  shows "ring_holds (map (\<lambda>p. fr_bytes (fst p)) ps) (ring_after pack_double r ps) \<and> same_ring r (ring_after pack_double r ps)"
  using assms(3,4)
proof (induction ps rule: rev_induct)
  case Nil
  then show ?case using assms(2) by (simp add: same_ring_def)
next
  case (snoc p ps)
  let ?r = "ring_after pack_double r ps"
  have IH: "ring_holds (map (\<lambda>p. fr_bytes (fst p)) ps) ?r" "same_ring r ?r" using snoc by auto
  have "frame_fits ?r (fst p)" "ring_ok ?r" using snoc.prems(1) IH(2) assms(1) same_ring_fits same_ring_geometry(5) by auto
  then show ?case
    using publish_holds [of ?r "fst p" "map (\<lambda>p. fr_bytes (fst p)) ps" pack_double "snd p"] IH snoc.prems(2) assms(5)
    by (auto simp: ring_after_append intro: same_ring_trans)
qed

lemma read_holds:
  assumes "ring_holds hist r" "ring_ok r" "slot < rg_slots r" "0 < k"
  shows "frame_read r slot k =
    (if k \<le> length hist \<and> k mod rg_slots r = slot \<and> length hist < k + rg_slots r then Some (hist ! (k - 1)) else None)"
proof -
  have "last_in (rg_slots r) slot (length hist) = k \<longleftrightarrow> k \<le> length hist \<and> k mod rg_slots r = slot \<and> length hist < k + rg_slots r"
    using last_in_iff [OF assms(4)] ring_okD(1) [OF assms(2)] by simp
  then show ?thesis using assms by (auto simp: frame_read_def Let_def ring_holds_def)
qed

text \<open>
  C34. A frame is readable until the writer laps it. After any number of frames of the ring's size have been published (fewer than
  \<open>2^63\<close>), a read of any slot under the sequence number k of a notice gives exactly the bytes of the k-th frame when k went to that slot and
  fewer than \<open>slots\<close> frames came after it, and refuses in every other case.
\<close>

theorem ring_keeps_last_slots:
  assumes "slots \<le> 256" and "r = ring_init d camera w h ch slots epoch"
    and "\<forall>p \<in> set ps. frame_fits r (fst p)" and "2 * length ps < 2 ^ 64" and "\<forall>t. length (pack_double t) = 8"
    and "slot < rg_slots r" and "0 < k"
  shows "frame_read (ring_after pack_double r ps) slot k =
    (if k \<le> length ps \<and> k mod rg_slots r = slot \<and> length ps < k + rg_slots r then Some (fr_bytes (fst (ps ! (k - 1)))) else None)"
proof -
  have fresh: "ring_ok r" "ring_holds [] r" using ring_init_ok [OF assms(1)] assms(2) by (simp_all add: ring_holds_def)
  then have after: "ring_holds (map (\<lambda>p. fr_bytes (fst p)) ps) (ring_after pack_double r ps)" "same_ring r (ring_after pack_double r ps)"
    using ring_after_holds [OF fresh] assms(3-5) by auto
  show ?thesis
    using read_holds [OF after(1) _ _ assms(7), of slot] fresh(1) assms(6,7) by (auto simp: same_ring_geometry [OF after(2)])
qed

theorem ring_keeps_last_slots_witness:
  "frame_read (ring_after (\<lambda>_. replicate 8 0) (ring_init ''d'' ''c'' 1 1 1 2 7)
      (map (\<lambda>b. (\<lparr>fr_height = 1, fr_width = 1, fr_bytes = [b]\<rparr>, 0)) [10, 20, 30])) 0 2 = Some [20]"
  using ring_keeps_last_slots [where slots = 2 and d = "''d''" and camera = "''c''" and w = 1 and h = 1 and ch = 1 and epoch = 7 and slot = 0
      and k = 2 and pack_double = "\<lambda>_. replicate 8 0" and ps = "map (\<lambda>b. (\<lparr>fr_height = 1, fr_width = 1, fr_bytes = [b]\<rparr>, 0)) [10, 20, 30]", OF _ refl]
  by (simp add: ring_init_def frame_fits_def frame_bytes_def)

section \<open>A writer and a reader at once\<close>

datatype writer =
    Resting
  | Copying frame rat "nat set" \<comment> \<open>the bytes not yet stored\<close>
  | Stamped frame

datatype reader =
    Waiting
  | Reading nat nat "nat set" "byte list" \<comment> \<open>slot, the word seen before, the bytes not yet copied, the copy so far\<close>
  | Answered nat "byte list option" \<comment> \<open>what \<open>read\<close> returned for the expected sequence number\<close>

record race =
  rc_ring :: ring
  rc_writer :: writer
  rc_reader :: reader
  rc_sent :: "byte list option list" \<comment> \<open>per sequence number, the frame \<open>publish\<close> returned it for, or None where it raised\<close>

definition now_slot :: "ring \<Rightarrow> nat" where
  \<comment> \<open>the slot of the publication under way\<close>
  "now_slot r = rg_seq r mod rg_slots r"

definition take_number :: "ring \<Rightarrow> ring" where
  "take_number r = r\<lparr>rg_seq := Suc (rg_seq r)\<rparr>"

definition store_byte :: "ring \<Rightarrow> nat \<Rightarrow> byte \<Rightarrow> ring" where
  "store_byte r j b = r\<lparr>rg_memory := (rg_memory r)[base_at r (now_slot r) + j := b]\<rparr>"

inductive writer_step :: "(rat \<Rightarrow> byte list) \<Rightarrow> race \<Rightarrow> race \<Rightarrow> bool" for pack_double where
  \<comment> \<open>\<open>publish\<close>, one store at a time, every exception included\<close>
  odd_refused: "rc_writer s = Resting \<Longrightarrow> r = take_number (rc_ring s) \<Longrightarrow> pack_seq (now_slot r) (2 * rg_seq r - 1) r = None \<Longrightarrow>
    writer_step pack_double s (s\<lparr>rc_ring := r, rc_sent := rc_sent s @ [None]\<rparr>)"
| size_refused: "rc_writer s = Resting \<Longrightarrow> r = take_number (rc_ring s) \<Longrightarrow> pack_seq (now_slot r) (2 * rg_seq r - 1) r = Some r' \<Longrightarrow>
    fr_height (f :: frame) = rg_height r \<Longrightarrow> fr_width f = rg_width r \<Longrightarrow> length (fr_bytes f) \<noteq> frame_bytes r \<Longrightarrow> writer_step pack_double s (s\<lparr>rc_ring := r', rc_sent := rc_sent s @ [None]\<rparr>)"
| odd: "rc_writer s = Resting \<Longrightarrow> r = take_number (rc_ring s) \<Longrightarrow> pack_seq (now_slot r) (2 * rg_seq r - 1) r = Some r' \<Longrightarrow>
    frame_fits r f \<Longrightarrow> writer_step pack_double s (s\<lparr>rc_ring := r', rc_writer := Copying f ts {..<frame_bytes r}\<rparr>)"
| store: "rc_writer s = Copying f ts todo \<Longrightarrow> j \<in> todo \<Longrightarrow>
    writer_step pack_double s (s\<lparr>rc_ring := store_byte (rc_ring s) j (fr_bytes f ! j), rc_writer := Copying f ts (todo - {j})\<rparr>)"
| stamp: "rc_writer s = Copying f ts {} \<Longrightarrow> pack_into (entry_at (now_slot (rc_ring s)) + 8) (pack_double ts) (rc_ring s) = Some r \<Longrightarrow>
    writer_step pack_double s (s\<lparr>rc_ring := r, rc_writer := Stamped f\<rparr>)"
| stamp_refused: "rc_writer s = Copying f ts {} \<Longrightarrow> pack_into (entry_at (now_slot (rc_ring s)) + 8) (pack_double ts) (rc_ring s) = None \<Longrightarrow>
    writer_step pack_double s (s\<lparr>rc_writer := Resting, rc_sent := rc_sent s @ [None]\<rparr>)"
| even: "rc_writer s = Stamped f \<Longrightarrow> pack_seq (now_slot (rc_ring s)) (2 * rg_seq (rc_ring s)) (rc_ring s) = Some r \<Longrightarrow>
    writer_step pack_double s (s\<lparr>rc_ring := r\<lparr>rg_written := rg_written r + frame_bytes r\<rparr>, rc_writer := Resting,
      rc_sent := rc_sent s @ [Some (fr_bytes f)]\<rparr>)"
| even_refused: "rc_writer s = Stamped f \<Longrightarrow> pack_seq (now_slot (rc_ring s)) (2 * rg_seq (rc_ring s)) (rc_ring s) = None \<Longrightarrow>
    writer_step pack_double s (s\<lparr>rc_writer := Resting, rc_sent := rc_sent s @ [None]\<rparr>)"

inductive reader_step :: "race \<Rightarrow> race \<Rightarrow> bool" where
  \<comment> \<open>\<open>read\<close>, one load at a time\<close>
  look: "rc_reader s = Waiting \<or> rc_reader s = Answered k' res \<Longrightarrow> slot < rg_slots (rc_ring s) \<Longrightarrow> before = seq_word (rc_ring s) slot \<Longrightarrow>
    reader_step s (s\<lparr>rc_reader :=
      (if before mod 2 = 1 \<or> before div 2 \<noteq> k then Answered k None
       else Reading slot before {..<frame_bytes (rc_ring s)} (replicate (frame_bytes (rc_ring s)) 0))\<rparr>)"
| copy: "rc_reader s = Reading slot before todo buf \<Longrightarrow> j \<in> todo \<Longrightarrow>
    reader_step s (s\<lparr>rc_reader := Reading slot before (todo - {j}) (buf[j := rg_memory (rc_ring s) ! (base_at (rc_ring s) slot + j)])\<rparr>)"
| check: "rc_reader s = Reading slot before {} buf \<Longrightarrow>
    reader_step s (s\<lparr>rc_reader := Answered (before div 2) (if seq_word (rc_ring s) slot \<noteq> before then None else Some buf)\<rparr>)"

inductive race_step :: "(rat \<Rightarrow> byte list) \<Rightarrow> race \<Rightarrow> race \<Rightarrow> bool" for pack_double where
  writes: "writer_step pack_double s t \<Longrightarrow> race_step pack_double s t"
| reads: "reader_step s t \<Longrightarrow> race_step pack_double s t"

lemmas race_odd_refused = writer_step.odd_refused [THEN race_step.writes]
  and race_size_refused = writer_step.size_refused [THEN race_step.writes]
  and race_odd = writer_step.odd [THEN race_step.writes]
  and race_store = writer_step.store [THEN race_step.writes]
  and race_stamp = writer_step.stamp [THEN race_step.writes]
  and race_stamp_refused = writer_step.stamp_refused [THEN race_step.writes]
  and race_even = writer_step.even [THEN race_step.writes]
  and race_even_refused = writer_step.even_refused [THEN race_step.writes]
  and race_look = reader_step.look [THEN race_step.reads]
  and race_copy = reader_step.copy [THEN race_step.reads]
  and race_check = reader_step.check [THEN race_step.reads]

definition words_ok :: "ring \<Rightarrow> byte list option list \<Rightarrow> bool" where
  \<comment> \<open>no word is ahead of the counter, and an even one names a frame that its slot has in full\<close>
  "words_ok r sent \<longleftrightarrow> (\<forall>i < rg_slots r. seq_word r i \<le> 2 * rg_seq r \<and>
     (\<forall>k > 0. seq_word r i = 2 * k \<longrightarrow> k \<le> length sent \<and> sent ! (k - 1) = Some (slot_bytes r i)))"

fun writer_ok :: "ring \<Rightarrow> byte list option list \<Rightarrow> writer \<Rightarrow> bool" where
  "writer_ok r sent Resting \<longleftrightarrow> length sent = rg_seq r"
| "writer_ok r sent (Copying f ts todo) \<longleftrightarrow> Suc (length sent) = rg_seq r \<and> seq_word r (now_slot r) = 2 * rg_seq r - 1 \<and>
     length (fr_bytes f) = frame_bytes r \<and> todo \<subseteq> {..<frame_bytes r} \<and>
     (\<forall>j < frame_bytes r. j \<notin> todo \<longrightarrow> slot_bytes r (now_slot r) ! j = fr_bytes f ! j)"
| "writer_ok r sent (Stamped f) \<longleftrightarrow> Suc (length sent) = rg_seq r \<and> seq_word r (now_slot r) = 2 * rg_seq r - 1 \<and>
     slot_bytes r (now_slot r) = fr_bytes f"

fun reader_ok :: "ring \<Rightarrow> byte list option list \<Rightarrow> reader \<Rightarrow> bool" where
  "reader_ok r sent Waiting \<longleftrightarrow> True"
| "reader_ok r sent (Reading slot before todo buf) \<longleftrightarrow> slot < rg_slots r \<and> even before \<and> before \<le> seq_word r slot \<and>
     length buf = frame_bytes r \<and> todo \<subseteq> {..<frame_bytes r} \<and>
     (seq_word r slot = before \<longrightarrow> (\<forall>j < frame_bytes r. j \<notin> todo \<longrightarrow> buf ! j = slot_bytes r slot ! j))"
| "reader_ok r sent (Answered k res) \<longleftrightarrow> (\<forall>buf. res = Some buf \<longrightarrow> 0 < k \<longrightarrow> k \<le> length sent \<and> sent ! (k - 1) = Some buf)"

definition race_ok :: "race \<Rightarrow> bool" where
  "race_ok s \<longleftrightarrow> ring_ok (rc_ring s) \<and> words_ok (rc_ring s) (rc_sent s) \<and> writer_ok (rc_ring s) (rc_sent s) (rc_writer s) \<and>
     reader_ok (rc_ring s) (rc_sent s) (rc_reader s)"

lemma words_ok_kept:
  \<comment> \<open>a move of the writer that leaves frames alone, or changes one whose word is odd\<close>
  assumes "words_ok r sent" "same_ring r r'" "rg_seq r \<le> rg_seq r'"
    and "\<forall>i < rg_slots r. seq_word r' i = seq_word r i \<and> (even (seq_word r i) \<longrightarrow> slot_bytes r' i = slot_bytes r i) \<or>
       odd (seq_word r' i) \<and> seq_word r' i \<le> 2 * rg_seq r'"
  shows "words_ok r' (sent @ new)"
  unfolding words_ok_def
proof (intro allI impI conjI)
  fix i assume "i < rg_slots r'"
  then have i: "i < rg_slots r" by (simp add: same_ring_geometry [OF assms(2)])
  note old = assms(1) [unfolded words_ok_def, rule_format, OF i] and moved = assms(4) [rule_format, OF i]
  show "seq_word r' i \<le> 2 * rg_seq r'" using old moved assms(3) by auto
  fix k :: nat assume k: "0 < k" "seq_word r' i = 2 * k"
  then have ev: "even (seq_word r' i)" by simp
  then have "seq_word r i = seq_word r' i" "slot_bytes r' i = slot_bytes r i" using moved by auto
  then have "seq_word r i = 2 * k" "slot_bytes r' i = slot_bytes r i" using k(2) by simp_all
  then have sent: "k \<le> length sent" "sent ! (k - 1) = Some (slot_bytes r' i)" using old k(1) by auto
  then show "k \<le> length (sent @ new)" by simp
  have "k - 1 < length sent" using sent(1) k(1) by linarith
  then show "(sent @ new) ! (k - 1) = Some (slot_bytes r' i)" using sent(2) by (simp add: nth_append)
qed

lemma reader_ok_kept:
  \<comment> \<open>what a reader has copied stays right, or the word has moved past the one it saw\<close>
  assumes "reader_ok r sent rd" "same_ring r r'"
    and "\<forall>i < rg_slots r. seq_word r' i = seq_word r i \<and> (even (seq_word r i) \<longrightarrow> slot_bytes r' i = slot_bytes r i) \<or> seq_word r i < seq_word r' i"
  shows "reader_ok r' (sent @ new) rd"
proof (cases rd)
  case (Reading slot before todo buf)
  then have "slot < rg_slots r" using assms(1) by simp
  then show ?thesis using Reading assms(1) assms(3) [rule_format, of slot] by (auto simp: same_ring_geometry [OF assms(2)])
qed (use assms(1) in \<open>auto simp: nth_append\<close>)

lemma take_number_effect:
  "same_ring r (take_number r)" "rg_seq (take_number r) = Suc (rg_seq r)" "seq_word (take_number r) i = seq_word r i"
  "slot_bytes (take_number r) i = slot_bytes r i" "now_slot (take_number r) = next_slot r"
  by (simp_all add: take_number_def same_ring_def seq_word_def slot_bytes_def base_at_def frame_bytes_def now_slot_def next_slot_def)

lemma take_number_dims: "rg_height (take_number r) = rg_height r" "rg_width (take_number r) = rg_width r"
  by (simp_all add: take_number_def)

lemma store_byte_effect:
  assumes "ring_ok r" "j < frame_bytes r"
  shows "same_ring r (store_byte r j b)" "rg_seq (store_byte r j b) = rg_seq r" "now_slot (store_byte r j b) = now_slot r"
    "i < rg_slots r \<Longrightarrow> seq_word (store_byte r j b) i = seq_word r i"
    "i < rg_slots r \<Longrightarrow> slot_bytes (store_byte r j b) i = (if i = now_slot r then (slot_bytes r i)[j := b] else slot_bytes r i)"
proof -
  let ?a = "base_at r (now_slot r) + j" and ?m = "(rg_memory r)[base_at r (now_slot r) + j := b]"
  have len: "length (rg_memory r) = ring_nbytes r" using assms(1) by (simp add: ring_ok_def)
  show same: "same_ring r (store_byte r j b)" "rg_seq (store_byte r j b) = rg_seq r" "now_slot (store_byte r j b) = now_slot r"
    by (simp_all add: store_byte_def same_ring_def now_slot_def)
  have mem: "rg_memory (store_byte r j b) = ?m" by (simp add: store_byte_def)
  show "seq_word (store_byte r j b) i = seq_word r i" if "i < rg_slots r"
    using entry_in_page [OF assms(1) that] page_in_memory [of r] base_after_page [of r "now_slot r"] len
    by (simp add: seq_word_def mem peek_update_apart)
  show "slot_bytes (store_byte r j b) i = (if i = now_slot r then (slot_bytes r i)[j := b] else slot_bytes r i)" if i: "i < rg_slots r"
  proof (cases "i = now_slot r")
    case True
    have "peek (base_at r i) (frame_bytes r) ?m = (peek (base_at r i) (frame_bytes r) (rg_memory r))[j := b]"
      using slot_in_memory [OF i] len assms(2) True
      by (intro nth_equalityI) (auto simp: nth_peek nth_list_update)
    then show ?thesis using True by (simp add: slot_bytes_def same_ring_geometry [OF same(1)] mem)
  next
    case False
    have "peek (base_at r i) (frame_bytes r) ?m = peek (base_at r i) (frame_bytes r) (rg_memory r)"
      using slot_in_memory [OF i] len assms(2) slots_apart [OF False, of r] by (intro peek_update_apart) auto
    then show ?thesis using False by (simp add: slot_bytes_def same_ring_geometry [OF same(1)] mem)
  qed
qed

lemmas race_kept = words_ok_kept [where new = "[]", simplified] reader_ok_kept [where new = "[]", simplified]

lemma odd_store_keeps:
  \<comment> \<open>taking a number, and marking its slot or failing to\<close>
  assumes ok: "ring_ok r" "words_ok r sent" "reader_ok r sent rd"
    and r': "r' = take_number r \<or> pack_seq (next_slot r) (2 * Suc (rg_seq r) - 1) (take_number r) = Some r'"
  shows "ring_ok r'" "words_ok r' (sent @ new)" "reader_ok r' (sent @ new) rd" "same_ring r r'" "rg_seq r' = Suc (rg_seq r)"
    "r' \<noteq> take_number r \<Longrightarrow> seq_word r' (next_slot r) = 2 * Suc (rg_seq r) - 1"
proof -
  let ?i = "next_slot r" and ?n = "2 * Suc (rg_seq r) - 1"
  note ok1 = iffD2 [OF same_ring_geometry(5) [OF take_number_effect(1)] ok(1)]
  have s: "?i < rg_slots (take_number r)" using next_slot_less [OF ok(1)] by (simp add: same_ring_geometry [OF take_number_effect(1)])
  have "same_ring r r' \<and> rg_seq r' = Suc (rg_seq r) \<and> (r' \<noteq> take_number r \<longrightarrow> seq_word r' ?i = ?n) \<and>
    (\<forall>i < rg_slots r. slot_bytes r' i = slot_bytes r i \<and> (seq_word r' i = seq_word r i \<or> seq_word r' i = ?n))"
  proof (cases "r' = take_number r")
    case True
    then show ?thesis using take_number_effect by auto
  next
    case False
    then have p: "pack_seq ?i ?n (take_number r) = Some r'" using r' by simp
    note e = pack_seq_effect [OF ok1 s p]
    show ?thesis
      using same_ring_trans [OF take_number_effect(1) e(1)] e(2) e(5,6) s
      by (auto simp: take_number_effect same_ring_geometry [OF take_number_effect(1)])
  qed
  then have e: "same_ring r r'" "rg_seq r' = Suc (rg_seq r)" "r' \<noteq> take_number r \<Longrightarrow> seq_word r' ?i = ?n"
    "\<forall>i < rg_slots r. slot_bytes r' i = slot_bytes r i \<and> (seq_word r' i = seq_word r i \<or> seq_word r' i = ?n)" by auto
  then show "same_ring r r'" "rg_seq r' = Suc (rg_seq r)" "r' \<noteq> take_number r \<Longrightarrow> seq_word r' (next_slot r) = 2 * Suc (rg_seq r) - 1" by auto
  show "ring_ok r'" using ok(1) same_ring_geometry(5) [OF e(1)] by simp
  have bound: "seq_word r i < ?n" if "i < rg_slots r" for i using ok(2) that by (fastforce simp: words_ok_def)
  show "words_ok r' (sent @ new)"
  proof (rule words_ok_kept [OF ok(2) e(1)])
    show "rg_seq r \<le> rg_seq r'" by (simp add: e(2))
    have "odd ?n" "?n \<le> 2 * Suc (rg_seq r)" by simp_all
    then show "\<forall>i < rg_slots r. seq_word r' i = seq_word r i \<and> (even (seq_word r i) \<longrightarrow> slot_bytes r' i = slot_bytes r i) \<or>
        odd (seq_word r' i) \<and> seq_word r' i \<le> 2 * rg_seq r'"
      using e(4) by (metis e(2))
  qed
  show "reader_ok r' (sent @ new) rd"
    by (rule reader_ok_kept [OF ok(3) e(1)]) (use e(4) bound in fastforce)
qed

lemma store_keeps:
  assumes ok: "ring_ok r" "words_ok r sent" "reader_ok r sent rd" "writer_ok r sent (Copying f ts todo)" and j: "j \<in> todo"
  shows "race_ok \<lparr>rc_ring = store_byte r j (fr_bytes f ! j), rc_writer = Copying f ts (todo - {j}), rc_reader = rd, rc_sent = sent\<rparr>"
proof -
  let ?r = "store_byte r j (fr_bytes f ! j)"
  have jb: "j < frame_bytes r" and s: "now_slot r < rg_slots r" and odd: "seq_word r (now_slot r) = 2 * rg_seq r - 1" "0 < rg_seq r"
    using ok(4) j ring_okD(1) [OF ok(1)] by (auto simp: now_slot_def)
  note e = store_byte_effect [OF ok(1) jb, where b = "fr_bytes f ! j"]
  have odd': "odd (seq_word r (now_slot r))" using odd by simp
  have frames: "\<forall>i < rg_slots r. seq_word ?r i = seq_word r i \<and> (even (seq_word r i) \<longrightarrow> slot_bytes ?r i = slot_bytes r i)"
    using e(4,5) odd' by auto
  have "words_ok ?r sent" using race_kept(1) [OF ok(2) e(1)] e(2) frames by simp
  moreover have "reader_ok ?r sent rd" using race_kept(2) [OF ok(3) e(1)] frames by simp
  moreover have "writer_ok ?r sent (Copying f ts (todo - {j}))"
    using ok(4) j s e(2,3) e(4) [OF s] e(5) [OF s] jb slot_in_memory [OF s] ok(1)
    by (auto simp: same_ring_geometry [OF e(1)] nth_list_update slot_bytes_def ring_ok_def)
  ultimately show ?thesis using ok(1) by (simp add: race_ok_def same_ring_geometry [OF e(1)])
qed

lemma stamp_keeps:
  assumes ok: "ring_ok r" "words_ok r sent" "reader_ok r sent rd" "writer_ok r sent (Copying f ts {})" "length bs = 8"
    and r': "pack_into (entry_at (now_slot r) + 8) bs r = Some r'"
  shows "race_ok \<lparr>rc_ring = r', rc_writer = Stamped f, rc_reader = rd, rc_sent = sent\<rparr>"
proof -
  have s: "now_slot r < rg_slots r" using ring_okD(1) [OF ok(1)] by (simp add: now_slot_def)
  note e = stamp_effect [OF ok(1) s ok(5) r']
  have now: "now_slot r' = now_slot r" by (simp add: now_slot_def e(2) same_ring_geometry [OF e(1)])
  have full: "slot_bytes r (now_slot r) = fr_bytes f"
    using ok(1,4) slot_in_memory [OF s] by (intro nth_equalityI) (auto simp: slot_bytes_def ring_ok_def)
  have "words_ok r' sent" using race_kept(1) [OF ok(2) e(1)] e(2,4,5) by simp
  moreover have "reader_ok r' sent rd" using race_kept(2) [OF ok(3) e(1)] e(4,5) by simp
  moreover have "writer_ok r' sent (Stamped f)" using ok(4) full e(2) e(4,5) [OF s] by (simp add: now)
  ultimately show ?thesis using ok(1) by (simp add: race_ok_def same_ring_geometry [OF e(1)])
qed

lemma even_store_keeps:
  assumes ok: "ring_ok r" "words_ok r sent" "reader_ok r sent rd" "writer_ok r sent (Stamped f)"
    and p: "pack_seq (now_slot r) (2 * rg_seq r) r = Some q" and r': "r' = q\<lparr>rg_written := n\<rparr>"
  shows "race_ok \<lparr>rc_ring = r', rc_writer = Resting, rc_reader = rd, rc_sent = sent @ [Some (fr_bytes f)]\<rparr>"
proof -
  let ?i = "now_slot r"
  have s: "?i < rg_slots r" using ring_okD(1) [OF ok(1)] by (simp add: now_slot_def)
  note e = pack_seq_effect [OF ok(1) s p]
  have same: "same_ring r r'" using same_ring_trans [OF e(1), of r'] by (simp add: r' same_ring_def)
  have seq: "rg_seq r' = rg_seq r" "0 < rg_seq r" "length sent = rg_seq r - 1" using e(2) ok(4) by (auto simp: r')
  have words: "seq_word r' i = (if i = ?i then 2 * rg_seq r else seq_word r i)" "slot_bytes r' i = slot_bytes r i" if "i < rg_slots r" for i
    using e(5,6) [of i] that by (auto simp: r' seq_word_def slot_bytes_def base_at_def frame_bytes_def)
  have was: "seq_word r ?i = 2 * rg_seq r - 1" "slot_bytes r ?i = fr_bytes f" using ok(4) by auto
  have "words_ok r' (sent @ [Some (fr_bytes f)])" unfolding words_ok_def
  proof (intro allI impI)
    fix i assume "i < rg_slots r'"
    then have i: "i < rg_slots r" by (simp add: same_ring_geometry [OF same])
    show "seq_word r' i \<le> 2 * rg_seq r' \<and> (\<forall>k > 0. seq_word r' i = 2 * k \<longrightarrow> k \<le> length (sent @ [Some (fr_bytes f)]) \<and>
      (sent @ [Some (fr_bytes f)]) ! (k - 1) = Some (slot_bytes r' i))"
    proof (cases "i = ?i")
      case True
      then show ?thesis using words [OF s] was seq by (auto simp: nth_append)
    next
      case False
      have "k - 1 < length sent" if "k \<le> length sent" "0 < k" for k using that by linarith
      then show ?thesis using words [OF i] False ok(2) i seq by (fastforce simp: words_ok_def nth_append)
    qed
  qed
  moreover have "reader_ok r' (sent @ [Some (fr_bytes f)]) rd"
    by (rule reader_ok_kept [OF ok(3) same]) (use words was seq in auto)
  ultimately show ?thesis using ok(1) seq by (simp add: race_ok_def same_ring_geometry [OF same])
qed

lemma writer_step_keeps:
  assumes "writer_step pack_double s s'" "race_ok s" and dbl: "\<And>t. length (pack_double t) = 8"
  shows "race_ok s'"
proof -
  have ok: "ring_ok (rc_ring s)" "words_ok (rc_ring s) (rc_sent s)" "writer_ok (rc_ring s) (rc_sent s) (rc_writer s)"
    "reader_ok (rc_ring s) (rc_sent s) (rc_reader s)" using assms(2) by (simp_all add: race_ok_def)
  note claim = odd_store_keeps [OF ok(1,2,4)]
  have later: "words_ok (rc_ring s) (rc_sent s @ [x])" "reader_ok (rc_ring s) (rc_sent s @ [x]) (rc_reader s)" for x
    using words_ok_kept [OF ok(2), of "rc_ring s" "[x]"] reader_ok_kept [OF ok(4), of "rc_ring s" "[x]"] by (auto simp: same_ring_def)
  from assms(1) show ?thesis
  proof cases
    case (odd_refused r)
    then have p: "r = take_number (rc_ring s) \<or> pack_seq (next_slot (rc_ring s)) (2 * Suc (rg_seq (rc_ring s)) - 1) (take_number (rc_ring s)) = Some r"
      by simp
    show ?thesis using claim [OF p] ok(3) odd_refused by (simp add: race_ok_def)
  next
    case (size_refused r r' f)
    then have p: "r' = take_number (rc_ring s) \<or> pack_seq (next_slot (rc_ring s)) (2 * Suc (rg_seq (rc_ring s)) - 1) (take_number (rc_ring s)) = Some r'"
      by (simp add: take_number_effect)
    show ?thesis using claim [OF p] ok(3) size_refused by (simp add: race_ok_def)
  next
    case (odd r r' f ts)
    then have p: "pack_seq (next_slot (rc_ring s)) (2 * Suc (rg_seq (rc_ring s)) - 1) (take_number (rc_ring s)) = Some r'"
      by (simp add: take_number_effect)
    have ok1: "ring_ok (take_number (rc_ring s))" using ok(1) same_ring_geometry(5) [OF take_number_effect(1)] by simp
    have s: "next_slot (rc_ring s) < rg_slots (take_number (rc_ring s))"
      using next_slot_less [OF ok(1)] by (simp add: same_ring_geometry [OF take_number_effect(1)])
    have c: "ring_ok r'" "words_ok r' (rc_sent s)" "reader_ok r' (rc_sent s) (rc_reader s)" "same_ring (rc_ring s) r'" "rg_seq r' = Suc (rg_seq (rc_ring s))"
      using claim(1,4,5) [OF disjI2 [OF p]] claim(2,3) [OF disjI2 [OF p], where new = "[]"] by simp_all
    have "now_slot r' = next_slot (rc_ring s)" by (simp add: now_slot_def next_slot_def c(5) same_ring_geometry [OF c(4)])
    moreover have "seq_word r' (next_slot (rc_ring s)) = 2 * rg_seq r' - 1" using pack_seq_effect(5) [OF ok1 s p s] c(5) by simp
    ultimately show ?thesis
      using odd c ok(3) same_ring_geometry(1) [OF take_number_effect(1), of "rc_ring s"]
      by (simp add: race_ok_def frame_fits_def same_ring_geometry [OF c(4)])
  next
    case (store f ts todo j)
    then show ?thesis using store_keeps [OF ok(1,2,4), of f ts todo j] ok(3) by (simp add: race_ok_def)
  next
    case (stamp f ts r)
    then show ?thesis using stamp_keeps [OF ok(1,2,4), of f ts "pack_double ts" r] ok(3) dbl by (simp add: race_ok_def)
  next
    case (stamp_refused f ts)
    then show ?thesis using ok later by (auto simp: race_ok_def)
  next
    case (even f r)
    then show ?thesis using even_store_keeps [OF ok(1,2,4), of f r] ok(3) by (simp add: race_ok_def)
  next
    case (even_refused f)
    then show ?thesis using ok later by (auto simp: race_ok_def)
  qed
qed

lemma reader_step_keeps:
  assumes "reader_step s s'" "race_ok s"
  shows "race_ok s'"
proof -
  have ok: "ring_ok (rc_ring s)" "words_ok (rc_ring s) (rc_sent s)" "writer_ok (rc_ring s) (rc_sent s) (rc_writer s)"
    "reader_ok (rc_ring s) (rc_sent s) (rc_reader s)" using assms(2) by (simp_all add: race_ok_def)
  from assms(1) show ?thesis
  proof cases
    case (look k' res slot before k)
    then show ?thesis using ok by (auto simp: race_ok_def even_iff_mod_2_eq_zero)
  next
    case (copy slot before todo buf j)
    then have "slot < rg_slots (rc_ring s)" "j < frame_bytes (rc_ring s)" using ok(4) by auto
    then have "slot_bytes (rc_ring s) slot ! j = rg_memory (rc_ring s) ! (base_at (rc_ring s) slot + j)"
      using ok(1) slot_in_memory [of slot "rc_ring s"] by (simp add: slot_bytes_def ring_ok_def nth_peek)
    then show ?thesis using copy ok by (auto simp: race_ok_def nth_list_update)
  next
    case (check slot before buf)
    have "buf = slot_bytes (rc_ring s) slot" if "seq_word (rc_ring s) slot = before"
      using check ok(1,4) that slot_in_memory [of slot "rc_ring s"] by (intro nth_equalityI) (auto simp: slot_bytes_def ring_ok_def)
    then have "before div 2 \<le> length (rc_sent s) \<and> rc_sent s ! (before div 2 - 1) = Some buf"
      if "seq_word (rc_ring s) slot = before" "0 < before div 2"
      using check ok(2,4) that unfolding words_ok_def by (metis dvd_mult_div_cancel reader_ok.simps(2))
    then show ?thesis using check ok by (auto simp: race_ok_def)
  qed
qed

lemma race_step_keeps:
  assumes "race_step pack_double s s'" "race_ok s" "\<And>t. length (pack_double t) = 8"
  shows "race_ok s'"
  using assms writer_step_keeps reader_step_keeps by (cases rule: race_step.cases) blast+

definition race_start :: "ring \<Rightarrow> race" where
  "race_start r = \<lparr>rc_ring = r, rc_writer = Resting, rc_reader = Waiting, rc_sent = []\<rparr>"

definition fresh_ring :: "ring \<Rightarrow> bool" where
  \<comment> \<open>as \<open>FrameRing.__init__\<close> leaves it, with at most 256 slots\<close>
  "fresh_ring r \<longleftrightarrow> (\<exists>d camera w h ch slots epoch. slots \<le> 256 \<and> r = ring_init d camera w h ch slots epoch)"

lemma fresh_ringI: "slots \<le> 256 \<Longrightarrow> fresh_ring (ring_init d camera w h ch slots epoch)"
  unfolding fresh_ring_def by blast

interpretation seqlock: invariant_system "\<lambda>s. \<exists>r. fresh_ring r \<and> s = race_start r"
  "\<lambda>s s'. race_step pack_double s s' \<and> (\<forall>t. length (pack_double t) = 8)" race_ok
  for pack_double
proof
  show "race_ok s" if fresh: "\<exists>r. fresh_ring r \<and> s = race_start r" for s
  proof -
    obtain d camera w h ch slots epoch where "slots \<le> 256" "s = race_start (ring_init d camera w h ch slots epoch)"
      using fresh by (auto simp: fresh_ring_def)
    then show ?thesis
      using ring_init_ok [of slots] by (auto simp: race_ok_def race_start_def words_ok_def)
  qed
  show "race_ok t" if "race_ok s" "race_step pack_double s t \<and> (\<forall>t. length (pack_double t) = 8)" for s t
    using that race_step_keeps by blast
qed

section \<open>The sequential operations are runs\<close>

lemma step_then: "rtranclp R s t \<Longrightarrow> R t u \<Longrightarrow> rtranclp R s u"
  by (rule rtranclp.rtrancl_into_rtrancl)

lemma put_snoc: "a + length xs < length m \<Longrightarrow> put a (xs @ [y]) m = (put a xs m)[a + length xs := y]"
  by (rule nth_equalityI) (auto simp: nth_put nth_list_update nth_append)

lemma copying_runs:
  assumes "ring_ok r" "length (fr_bytes f) = frame_bytes r" "m \<le> frame_bytes r"
  shows "rtranclp (race_step pack_double)
    \<lparr>rc_ring = r, rc_writer = Copying f ts {..<frame_bytes r}, rc_reader = rd, rc_sent = sent\<rparr>
    \<lparr>rc_ring = r\<lparr>rg_memory := put (base_at r (now_slot r)) (take m (fr_bytes f)) (rg_memory r)\<rparr>,
     rc_writer = Copying f ts {m..<frame_bytes r}, rc_reader = rd, rc_sent = sent\<rparr>"
  using assms(3)
proof (induction m)
  case 0
  have "r\<lparr>rg_memory := put (base_at r (now_slot r)) [] (rg_memory r)\<rparr> = r" by (simp add: put_def)
  then show ?case by (simp add: lessThan_atLeast0)
next
  case (Suc m)
  let ?a = "base_at r (now_slot r)"
  let ?s = "\<lambda>m. \<lparr>rc_ring = r\<lparr>rg_memory := put ?a (take m (fr_bytes f)) (rg_memory r)\<rparr>,
     rc_writer = Copying f ts {m..<frame_bytes r}, rc_reader = rd, rc_sent = sent\<rparr>"
  have s: "now_slot r < rg_slots r" using ring_okD(1) [OF assms(1)] by (simp add: now_slot_def)
  have "put ?a (take (Suc m) (fr_bytes f)) (rg_memory r) = (put ?a (take m (fr_bytes f)) (rg_memory r))[?a + m := fr_bytes f ! m]"
    using Suc.prems assms(1,2) slot_in_memory [OF s] put_snoc [of ?a "take m (fr_bytes f)" "rg_memory r" "fr_bytes f ! m"]
    by (simp add: take_Suc_conv_app_nth ring_ok_def)
  then have ring: "store_byte (rc_ring (?s m)) m (fr_bytes f ! m) = rc_ring (?s (Suc m))"
    by (simp add: store_byte_def base_at_def frame_bytes_def now_slot_def)
  have "race_step pack_double (?s m) ((?s m)\<lparr>rc_ring := store_byte (rc_ring (?s m)) m (fr_bytes f ! m), rc_writer := Copying f ts ({m..<frame_bytes r} - {m})\<rparr>)"
    using Suc.prems by (intro race_store) auto
  moreover have "{m..<frame_bytes r} - {m} = {Suc m..<frame_bytes r}" by auto
  ultimately have "race_step pack_double (?s m) (?s (Suc m))" using ring by simp
  with Suc show ?case by (auto intro: step_then)
qed

definition sent_entry :: "frame \<Rightarrow> ring_error + 'a \<Rightarrow> byte list option" where
  \<comment> \<open>what the history notes for a publication that took a number\<close>
  "sent_entry f res = (case res of Inr _ \<Rightarrow> Some (fr_bytes f) | Inl _ \<Rightarrow> None)"

lemma publish_runs:
  \<comment> \<open>\<open>publish\<close> is the writer's moves with nothing in between, on every branch that takes a number\<close>
  assumes ok: "ring_ok r" and shape: "fr_height f = rg_height r" "fr_width f = rg_width r" and run: "ring_publish pack_double r f ts = (r', res)"
  shows "rtranclp (race_step pack_double) \<lparr>rc_ring = r, rc_writer = Resting, rc_reader = rd, rc_sent = sent\<rparr>
    \<lparr>rc_ring = r', rc_writer = Resting, rc_reader = rd, rc_sent = sent @ [sent_entry f res]\<rparr>"
proof (cases "pack_seq (next_slot r) (2 * Suc (rg_seq r) - 1) (take_number r)")
  case None
  then have "r' = take_number r" "res = Inl StructError" using run shape by (auto simp: ring_publish_def Let_def take_number_def)
  then show ?thesis
    using race_odd_refused [of "\<lparr>rc_ring = r, rc_writer = Resting, rc_reader = rd, rc_sent = sent\<rparr>" "take_number r" pack_double] None
    by (auto simp: take_number_effect sent_entry_def)
next
  case (Some r2)
  let ?i = "next_slot r" and ?r1 = "take_number r"
  let ?s = "\<lambda>r w. \<lparr>rc_ring = r, rc_writer = w, rc_reader = rd, rc_sent = sent\<rparr>"
  have ok1: "ring_ok ?r1" and s: "?i < rg_slots ?r1"
    using ok next_slot_less [OF ok] by (simp_all add: same_ring_geometry [OF take_number_effect(1)])
  note e2 = pack_seq_effect [OF ok1 s Some]
  note same2 = same_ring_trans [OF take_number_effect(1) e2(1)]
  have r1: "r\<lparr>rg_seq := Suc (rg_seq r)\<rparr> = ?r1" by (simp add: take_number_def)
  show ?thesis
  proof (cases "length (fr_bytes f) = frame_bytes r")
    case False
    then have "r' = r2" "res = Inl WrongSize" using run shape Some by (auto simp: ring_publish_def Let_def r1)
    then show ?thesis
      using race_size_refused [of "?s r Resting" ?r1 r2 f pack_double] Some shape False same_ring_geometry(1) [OF take_number_effect(1), of r]
      by (auto simp: take_number_effect(2,5) take_number_dims sent_entry_def)
  next
    case True
    then have fits: "frame_fits r f" using shape by (simp add: frame_fits_def)
    define r3 where "r3 = r2\<lparr>rg_memory := put (base_at r ?i) (fr_bytes f) (rg_memory r2)\<rparr>"
    have g2: "ring_ok r2" "frame_bytes r2 = frame_bytes r" "base_at r2 ?i = base_at r ?i" "now_slot r2 = ?i" "rg_seq r2 = Suc (rg_seq r)"
      "length (fr_bytes f) = frame_bytes r2"
      using ok e2(2) True
      by (simp_all add: same_ring_geometry [OF same2] now_slot_def next_slot_def take_number_effect)
    have g3: "now_slot r3 = ?i" "rg_seq r3 = Suc (rg_seq r)" using g2(4,5) by (simp_all add: r3_def now_slot_def)
    have "race_step pack_double (?s r Resting) (?s r2 (Copying f ts {..<frame_bytes r2}))"
      using race_odd [of "?s r Resting" ?r1 r2 f pack_double ts] Some fits same_ring_fits [OF take_number_effect(1)]
      by (simp add: take_number_effect same_ring_geometry [OF take_number_effect(1)] g2)
    moreover have "rtranclp (race_step pack_double) (?s r2 (Copying f ts {..<frame_bytes r2})) (?s r3 (Copying f ts {}))"
      using copying_runs [OF g2(1,6), of "frame_bytes r2" pack_double ts rd sent] g2 by (simp add: r3_def)
    ultimately have written: "rtranclp (race_step pack_double) (?s r Resting) (?s r3 (Copying f ts {}))"
      by (rule converse_rtranclp_into_rtranclp)
    show ?thesis
    proof (cases "pack_into (entry_at ?i + 8) (pack_double ts) r3")
      case None
      then have "r' = r3" "res = Inl StructError" using run shape Some True by (auto simp: ring_publish_def Let_def r1 r3_def)
      then show ?thesis
        using step_then [OF written] race_stamp_refused [of "?s r3 (Copying f ts {})" f ts pack_double] None g3
        by (simp add: sent_entry_def)
    next
      case stamped: (Some r4)
      have g4: "now_slot r4 = ?i" "rg_seq r4 = Suc (rg_seq r)"
        using stamped g3 by (auto simp: pack_into_def now_slot_def split: if_splits)
      have "race_step pack_double (?s r3 (Copying f ts {})) (?s r4 (Stamped f))"
        using race_stamp [of "?s r3 (Copying f ts {})" f ts pack_double r4] stamped g3 by simp
      note done4 = step_then [OF written this]
      show ?thesis
      proof (cases "pack_seq ?i (2 * Suc (rg_seq r)) r4")
        case None
        then have "r' = r4" "res = Inl StructError" using run shape Some True stamped by (auto simp: ring_publish_def Let_def r1 r3_def)
        then show ?thesis
          using step_then [OF done4] race_even_refused [of "?s r4 (Stamped f)" f pack_double] None g4 by (simp add: sent_entry_def)
      next
        case five: (Some r5)
        have "frame_bytes r5 = frame_bytes r"
          using five stamped same_ring_geometry(1) [OF same2]
          by (auto simp: r3_def pack_seq_def pack_into_def frame_bytes_def split: if_splits)
        then have "r' = r5\<lparr>rg_written := rg_written r5 + frame_bytes r5\<rparr>" "sent_entry f res = Some (fr_bytes f)"
          using run shape Some True stamped five by (auto simp: ring_publish_def Let_def r1 r3_def sent_entry_def)
        then show ?thesis
          using step_then [OF done4] race_even [of "?s r4 (Stamped f)" f r5 pack_double] five g4 by simp
      qed
    qed
  qed
qed

lemma reading_runs:
  assumes "ring_ok r" "slot < rg_slots r" "m \<le> frame_bytes r"
  shows "rtranclp (race_step pack_double)
    \<lparr>rc_ring = r, rc_writer = w, rc_reader = Reading slot before {..<frame_bytes r} (replicate (frame_bytes r) 0), rc_sent = sent\<rparr>
    \<lparr>rc_ring = r, rc_writer = w, rc_reader = Reading slot before {m..<frame_bytes r}
       (take m (slot_bytes r slot) @ replicate (frame_bytes r - m) 0), rc_sent = sent\<rparr>"
  using assms(3)
proof (induction m)
  case 0
  then show ?case by (simp add: lessThan_atLeast0)
next
  case (Suc m)
  let ?buf = "\<lambda>m. take m (slot_bytes r slot) @ replicate (frame_bytes r - m) (0::byte)"
  let ?s = "\<lambda>m. \<lparr>rc_ring = r, rc_writer = w, rc_reader = Reading slot before {m..<frame_bytes r} (?buf m), rc_sent = sent\<rparr>"
  have len: "length (slot_bytes r slot) = frame_bytes r"
    using assms(1) slot_in_memory [OF assms(2)] by (simp add: slot_bytes_def ring_ok_def)
  have byte: "slot_bytes r slot ! m = rg_memory r ! (base_at r slot + m)"
    using assms(1) slot_in_memory [OF assms(2)] Suc.prems by (simp add: slot_bytes_def ring_ok_def nth_peek)
  have "(?buf m)[m := slot_bytes r slot ! m] = ?buf (Suc m)"
    using Suc.prems len by (intro nth_equalityI) (auto simp: nth_append nth_list_update min_def less_Suc_eq)
  moreover have "{m..<frame_bytes r} - {m} = {Suc m..<frame_bytes r}" by auto
  ultimately have "race_step pack_double (?s m) (?s (Suc m))"
    using race_copy [of "?s m" slot before "{m..<frame_bytes r}" "?buf m" m pack_double] Suc.prems byte by simp
  with Suc show ?case by (auto intro: step_then)
qed

lemma read_runs:
  assumes "ring_ok r" "slot < rg_slots r"
  shows "rtranclp (race_step pack_double) \<lparr>rc_ring = r, rc_writer = w, rc_reader = Waiting, rc_sent = sent\<rparr>
    \<lparr>rc_ring = r, rc_writer = w, rc_reader = Answered k (frame_read r slot k), rc_sent = sent\<rparr>"
proof -
  let ?before = "seq_word r slot" and ?s = "\<lambda>rd. \<lparr>rc_ring = r, rc_writer = w, rc_reader = rd, rc_sent = sent\<rparr>"
  have look: "race_step pack_double (?s Waiting) (?s (if ?before mod 2 = 1 \<or> ?before div 2 \<noteq> k then Answered k None
       else Reading slot ?before {..<frame_bytes r} (replicate (frame_bytes r) 0)))"
    using race_look [of "?s Waiting" 0 None slot ?before pack_double k] assms(2)
    by (cases "?before mod 2 = 1 \<or> ?before div 2 \<noteq> k") (simp_all split: if_splits)
  show ?thesis
  proof (cases "?before mod 2 = 1 \<or> ?before div 2 \<noteq> k")
    case True
    then show ?thesis using r_into_rtranclp [where r = "race_step pack_double", OF look] by (auto simp: frame_read_def Let_def)
  next
    case False
    have len: "length (slot_bytes r slot) = frame_bytes r"
      using assms(1) slot_in_memory [OF assms(2)] by (simp add: slot_bytes_def ring_ok_def)
    have "rtranclp (race_step pack_double) (?s (Reading slot ?before {..<frame_bytes r} (replicate (frame_bytes r) 0))) (?s (Reading slot ?before {} (slot_bytes r slot)))"
      using reading_runs [OF assms, of "frame_bytes r" pack_double w ?before sent] len by simp
    moreover have "race_step pack_double (?s (Reading slot ?before {} (slot_bytes r slot))) (?s (Answered k (Some (slot_bytes r slot))))"
      using race_check [of "?s (Reading slot ?before {} (slot_bytes r slot))" slot ?before "slot_bytes r slot" pack_double] False by simp
    moreover have "race_step pack_double (?s Waiting) (?s (Reading slot ?before {..<frame_bytes r} (replicate (frame_bytes r) 0)))"
      using look False by simp
    ultimately show ?thesis
      using False by (simp add: frame_read_def Let_def)
  qed
qed

text \<open>
  C1. A frame is never torn. However the byte stores of the broker and the byte loads of a consumer interleave, whichever publications
  raise on the way, a read that returns a copy returns exactly the bytes of the one frame that \<open>publish\<close> was given under the sequence number of
  the notice.
\<close>

theorem no_torn_frame:
  assumes "fresh_ring r" and "rtranclp (race_step pack_double) (race_start r) s" and "\<forall>t. length (pack_double t) = 8"
    and "rc_reader s = Answered k (Some buf)" and "0 < k"
  shows "k \<le> length (rc_sent s) \<and> rc_sent s ! (k - 1) = Some buf"
proof -
  have "rtranclp (\<lambda>s s'. race_step pack_double s s' \<and> (\<forall>t. length (pack_double t) = 8)) (race_start r) s"
    using assms(2) by (rule rtranclp_mono [THEN predicate2D, rotated]) (use assms(3) in blast)
  then have "race_ok s" using seqlock.reachable_inv assms(1) by blast
  then show ?thesis using assms(4,5) by (simp add: race_ok_def)
qed

definition tiny_ring :: ring where
  "tiny_ring = ring_init ''d'' ''c'' 1 1 1 2 7"

definition tiny_frame :: frame where
  "tiny_frame = \<lparr>fr_height = 1, fr_width = 1, fr_bytes = [10]\<rparr>"

definition tiny_after :: ring where
  "tiny_after = fst (ring_publish (\<lambda>_. replicate 8 0) tiny_ring tiny_frame 0)"

lemma tiny_published:
  "ring_publish (\<lambda>_. replicate 8 0) tiny_ring tiny_frame 0 = (tiny_after, Inr (1, 1))" "same_ring tiny_ring tiny_after"
  "frame_read tiny_after 1 1 = Some [10]" "ring_ok tiny_ring"
proof -
  let ?pd = "\<lambda>_ :: rat. replicate 8 (0 :: byte)"
  have ok: "ring_ok tiny_ring" "rg_slots tiny_ring = 2" "frame_fits tiny_ring tiny_frame"
    by (simp_all add: tiny_ring_def tiny_frame_def ring_init_def ring_ok_def ring_nbytes_def frame_bytes_def frame_fits_def)
  have holds: "ring_holds [] tiny_ring" using ring_init_ok [of 2] by (simp add: ring_holds_def tiny_ring_def)
  have after: "ring_holds [[10]] tiny_after" "same_ring tiny_ring tiny_after"
    using publish_holds [OF ok(1,3) _ _ holds, of ?pd 0] by (simp_all add: tiny_frame_def tiny_after_def)
  have "snd (ring_publish ?pd tiny_ring tiny_frame 0) = Inr (1, 1)"
    by (rule publish_effect [where ts = 0 and pack_double = ?pd, OF ok(1,3)])
      (simp_all add: tiny_ring_def ring_init_def next_slot_def)
  then show "ring_publish ?pd tiny_ring tiny_frame 0 = (tiny_after, Inr (1, 1))" by (simp add: tiny_after_def prod_eq_iff)
  show "same_ring tiny_ring tiny_after" "ring_ok tiny_ring" by fact+
  show "frame_read tiny_after 1 1 = Some [10]"
    using read_holds [OF after(1), of 1 1] ok by (simp add: same_ring_geometry [OF after(2)])
qed

definition tiny_end :: race where
  "tiny_end = \<lparr>rc_ring = tiny_after, rc_writer = Resting, rc_reader = Answered 1 (Some [10]), rc_sent = [Some [10]]\<rparr>"

lemma tiny_run: "rtranclp (race_step (\<lambda>_. replicate 8 0)) (race_start tiny_ring) tiny_end"
proof -
  let ?pd = "\<lambda>_ :: rat. replicate 8 (0 :: byte)"
  have shape: "fr_height tiny_frame = rg_height tiny_ring" "fr_width tiny_frame = rg_width tiny_ring"
    by (simp_all add: tiny_frame_def tiny_ring_def ring_init_def)
  have "rtranclp (race_step ?pd) (race_start tiny_ring) \<lparr>rc_ring = tiny_after, rc_writer = Resting, rc_reader = Waiting, rc_sent = [Some [10]]\<rparr>"
    using publish_runs [OF tiny_published(4) shape tiny_published(1), of Waiting "[]"] by (simp add: race_start_def sent_entry_def tiny_frame_def)
  moreover have "rtranclp (race_step ?pd) \<lparr>rc_ring = tiny_after, rc_writer = Resting, rc_reader = Waiting, rc_sent = [Some [10]]\<rparr>
    \<lparr>rc_ring = tiny_after, rc_writer = Resting, rc_reader = Answered 1 (frame_read tiny_after 1 1), rc_sent = [Some [10]]\<rparr>"
    using tiny_published(4) by (intro read_runs) (simp_all add: same_ring_geometry [OF tiny_published(2)] tiny_ring_def ring_init_def)
  ultimately show ?thesis unfolding tiny_end_def tiny_published(3) by (rule rtranclp_trans)
qed

theorem no_torn_frame_witness:
  "1 \<le> length (rc_sent tiny_end) \<and> rc_sent tiny_end ! (1 - 1) = Some [10]"
  by (rule no_torn_frame [OF _ tiny_run]) (auto simp: tiny_ring_def tiny_end_def intro: fresh_ringI)

lemma wide_ring_overlaps:
  \<comment> \<open>nothing bounds the number of slots: with more than 256 the entry of slot 256 is the head of the first frame, whose own word still says stable\<close>
  assumes "256 < rg_slots r" "8 \<le> frame_bytes r" "length (rg_memory r) = ring_nbytes r" "n < 2 ^ 64"
  shows "\<exists>r'. pack_seq 256 n r = Some r' \<and> slot_bytes r' 0 = nat_bytes 8 n @ drop 8 (slot_bytes r 0) \<and> seq_word r' 0 = seq_word r 0"
proof -
  let ?m = "put 4096 (nat_bytes 8 n) (rg_memory r)"
  have "8 \<le> rg_slots r * frame_bytes r" using assms(1,2) mult_le_mono [of 1 "rg_slots r" 8 "frame_bytes r"] by simp
  then have len: "4096 + 8 \<le> length (rg_memory r)" using assms(3) by (simp add: ring_nbytes_def ctrl_bytes_def)
  have "1 * frame_bytes r \<le> rg_slots r * frame_bytes r" using assms(1) by (intro mult_right_mono) auto
  then have fb: "4096 + frame_bytes r \<le> length (rg_memory r)" using assms(3) by (simp add: ring_nbytes_def ctrl_bytes_def)
  have "peek 4096 (frame_bytes r) ?m = nat_bytes 8 n @ drop 8 (peek 4096 (frame_bytes r) (rg_memory r))"
    using len fb assms(2) by (intro nth_equalityI) (auto simp: nth_peek nth_put nth_append)
  moreover have "peek 0 8 ?m = peek 0 8 (rg_memory r)" using len by (intro peek_put_apart) auto
  ultimately show ?thesis
    using len assms(4)
    by (auto simp: pack_seq_def pack_into_def entry_at_def ring_entry_def slot_bytes_def base_at_def ctrl_bytes_def frame_bytes_def seq_word_def)
qed

end
