(* ===== verification/Frame_Broker.thy ===== *)
theory Frame_Broker
  imports Frame_Ring
begin

text \<open>
  The frame broker and its consumers (\<open>src/services/frames/broker/{worker,notice,engine}.py\<close> and the \<open>BrokerSubscriber\<close> of
  \<open>src/services/analytics/analytics/frame_source.py\<close>).

  A camera's worker samples the stream, writes each sampled frame to the camera's ring, analyses it and publishes a notice; a subscriber
  takes notices in order, maps the ring of the notice's identity and delivers the frame it names. Files of the shared directory are
  inodes: unlinking removes the name, a mapping keeps the inode, and opening an existing name for writing truncates the inode it has.
  Redis, the stream, the clock and the motion analysis are arguments. One publication and one handling of a notice are atomic here; that
  they may overlap inside the ring is \<open>Frame_Ring\<close>.
\<close>

section \<open>Notices\<close>

record motion_block =
  mb_baseline_valid :: "bool option" \<comment> \<open>None: the key is absent\<close>
  mb_regions :: "(int \<times> int \<times> int \<times> int) list option option" \<comment> \<open>None: the key is absent; Some None: null\<close>

record notice =
  nt_camera :: string
  nt_ts :: epoch
  nt_seq :: nat
  nt_slot :: nat
  nt_shm :: path
  nt_width :: nat
  nt_height :: nat
  nt_channels :: nat
  nt_slots :: nat
  nt_epoch :: int
  nt_motion :: "motion_block option" \<comment> \<open>None: absent, null or empty\<close>

record publisher =
  pb_enabled :: bool
  pb_connected :: bool
  pb_last_attempt :: epoch
  pb_published :: nat
  pb_failed :: nat

definition notice_connect :: "epoch \<Rightarrow> bool \<Rightarrow> publisher \<Rightarrow> publisher" where
  \<comment> \<open>\<open>_connect\<close>: at most one attempt in 5 s\<close>
  "notice_connect now answers p =
     (if now - pb_last_attempt p < 5 then p else p\<lparr>pb_last_attempt := now, pb_connected := answers\<rparr>)"

definition publisher_init :: "bool \<Rightarrow> epoch \<Rightarrow> bool \<Rightarrow> publisher" where
  "publisher_init enabled now answers =
     (let p = \<lparr>pb_enabled = enabled, pb_connected = False, pb_last_attempt = 0, pb_published = 0, pb_failed = 0\<rparr>
      in if enabled then notice_connect now answers p else p)"

definition notice_publish :: "epoch \<Rightarrow> bool \<Rightarrow> bool \<Rightarrow> publisher \<Rightarrow> publisher \<times> bool" where
  \<comment> \<open>\<open>NoticePublisher.publish\<close>: whether it landed; a failed send drops the client\<close>
  "notice_publish now answers sends p =
     (if \<not> pb_enabled p then (p, False)
      else
        let q = (if pb_connected p then p else notice_connect now answers p)
        in if \<not> pb_connected q then (q\<lparr>pb_failed := pb_failed q + 1\<rparr>, False)
           else if sends then (q\<lparr>pb_published := pb_published q + 1\<rparr>, True)
           else (q\<lparr>pb_failed := pb_failed q + 1, pb_connected := False\<rparr>, False))"

definition build_notice :: "string \<Rightarrow> epoch \<Rightarrow> nat \<Rightarrow> nat \<Rightarrow> ring \<Rightarrow> motion_block \<Rightarrow> notice" where
  "build_notice camera ts seq slot r motion =
     \<lparr>nt_camera = camera, nt_ts = ts, nt_seq = seq, nt_slot = slot, nt_shm = rg_path r, nt_width = rg_width r, nt_height = rg_height r,
      nt_channels = rg_channels r, nt_slots = rg_slots r, nt_epoch = rg_epoch r, nt_motion = Some motion\<rparr>"

section \<open>The worker of a camera\<close>

record shm =
  sh_names :: "path \<Rightarrow> nat option" \<comment> \<open>the directory\<close>
  sh_files :: "nat \<Rightarrow> ring option" \<comment> \<open>per inode the ring that was last made on it\<close>

record capture_config =
  cc_sample_fps :: rat
  cc_ring_slots :: int
  cc_backoff_initial :: rat
  cc_backoff_max :: rat

datatype capture_state = Connecting | Streaming

record camera_worker =
  wk_camera :: string
  wk_url :: string
  wk_state :: capture_state
  wk_error :: "string option"
  wk_frames_published :: nat
  wk_frames_decoded :: nat
  wk_reconnects :: nat
  wk_last_frame_at :: "epoch option"
  wk_ring :: "nat option" \<comment> \<open>the inode its \<open>FrameRing\<close> maps\<close>
  wk_backoff :: rat
  wk_next_due :: epoch

definition worker_init :: "capture_config \<Rightarrow> string \<Rightarrow> string \<Rightarrow> camera_worker" where
  "worker_init cfg camera url =
     \<lparr>wk_camera = camera, wk_url = url, wk_state = Connecting, wk_error = None, wk_frames_published = 0, wk_frames_decoded = 0,
      wk_reconnects = 0, wk_last_frame_at = None, wk_ring = None, wk_backoff = cc_backoff_initial cfg, wk_next_due = 0\<rparr>"

definition open_ring :: "path \<Rightarrow> string \<Rightarrow> nat \<Rightarrow> nat \<Rightarrow> nat \<Rightarrow> int \<Rightarrow> int \<Rightarrow> nat \<Rightarrow> shm \<Rightarrow> shm \<times> nat" where
  \<comment> \<open>\<open>FrameRing.__init__\<close>: a name that exists is truncated in place, a new one gets a fresh inode\<close>
  "open_ring d camera w h ch slots time_ns inode sh =
     (let p = shm_path d camera; i = (case sh_names sh p of Some i \<Rightarrow> i | None \<Rightarrow> inode)
      in (sh\<lparr>sh_names := (sh_names sh)(p \<mapsto> i), sh_files := (sh_files sh)(i \<mapsto> ring_init d camera w h ch slots time_ns)\<rparr>, i))"

definition close_ring :: "nat \<Rightarrow> shm \<Rightarrow> shm" where
  \<comment> \<open>\<open>FrameRing.close\<close>: the name goes, whatever inode it has by now\<close>
  "close_ring i sh = (case sh_files sh i of None \<Rightarrow> sh | Some r \<Rightarrow> sh\<lparr>sh_names := (sh_names sh)(rg_path r := None)\<rparr>)"

definition ring_matches :: "shm \<Rightarrow> frame \<Rightarrow> nat option \<Rightarrow> bool" where
  "ring_matches sh f ring =
     (case ring of None \<Rightarrow> False
      | Some i \<Rightarrow> (case sh_files sh i of None \<Rightarrow> False | Some r \<Rightarrow> rg_width r = fr_width f \<and> rg_height r = fr_height f))"

definition ensure_ring :: "capture_config \<Rightarrow> path \<Rightarrow> frame \<Rightarrow> nat \<Rightarrow> int \<Rightarrow> nat \<Rightarrow> shm \<Rightarrow> camera_worker \<Rightarrow> shm \<times> camera_worker \<times> nat" where
  \<comment> \<open>\<open>_publish\<close> keeps a ring of the frame's size, \<open>_ensure_ring\<close> replaces any other\<close>
  "ensure_ring cfg d f ch time_ns inode sh w =
     (case wk_ring w of
        Some i \<Rightarrow>
          if ring_matches sh f (Some i) then (sh, w, i)
          else let (sh', j) = open_ring d (wk_camera w) (fr_width f) (fr_height f) ch (cc_ring_slots cfg) time_ns inode (close_ring i sh)
               in (sh', w\<lparr>wk_ring := Some j\<rparr>, j)
      | None \<Rightarrow>
          let (sh', j) = open_ring d (wk_camera w) (fr_width f) (fr_height f) ch (cc_ring_slots cfg) time_ns inode sh
          in (sh', w\<lparr>wk_ring := Some j\<rparr>, j))"

definition publish_frame :: "(rat \<Rightarrow> byte list) \<Rightarrow> capture_config \<Rightarrow> path \<Rightarrow> frame \<Rightarrow> nat \<Rightarrow> epoch \<Rightarrow> motion_block \<Rightarrow> int \<Rightarrow> nat \<Rightarrow> shm \<Rightarrow>
    camera_worker \<Rightarrow> shm \<times> camera_worker \<times> notice option" where
  \<comment> \<open>\<open>_publish\<close>: the frame into the ring, then the analysis, then the notice; an exception leaves no notice\<close>
  "publish_frame pack_double cfg d f ch ts motion time_ns inode sh w =
     (case ensure_ring cfg d f ch time_ns inode sh w of (sh1, w1, i) \<Rightarrow>
        (case sh_files sh1 i of
           None \<Rightarrow> (sh1, w1, None)
         | Some r \<Rightarrow>
             (case ring_publish pack_double r f ts of
                (r', Inl _) \<Rightarrow> (sh1\<lparr>sh_files := (sh_files sh1)(i \<mapsto> r')\<rparr>, w1, None)
              | (r', Inr (seq, slot)) \<Rightarrow>
                  (sh1\<lparr>sh_files := (sh_files sh1)(i \<mapsto> r')\<rparr>, w1\<lparr>wk_frames_published := wk_frames_published w1 + 1\<rparr>,
                   Some (build_notice (wk_camera w1) ts seq slot r' motion)))))"

definition worker_stop :: "shm \<Rightarrow> camera_worker \<Rightarrow> shm \<times> camera_worker" where
  "worker_stop sh w = (case wk_ring w of None \<Rightarrow> (sh, w) | Some i \<Rightarrow> (close_ring i sh, w\<lparr>wk_ring := None\<rparr>))"

datatype capture_event =
    Open bool \<comment> \<open>whether the stream opened\<close>
  | Grab_Failed
  | Grab epoch bool \<comment> \<open>the clock after a grab, and whether \<open>retrieve\<close> gave a frame\<close>

definition sample_interval :: "capture_config \<Rightarrow> rat" where
  "sample_interval cfg = (if cc_sample_fps cfg > 0 then 1 / cc_sample_fps cfg else 1 / 2)"

definition after_wait :: "capture_config \<Rightarrow> camera_worker \<Rightarrow> camera_worker" where
  \<comment> \<open>\<open>self._stop.wait(backoff)\<close> came back without a stop\<close>
  "after_wait cfg w = w\<lparr>wk_backoff := min (wk_backoff w * 2) (cc_backoff_max cfg)\<rparr>"

definition capture_event :: "capture_config \<Rightarrow> capture_event \<Rightarrow> camera_worker \<Rightarrow> camera_worker \<times> rat option \<times> bool" where
  \<comment> \<open>one turn of \<open>_run\<close>: the worker, how long it waits, and whether the frame grabbed now is sampled\<close>
  "capture_event cfg ev w =
     (case ev of
        Open False \<Rightarrow>
          (after_wait cfg (w\<lparr>wk_state := Connecting, wk_error := Some ''could not open stream''\<rparr>), Some (wk_backoff w), False)
      | Open True \<Rightarrow>
          (w\<lparr>wk_state := Streaming, wk_error := None, wk_backoff := cc_backoff_initial cfg, wk_next_due := 0\<rparr>, None, False)
      | Grab_Failed \<Rightarrow>
          (after_wait cfg (w\<lparr>wk_state := Connecting, wk_error := Some ''stream ended or read timed out'', wk_reconnects := wk_reconnects w + 1\<rparr>),
           Some (wk_backoff w), False)
      | Grab now got \<Rightarrow>
          if now < wk_next_due w \<or> \<not> got then (w, None, False)
          else (w\<lparr>wk_next_due := now + sample_interval cfg, wk_frames_decoded := wk_frames_decoded w + 1, wk_last_frame_at := Some now\<rparr>,
                None, True))"

section \<open>The registry of workers\<close>

type_synonym broker_engine = "(string, camera_worker) dict"

definition broker_add :: "capture_config \<Rightarrow> string \<Rightarrow> string \<Rightarrow> broker_engine \<Rightarrow> broker_engine option" where
  \<comment> \<open>None: \<open>KeyError\<close>\<close>
  "broker_add cfg camera url e =
     (if camera \<in> set (dict_keys e) then None else Some (AList.update camera (worker_init cfg camera url) e))"

definition broker_remove :: "string \<Rightarrow> shm \<Rightarrow> broker_engine \<Rightarrow> shm \<times> broker_engine \<times> bool" where
  "broker_remove camera sh e =
     (case map_of e camera of None \<Rightarrow> (sh, e, False) | Some w \<Rightarrow> (fst (worker_stop sh w), AList.delete camera e, True))"

definition broker_upsert :: "capture_config \<Rightarrow> string \<Rightarrow> string \<Rightarrow> shm \<Rightarrow> broker_engine \<Rightarrow> shm \<times> broker_engine option" where
  "broker_upsert cfg camera url sh e =
     (case map_of e camera of
        Some w \<Rightarrow>
          if wk_url w = url then (sh, Some e)
          else (case broker_remove camera sh e of (sh', e', _) \<Rightarrow> (sh', broker_add cfg camera url e'))
      | None \<Rightarrow> (sh, broker_add cfg camera url e))"

definition broker_shutdown :: "shm \<Rightarrow> broker_engine \<Rightarrow> shm \<times> broker_engine" where
  "broker_shutdown sh e = (fold (\<lambda>(_, w) sh. fst (worker_stop sh w)) e sh, [])"

section \<open>The subscriber\<close>

type_synonym ring_key = "nat \<times> nat \<times> nat \<times> nat \<times> int" \<comment> \<open>width, height, channels, slots, epoch\<close>

record subscriber =
  su_wanted :: "string set"
  su_every :: "string set"
  su_readers :: "string \<Rightarrow> (ring_key \<times> nat) option"
  su_notices_seen :: nat
  su_notices_ignored :: nat
  su_frames_delivered :: nat
  su_frames_refused :: nat
  su_frames_gated :: nat
  su_activity_delivered :: nat
  su_last_frame_at :: "epoch option"

datatype delivery =
    Discontinuity string
  | Gated_Frame string
  | Activity_Frame string "byte list" epoch
  | Search_Frame string "byte list" epoch "motion_block option"

datatype reader_result = Mapped nat | No_Ring | Map_Error

definition su_want :: "string \<Rightarrow> subscriber \<Rightarrow> subscriber" where
  "su_want slug su = su\<lparr>su_wanted := insert slug (su_wanted su)\<rparr>"

definition su_unwant :: "string \<Rightarrow> subscriber \<Rightarrow> subscriber" where
  \<comment> \<open>the mapping goes with the last of the two registrations\<close>
  "su_unwant slug su =
     su\<lparr>su_wanted := su_wanted su - {slug},
        su_readers := (if slug \<in> su_every su then su_readers su else (su_readers su)(slug := None))\<rparr>"

definition su_want_every :: "string \<Rightarrow> subscriber \<Rightarrow> subscriber" where
  "su_want_every slug su = su\<lparr>su_every := insert slug (su_every su)\<rparr>"

definition su_unwant_every :: "string \<Rightarrow> subscriber \<Rightarrow> subscriber" where
  "su_unwant_every slug su =
     su\<lparr>su_every := su_every su - {slug},
        su_readers := (if slug \<in> su_wanted su then su_readers su else (su_readers su)(slug := None))\<rparr>"

definition gated_out :: "motion_block option \<Rightarrow> bool" where
  "gated_out motion = (case motion of None \<Rightarrow> False | Some m \<Rightarrow> mb_regions m = Some None)"

definition notice_key :: "notice \<Rightarrow> ring_key" where
  "notice_key nt = (nt_width nt, nt_height nt, nt_channels nt, nt_slots nt, nt_epoch nt)"

definition reader_for :: "path \<Rightarrow> shm \<Rightarrow> string \<Rightarrow> ring_key \<Rightarrow> subscriber \<Rightarrow> subscriber \<times> reader_result" where
  \<comment> \<open>\<open>_reader_for\<close>: a mapping of the whole ring fails when the file is shorter\<close>
  "reader_for d sh slug key su =
     (case (case su_readers su slug of Some (k, i) \<Rightarrow> if k = key then Some i else None | None \<Rightarrow> None) of
        Some i \<Rightarrow> (su, Mapped i)
      | None \<Rightarrow>
          (case Option.bind (sh_names sh (shm_path d slug)) (\<lambda>j. map_option (Pair j) (sh_files sh j)) of
             None \<Rightarrow> (su, No_Ring)
           | Some (j, r) \<Rightarrow>
               (case key of (w, h, c, n, _) \<Rightarrow>
                  if ctrl_bytes + n * (w * h * c) \<le> length (rg_memory r)
                  then (su\<lparr>su_readers := (su_readers su)(slug \<mapsto> (key, j))\<rparr>, Mapped j) else (su, Map_Error))))"

definition reader_view :: "ring_key \<Rightarrow> ring \<Rightarrow> ring" where
  \<comment> \<open>the file as a \<open>FrameReader\<close> of that geometry sees it\<close>
  "reader_view key r = (case key of (w, h, c, n, _) \<Rightarrow> r\<lparr>rg_width := w, rg_height := h, rg_channels := c, rg_slots := n\<rparr>)"

definition note_gated :: "string \<Rightarrow> subscriber \<times> delivery list \<Rightarrow> subscriber \<times> delivery list" where
  "note_gated slug p = ((fst p)\<lparr>su_frames_gated := su_frames_gated (fst p) + 1\<rparr>, snd p @ [Gated_Frame slug])"

definition deliver_frame :: "string \<Rightarrow> bool \<Rightarrow> bool \<Rightarrow> notice \<Rightarrow> byte list \<Rightarrow> subscriber \<times> delivery list \<Rightarrow> subscriber \<times> delivery list" where
  \<comment> \<open>the tail of \<open>_handle\<close>, once a frame is read\<close>
  "deliver_frame slug search every nt buf p =
     (let p1 = (if every then ((fst p)\<lparr>su_activity_delivered := su_activity_delivered (fst p) + 1\<rparr>,
                               snd p @ [Activity_Frame slug buf (nt_ts nt)]) else p)
      in if \<not> search then p1
         else if gated_out (nt_motion nt) then note_gated slug p1
         else ((fst p1)\<lparr>su_frames_delivered := su_frames_delivered (fst p1) + 1\<rparr>,
               snd p1 @ [Search_Frame slug buf (nt_ts nt) (nt_motion nt)]))"

definition handle_read :: "path \<Rightarrow> shm \<Rightarrow> bool \<Rightarrow> bool \<Rightarrow> notice \<Rightarrow> subscriber \<times> delivery list \<Rightarrow> subscriber \<times> delivery list" where
  \<comment> \<open>the rest of \<open>_handle\<close>, from \<open>_reader_for\<close> on; a mapping that raises ends the handling\<close>
  "handle_read d sh search every nt p =
     (case reader_for d sh (nt_camera nt) (notice_key nt) (fst p) of (su, res) \<Rightarrow>
        (case res of
           Mapped i \<Rightarrow>
             (case Option.bind (sh_files sh i) (\<lambda>r. frame_read (reader_view (notice_key nt) r) (nt_slot nt) (nt_seq nt)) of
                None \<Rightarrow> (su\<lparr>su_frames_refused := su_frames_refused su + 1\<rparr>, snd p)
              | Some buf \<Rightarrow> deliver_frame (nt_camera nt) search every nt buf (su, snd p))
         | _ \<Rightarrow> (su, snd p)))"

definition handle_notice :: "path \<Rightarrow> bool \<Rightarrow> bool \<Rightarrow> epoch \<Rightarrow> shm \<Rightarrow> notice \<Rightarrow> subscriber \<Rightarrow> subscriber \<times> delivery list" where
  \<comment> \<open>\<open>_handle\<close>; the two flags say which callbacks are set\<close>
  "handle_notice d has_activity has_reset now sh nt su =
     (let slug = nt_camera nt; su1 = su\<lparr>su_notices_seen := su_notices_seen su + 1\<rparr>;
          search = (slug \<in> su_wanted su); every = (slug \<in> su_every su \<and> has_activity)
      in if \<not> (search \<or> every) then (su1\<lparr>su_notices_ignored := su_notices_ignored su1 + 1\<rparr>, [])
         else
           let p = (su1\<lparr>su_last_frame_at := Some now\<rparr>,
                    if has_reset \<and> Option.bind (nt_motion nt) mb_baseline_valid = Some False then [Discontinuity slug] else [])
           in if gated_out (nt_motion nt) \<and> \<not> every then note_gated slug p else handle_read d sh search every nt p)"

section \<open>The sampling rate\<close>

primrec sampled_at :: "capture_config \<Rightarrow> capture_event list \<Rightarrow> camera_worker \<Rightarrow> epoch list" where
  \<comment> \<open>when the frames that go on to \<open>_publish\<close> were grabbed\<close>
  "sampled_at cfg [] w = []"
| "sampled_at cfg (ev # evs) w =
     (case capture_event cfg ev w of (w', _, True) \<Rightarrow> (case ev of Grab now _ \<Rightarrow> now # sampled_at cfg evs w' | _ \<Rightarrow> sampled_at cfg evs w')
      | (w', _, False) \<Rightarrow> sampled_at cfg evs w')"

definition same_session :: "capture_event \<Rightarrow> bool" where
  "same_session ev = (case ev of Grab _ _ \<Rightarrow> True | _ \<Rightarrow> False)"

lemma sampled_from:
  assumes "\<forall>ev \<in> set evs. same_session ev"
  shows "sorted_wrt (\<lambda>a b. a + sample_interval cfg \<le> b) (sampled_at cfg evs w) \<and> (\<forall>t \<in> set (sampled_at cfg evs w). wk_next_due w \<le> t)"
  using assms
proof (induction evs arbitrary: w)
  case (Cons ev evs)
  obtain now got where ev: "ev = Grab now got" using Cons.prems by (cases ev) (auto simp: same_session_def)
  have pos: "0 < sample_interval cfg" by (simp add: sample_interval_def)
  show ?case
  proof (cases "now < wk_next_due w \<or> \<not> got")
    case True
    then show ?thesis using Cons by (simp add: ev capture_event_def)
  next
    case False
    let ?w = "w\<lparr>wk_next_due := now + sample_interval cfg, wk_frames_decoded := wk_frames_decoded w + 1, wk_last_frame_at := Some now\<rparr>"
    have "sorted_wrt (\<lambda>a b. a + sample_interval cfg \<le> b) (sampled_at cfg evs ?w) \<and> (\<forall>t \<in> set (sampled_at cfg evs ?w). wk_next_due ?w \<le> t)"
      using Cons.IH [of ?w] Cons.prems by simp
    then show ?thesis using False pos by (fastforce simp: ev capture_event_def)
  qed
qed simp

section \<open>The broker and a subscriber as one system\<close>

record plant =
  pl_shm :: shm
  pl_workers :: "string \<Rightarrow> camera_worker option"
  pl_queue :: "notice list"
  pl_sub :: subscriber
  pl_sent :: "nat \<Rightarrow> byte list option list" \<comment> \<open>per inode, what its present ring was given\<close>
  pl_given :: "(int \<times> nat \<times> byte list \<times> epoch) list" \<comment> \<open>epoch of the ring, sequence number, frame, time, of every publication\<close>
  pl_delivered :: "(int \<times> notice \<times> byte list) list" \<comment> \<open>epoch of the ring read, notice, frame\<close>

definition mapped_epoch :: "shm \<Rightarrow> (ring_key \<times> nat) option \<Rightarrow> int option" where
  "mapped_epoch sh entry = Option.bind entry (\<lambda>(_, i). map_option rg_epoch (sh_files sh i))"

fun frames_in :: "delivery list \<Rightarrow> byte list list" where
  "frames_in [] = []"
| "frames_in (Activity_Frame _ b _ # ds) = b # frames_in ds"
| "frames_in (Search_Frame _ b _ _ # ds) = b # frames_in ds"
| "frames_in (Discontinuity _ # ds) = frames_in ds"
| "frames_in (Gated_Frame _ # ds) = frames_in ds"

definition handled :: "path \<Rightarrow> bool \<Rightarrow> bool \<Rightarrow> epoch \<Rightarrow> notice \<Rightarrow> plant \<Rightarrow> plant" where
  "handled d has_activity has_reset now nt s =
     (case handle_notice d has_activity has_reset now (pl_shm s) nt (pl_sub s) of (su, ds) \<Rightarrow>
        s\<lparr>pl_sub := su,
          pl_delivered := pl_delivered s @
            (case mapped_epoch (pl_shm s) (su_readers su (nt_camera nt)) of
               None \<Rightarrow> [] | Some e \<Rightarrow> map (\<lambda>b. (e, nt, b)) (frames_in ds))\<rparr>)"

inductive plant_step :: "(rat \<Rightarrow> byte list) \<Rightarrow> capture_config \<Rightarrow> path \<Rightarrow> plant \<Rightarrow> plant \<Rightarrow> bool" for pack_double cfg d where
  add: "pl_workers s camera = None \<Longrightarrow> plant_step pack_double cfg d s (s\<lparr>pl_workers := (pl_workers s)(camera \<mapsto> worker_init cfg camera url)\<rparr>)"
| publish: "pl_workers s camera = Some w \<Longrightarrow> sh_files (pl_shm s) inode = None \<Longrightarrow> (\<forall>p \<in> set (pl_given s). fst p < time_ns) \<Longrightarrow>
    (\<forall>i r. sh_files (pl_shm s) i = Some r \<longrightarrow> rg_epoch r < time_ns) \<Longrightarrow>
    ensure_ring cfg d f ch time_ns inode (pl_shm s) w = (sh1, w1, i) \<Longrightarrow> sh_files sh1 i = Some r \<Longrightarrow>
    sent = (if ring_matches (pl_shm s) f (wk_ring w) then pl_sent s i else []) \<Longrightarrow>
    ring_publish pack_double r f ts = (r', res) \<Longrightarrow>
    publish_frame pack_double cfg d f ch ts motion time_ns inode (pl_shm s) w = (sh2, w2, note) \<Longrightarrow>
    plant_step pack_double cfg d s
      (s\<lparr>pl_shm := sh2, pl_workers := (pl_workers s)(camera \<mapsto> w2), pl_sent := (pl_sent s)(i := sent @ [sent_entry f res]),
         pl_given := (case res of Inr (seq, _) \<Rightarrow> (rg_epoch r, seq, fr_bytes f, ts) # pl_given s | Inl _ \<Rightarrow> pl_given s),
         pl_queue := pl_queue s @ (case note of None \<Rightarrow> [] | Some nt \<Rightarrow> if lands then [nt] else [])\<rparr>)"
| stop: "pl_workers s camera = Some w \<Longrightarrow> plant_step pack_double cfg d s
      (s\<lparr>pl_shm := fst (worker_stop (pl_shm s) w), pl_workers := (pl_workers s)(camera := None)\<rparr>)"
| crash: "plant_step pack_double cfg d s (s\<lparr>pl_workers := \<lambda>_. None\<rparr>)"
| lose: "pl_queue s = before @ nt # after \<Longrightarrow> plant_step pack_double cfg d s (s\<lparr>pl_queue := before @ after\<rparr>)"
| deliver: "pl_queue s = nt # rest \<Longrightarrow> plant_step pack_double cfg d s (handled d has_activity has_reset now nt (s\<lparr>pl_queue := rest\<rparr>))"
| register: "su \<in> {su_want slug (pl_sub s), su_unwant slug (pl_sub s), su_want_every slug (pl_sub s), su_unwant_every slug (pl_sub s)} \<Longrightarrow>
    plant_step pack_double cfg d s (s\<lparr>pl_sub := su\<rparr>)"

lemma publish_fields:
  assumes "ring_publish pack_double r f ts = (r', res)"
  shows "rg_path r' = rg_path r" "rg_width r' = rg_width r" "rg_height r' = rg_height r" "rg_channels r' = rg_channels r"
    "rg_slots r' = rg_slots r" "rg_epoch r' = rg_epoch r" "res = Inr (seq, slot) \<Longrightarrow> seq = Suc (rg_seq r) \<and> slot = next_slot r \<and> rg_seq r' = seq"
    "rg_seq r \<le> rg_seq r'"
  using assms by (auto simp: ring_publish_def pack_seq_def pack_into_def Let_def split: if_splits option.splits)

lemma publish_race_ok:
  assumes "ring_publish pack_double r f ts = (r', res)" "ring_ok r" "words_ok r sent" "length sent = rg_seq r"
    and "fr_height f = rg_height r" "fr_width f = rg_width r" and dbl: "\<And>t. length (pack_double t) = 8"
  shows "ring_ok r' \<and> words_ok r' (sent @ [sent_entry f res]) \<and> rg_seq r' = Suc (length sent)"
proof -
  let ?s = "\<lparr>rc_ring = r, rc_writer = Resting, rc_reader = Waiting, rc_sent = sent\<rparr>"
  let ?t = "\<lparr>rc_ring = r', rc_writer = Resting, rc_reader = Waiting, rc_sent = sent @ [sent_entry f res]\<rparr>"
  have "rtranclp (race_step pack_double) ?s ?t" using publish_runs [OF assms(2,5,6,1)] .
  moreover have "race_ok ?s" using assms(2-4) by (simp add: race_ok_def)
  ultimately have "race_ok ?t" by (induction rule: rtranclp_induct) (use race_step_keeps dbl in auto)
  then show ?thesis by (simp add: race_ok_def)
qed

lemma ensure_ring_cases:
  assumes "ensure_ring cfg d f ch time_ns inode sh w = (sh1, w1, i)"
  obtains "ring_matches sh f (Some i)" "sh1 = sh" "w1 = w" "wk_ring w = Some i"
  | "\<not> ring_matches sh f (wk_ring w)" "wk_ring w1 = Some i" "wk_camera w1 = wk_camera w"
    "sh_files sh1 = (sh_files sh)(i \<mapsto> ring_init d (wk_camera w) (fr_width f) (fr_height f) ch (cc_ring_slots cfg) time_ns)"
proof (cases "ring_matches sh f (wk_ring w)")
  case True
  then obtain j where j: "wk_ring w = Some j" by (cases "wk_ring w") (simp_all add: ring_matches_def)
  then have "ensure_ring cfg d f ch time_ns inode sh w = (sh, w, j)" using True by (simp add: ensure_ring_def)
  then show ?thesis using assms that(1) True j by simp
next
  case False
  have opens: "sh_files (fst (open_ring d c wd h ch n t i' sh')) = (sh_files sh')(snd (open_ring d c wd h ch n t i' sh') \<mapsto> ring_init d c wd h ch n t)" for c wd h n t i' sh'
    by (simp add: open_ring_def Let_def)
  have closes: "sh_files (close_ring j sh) = sh_files sh" for j by (simp add: close_ring_def split: option.splits)
  show ?thesis
  proof (rule that(2) [OF False])
    show "wk_ring w1 = Some i" "wk_camera w1 = wk_camera w"
      using assms False by (auto simp: ensure_ring_def split: option.splits prod.splits if_splits)
    show "sh_files sh1 = (sh_files sh)(i \<mapsto> ring_init d (wk_camera w) (fr_width f) (fr_height f) ch (cc_ring_slots cfg) time_ns)"
    proof (cases "wk_ring w")
      case None
      then show ?thesis using assms opens [of "wk_camera w" "fr_width f" "fr_height f" "cc_ring_slots cfg" time_ns inode sh]
        by (auto simp: ensure_ring_def split: prod.splits)
    next
      case (Some j)
      then show ?thesis using assms False opens [of "wk_camera w" "fr_width f" "fr_height f" "cc_ring_slots cfg" time_ns inode "close_ring j sh"]
        by (auto simp: ensure_ring_def closes split: prod.splits)
    qed
  qed
qed

definition same_geometry :: "notice \<Rightarrow> ring \<Rightarrow> bool" where
  "same_geometry nt r \<longleftrightarrow> rg_width r = nt_width nt \<and> rg_height r = nt_height nt \<and> rg_channels r = nt_channels nt \<and> rg_slots r = nt_slots nt"

definition file_ok :: "ring \<Rightarrow> byte list option list \<Rightarrow> (int \<times> nat \<times> byte list \<times> epoch) list \<Rightarrow> bool" where
  "file_ok r sent given \<longleftrightarrow> ring_ok r \<and> words_ok r sent \<and> length sent = rg_seq r \<and>
     (\<forall>k b. 0 < k \<longrightarrow> k \<le> rg_seq r \<longrightarrow> sent ! (k - 1) = Some b \<longrightarrow> (\<exists>ts. (rg_epoch r, k, b, ts) \<in> set given)) \<and>
     (\<forall>k b ts. (rg_epoch r, k, b, ts) \<in> set given \<longrightarrow> k \<le> rg_seq r)"

definition files_ok :: "(nat \<Rightarrow> ring option) \<Rightarrow> (nat \<Rightarrow> byte list option list) \<Rightarrow> (int \<times> nat \<times> byte list \<times> epoch) list \<Rightarrow> bool" where
  "files_ok files sent given \<longleftrightarrow> (\<forall>i r. files i = Some r \<longrightarrow> file_ok r (sent i) given)"

lemma file_ok_more:
  assumes "file_ok r sent given" "set given \<subseteq> set given'" "\<And>k b t. (rg_epoch r, k, b, t) \<in> set given' \<Longrightarrow> (rg_epoch r, k, b, t) \<in> set given"
  shows "file_ok r sent given'"
proof -
  have "\<exists>ts. (rg_epoch r, k, b, ts) \<in> set given'" if "0 < k" "k \<le> rg_seq r" "sent ! (k - 1) = Some b" for k b
    using assms(1,2) that unfolding file_ok_def by blast
  moreover have "k \<le> rg_seq r" if "(rg_epoch r, k, b, t) \<in> set given'" for k b t
    using assms(1) assms(3) [OF that] unfolding file_ok_def by blast
  ultimately show ?thesis using assms(1) unfolding file_ok_def by blast
qed

definition epochs_apart :: "(nat \<Rightarrow> ring option) \<Rightarrow> bool" where
  "epochs_apart files \<longleftrightarrow> (\<forall>i j r r'. files i = Some r \<longrightarrow> files j = Some r' \<longrightarrow> rg_epoch r = rg_epoch r' \<longrightarrow> i = j)"

definition given_once :: "(int \<times> nat \<times> byte list \<times> epoch) list \<Rightarrow> bool" where
  "given_once given \<longleftrightarrow> (\<forall>e k b t b' t'. (e, k, b, t) \<in> set given \<longrightarrow> (e, k, b', t') \<in> set given \<longrightarrow> b = b' \<and> t = t')"

definition notice_ok :: "(nat \<Rightarrow> ring option) \<Rightarrow> (int \<times> nat \<times> byte list \<times> epoch) list \<Rightarrow> notice \<Rightarrow> bool" where
  "notice_ok files given nt \<longleftrightarrow> (\<exists>b. (nt_epoch nt, nt_seq nt, b, nt_ts nt) \<in> set given) \<and> 0 < nt_seq nt \<and> nt_slot nt < nt_slots nt \<and>
     (\<forall>i r. files i = Some r \<longrightarrow> rg_epoch r = nt_epoch nt \<longrightarrow> same_geometry nt r)"

definition delivery_ok :: "(int \<times> nat \<times> byte list \<times> epoch) list \<Rightarrow> int \<times> notice \<times> byte list \<Rightarrow> bool" where
  "delivery_ok given x \<longleftrightarrow> (case x of (e, nt, b) \<Rightarrow> e = nt_epoch nt \<longrightarrow> (nt_epoch nt, nt_seq nt, b, nt_ts nt) \<in> set given)"

definition plant_ok :: "plant \<Rightarrow> bool" where
  "plant_ok s \<longleftrightarrow> files_ok (sh_files (pl_shm s)) (pl_sent s) (pl_given s) \<and> epochs_apart (sh_files (pl_shm s)) \<and> given_once (pl_given s) \<and>
     (\<forall>nt \<in> set (pl_queue s). notice_ok (sh_files (pl_shm s)) (pl_given s) nt) \<and> (\<forall>x \<in> set (pl_delivered s). delivery_ok (pl_given s) x)"

lemma fresh_ring_files:
  \<comment> \<open>a new ring on any inode, with an epoch later than all others\<close>
  fixes i w h ch :: nat and d :: path and camera :: string
  assumes "files_ok files sent given" "epochs_apart files" "\<forall>p \<in> set given. fst p < t" "\<forall>i r. files i = Some r \<longrightarrow> rg_epoch r < t" "slots \<le> 256"
  defines "files' \<equiv> files(i \<mapsto> ring_init d camera w h ch slots t)"
  shows "files_ok files' (sent(i := [])) given" "epochs_apart files'" "notice_ok files given nt \<Longrightarrow> notice_ok files' given nt"
proof -
  let ?r = "ring_init d camera w h ch slots t"
  have r: "ring_ok ?r" "rg_seq ?r = 0" "words_ok ?r []" "rg_epoch ?r = t"
    using ring_init_ok [OF assms(5)] by (auto simp: words_ok_def ring_init_def Let_def)
  show "files_ok files' (sent(i := [])) given"
    using assms(1,3) r by (fastforce simp: files_ok_def file_ok_def files'_def)
  show "epochs_apart files'"
    using assms(2,4) r by (fastforce simp: epochs_apart_def files'_def)
  show "notice_ok files' given nt" if "notice_ok files given nt"
    using that assms(3) r by (fastforce simp: notice_ok_def files'_def)
qed

lemma published_files:
  assumes run: "ring_publish pack_double r f ts = (r', res)" and r: "files i = Some r" "fr_height f = rg_height r" "fr_width f = rg_width r"
    and ok: "files_ok files sent given" "epochs_apart files" "given_once given" and dbl: "\<And>t. length (pack_double t) = 8"
  defines "given' \<equiv> (case res of Inr (seq, _) \<Rightarrow> (rg_epoch r, seq, fr_bytes f, ts) # given | Inl _ \<Rightarrow> given)"
    and "sent' \<equiv> sent(i := sent i @ [sent_entry f res])" and "files' \<equiv> files(i \<mapsto> r')"
  shows "files_ok files' sent' given'" "epochs_apart files'" "given_once given'" "notice_ok files given nt \<Longrightarrow> notice_ok files' given' nt"
    "delivery_ok given x \<Longrightarrow> delivery_ok given' x"
    "res = Inr (seq, slot) \<Longrightarrow> notice_ok files' given' (build_notice camera ts seq slot r' motion)"
proof -
  note fields = publish_fields [OF run]
  have old: "ring_ok r" "words_ok r (sent i)" "length (sent i) = rg_seq r"
    "\<And>k b. 0 < k \<Longrightarrow> k \<le> rg_seq r \<Longrightarrow> sent i ! (k - 1) = Some b \<Longrightarrow> \<exists>ts. (rg_epoch r, k, b, ts) \<in> set given"
    "\<And>k b ts. (rg_epoch r, k, b, ts) \<in> set given \<Longrightarrow> k \<le> rg_seq r"
    using ok(1) r(1) unfolding files_ok_def file_ok_def by blast+
  have new: "ring_ok r'" "words_ok r' (sent' i)" "rg_seq r' = Suc (rg_seq r)" "length (sent' i) = rg_seq r'"
    using publish_race_ok [OF run old(1-3) r(2,3) dbl] old(3) by (simp_all add: sent'_def)
  have more: "set given \<subseteq> set given'" by (auto simp: given'_def split: sum.splits)
  have only: "x \<in> set given \<or> (\<exists>slot. res = Inr (Suc (rg_seq r), slot) \<and> x = (rg_epoch r, Suc (rg_seq r), fr_bytes f, ts))" if "x \<in> set given'" for x
    using that publish_fields(7) [OF run] by (cases res) (auto simp: given'_def)
  have apart: "rg_epoch q \<noteq> rg_epoch r" if "files j = Some q" "j \<noteq> i" for j q
    using ok(2) r(1) that unfolding epochs_apart_def by blast
  have here: "\<exists>ts. (rg_epoch r', k, b, ts) \<in> set given'" if k: "0 < k" "k \<le> rg_seq r'" "sent' i ! (k - 1) = Some b" for k b
  proof (cases "k \<le> rg_seq r")
    case True
    then have "k - 1 < length (sent i)" using k(1) old(3) by linarith
    then have "sent i ! (k - 1) = Some b" using k(3) by (simp add: sent'_def nth_append)
    then obtain t where "(rg_epoch r, k, b, t) \<in> set given" using old(4) [OF k(1) True, of b] by blast
    then show ?thesis using more fields(6) by auto
  next
    case False
    then have "k = Suc (length (sent i))" using k(2) new(3) old(3) by simp
    then have "sent_entry f res = Some b" using k(3) by (simp add: sent'_def nth_append)
    then obtain seq slot where res: "res = Inr (seq, slot)" "b = fr_bytes f" by (auto simp: sent_entry_def split: sum.splits)
    have "seq = Suc (rg_seq r)" using publish_fields(7) [OF run res(1)] by blast
    moreover have "k = Suc (rg_seq r)" using k(2) False unfolding new(3) by linarith
    ultimately show ?thesis using res fields(6) by (auto simp: given'_def)
  qed
  have "k \<le> rg_seq r'" if "(rg_epoch r', k, b, t) \<in> set given'" for k b t
    using only [OF that] old(5) fields(6) new(3) by (fastforce intro: le_SucI)
  then have "file_ok r' (sent' i) given'" using new here unfolding file_ok_def by blast
  moreover have "file_ok q (sent j) given'" if j: "files j = Some q" "j \<noteq> i" for j q
  proof (rule file_ok_more [OF _ more])
    show "file_ok q (sent j) given" using ok(1) j(1) by (simp add: files_ok_def)
    show "(rg_epoch q, k, b, t) \<in> set given" if "(rg_epoch q, k, b, t) \<in> set given'" for k b t
      using only [OF that] apart [OF j] by auto
  qed
  ultimately show "files_ok files' sent' given'" by (auto simp: files_ok_def files'_def sent'_def)
  show "epochs_apart files'" using ok(2) r(1) fields(6) unfolding epochs_apart_def files'_def by (metis fun_upd_apply option.inject)
  show "given_once given'" unfolding given_once_def
  proof (intro allI impI)
    fix e k b t b' t' assume x: "(e, k, b, t) \<in> set given'" "(e, k, b', t') \<in> set given'"
    have no: "(rg_epoch r, Suc (rg_seq r), c, u) \<notin> set given" for c u using old(5) by fastforce
    show "b = b' \<and> t = t'" using only [OF x(1)] only [OF x(2)] no ok(3) unfolding given_once_def by blast
  qed
  show "notice_ok files' given' nt" if "notice_ok files given nt"
    using that more r(1) fields(2-6) by (fastforce simp: notice_ok_def files'_def same_geometry_def)
  show "delivery_ok given' x" if "delivery_ok given x" using that more by (auto simp: delivery_ok_def split: prod.splits)
  show "notice_ok files' given' (build_notice camera ts seq slot r' motion)" if res: "res = Inr (seq, slot)"
    using res fields(1-6) fields(7) [OF res] next_slot_less [OF old(1)] apart
    by (auto simp: notice_ok_def files'_def build_notice_def same_geometry_def given'_def split: if_splits)
qed

lemma read_words:
  assumes "words_ok r sent" "slot < rg_slots r" "frame_read r slot k = Some b" "0 < k"
  shows "k \<le> length sent \<and> sent ! (k - 1) = Some b"
proof -
  have "\<not> (seq_word r slot mod 2 = 1 \<or> seq_word r slot div 2 \<noteq> k)" "b = slot_bytes r slot"
    using assms(3) by (auto simp: frame_read_def Let_def split: if_splits)
  then have "seq_word r slot = 2 * k" "b = slot_bytes r slot" by presburger+
  then show ?thesis using assms(1,2,4) unfolding words_ok_def by blast
qed

lemma reader_for_mapped:
  assumes "reader_for d sh slug key su = (su', Mapped i)"
  shows "su_readers su' slug = Some (key, i)"
  using assms by (auto simp: reader_for_def split: option.splits if_splits prod.splits)

lemma frames_in_append [simp]: "frames_in (xs @ ys) = frames_in xs @ frames_in ys"
  by (induction xs rule: frames_in.induct) auto

lemma deliver_frame_keeps:
  assumes "deliver_frame slug search every nt buf p = (su, ds)"
  shows "su_readers su = su_readers (fst p)" "x \<in> set (frames_in ds) \<Longrightarrow> x = buf \<or> x \<in> set (frames_in (snd p))"
  using assms by (auto simp: deliver_frame_def note_gated_def Let_def split: if_splits)

lemma read_frames:
  assumes run: "handle_read d sh search every nt p = (su', ds)" and b: "b \<in> set (frames_in ds)" and none: "frames_in (snd p) = []"
  shows "\<exists>i r. su_readers su' (nt_camera nt) = Some (notice_key nt, i) \<and> sh_files sh i = Some r \<and>
    frame_read (reader_view (notice_key nt) r) (nt_slot nt) (nt_seq nt) = Some b"
proof -
  obtain su res where rf: "reader_for d sh (nt_camera nt) (notice_key nt) (fst p) = (su, res)"
    by (cases "reader_for d sh (nt_camera nt) (notice_key nt) (fst p)")
  obtain i where i: "res = Mapped i" using run b none rf by (cases res) (auto simp: handle_read_def)
  obtain r buf where r: "sh_files sh i = Some r" "frame_read (reader_view (notice_key nt) r) (nt_slot nt) (nt_seq nt) = Some buf"
    and del: "deliver_frame (nt_camera nt) search every nt buf (su, snd p) = (su', ds)"
    using run rf i b none by (auto simp: handle_read_def bind_eq_Some_conv split: option.splits)
  show ?thesis
    using r reader_for_mapped [of d sh "nt_camera nt" "notice_key nt" "fst p" su i] rf i deliver_frame_keeps [OF del] b none by auto
qed

lemma handle_frames:
  assumes "handle_notice d has_activity has_reset now sh nt su = (su', ds)" "b \<in> set (frames_in ds)"
  shows "\<exists>i r. su_readers su' (nt_camera nt) = Some (notice_key nt, i) \<and> sh_files sh i = Some r \<and>
    frame_read (reader_view (notice_key nt) r) (nt_slot nt) (nt_seq nt) = Some b"
  using assms read_frames
  by (fastforce simp: handle_notice_def note_gated_def Let_def split: if_splits)

lemma handled_ok:
  assumes ok: "plant_ok s" and nt: "notice_ok (sh_files (pl_shm s)) (pl_given s) nt"
  shows "plant_ok (handled d has_activity has_reset now nt s)"
proof -
  obtain su ds where run: "handle_notice d has_activity has_reset now (pl_shm s) nt (pl_sub s) = (su, ds)"
    by (cases "handle_notice d has_activity has_reset now (pl_shm s) nt (pl_sub s)")
  have "delivery_ok (pl_given s) (e, nt, b)"
    if x: "mapped_epoch (pl_shm s) (su_readers su (nt_camera nt)) = Some e" "b \<in> set (frames_in ds)" for e b
    unfolding delivery_ok_def split
  proof
    assume e: "e = nt_epoch nt"
    obtain i r where r: "su_readers su (nt_camera nt) = Some (notice_key nt, i)" "sh_files (pl_shm s) i = Some r"
      "frame_read (reader_view (notice_key nt) r) (nt_slot nt) (nt_seq nt) = Some b"
      using handle_frames [OF run x(2)] by blast
    have epoch: "rg_epoch r = nt_epoch nt" using x(1) r e by (simp add: mapped_epoch_def)
    then have geo: "same_geometry nt r" using nt r(2) by (auto simp: notice_ok_def)
    then have "reader_view (notice_key nt) r = r" by (simp add: reader_view_def notice_key_def same_geometry_def)
    then have read: "frame_read r (nt_slot nt) (nt_seq nt) = Some b" using r(3) by simp
    have fok: "file_ok r (pl_sent s i) (pl_given s)" using ok r(2) by (simp add: plant_ok_def files_ok_def)
    have k: "0 < nt_seq nt" "nt_slot nt < rg_slots r" using nt geo by (simp_all add: notice_ok_def same_geometry_def)
    have "words_ok r (pl_sent s i)" and len: "length (pl_sent s i) = rg_seq r" using fok by (simp_all add: file_ok_def)
    then have "nt_seq nt \<le> rg_seq r" "pl_sent s i ! (nt_seq nt - 1) = Some b" using read_words [where sent = "pl_sent s i", OF _ k(2) read k(1)] by auto
    then have "\<exists>t. (rg_epoch r, nt_seq nt, b, t) \<in> set (pl_given s)" using fok k(1) unfolding file_ok_def by blast
    then obtain t where t: "(nt_epoch nt, nt_seq nt, b, t) \<in> set (pl_given s)" using epoch by auto
    obtain b' where "(nt_epoch nt, nt_seq nt, b', nt_ts nt) \<in> set (pl_given s)" using nt by (auto simp: notice_ok_def)
    then show "(nt_epoch nt, nt_seq nt, b, nt_ts nt) \<in> set (pl_given s)"
      using ok t unfolding plant_ok_def given_once_def by blast
  qed
  then show ?thesis using ok by (auto simp: plant_ok_def handled_def run split: option.splits)
qed

lemma plant_step_keeps:
  assumes "plant_step pack_double cfg d s s'" "plant_ok s" "cc_ring_slots cfg \<le> 256" and dbl: "\<And>t. length (pack_double t) = 8"
  shows "plant_ok s'"
  using assms(1)
proof cases
  case (publish camera w inode time_ns f ch sh1 w1 i r sent ts r' res motion sh2 w2 nte lands)
  let ?files = "sh_files (pl_shm s)"
  have ok: "files_ok ?files (pl_sent s) (pl_given s)" "epochs_apart ?files" "given_once (pl_given s)"
    "\<And>nt. nt \<in> set (pl_queue s) \<Longrightarrow> notice_ok ?files (pl_given s) nt" "\<And>x. x \<in> set (pl_delivered s) \<Longrightarrow> delivery_ok (pl_given s) x"
    using assms(2) by (auto simp: plant_ok_def)
  note [simp] = \<open>sh_files sh1 i = Some r\<close>
  have pub: "sh_files sh2 = (sh_files sh1)(i \<mapsto> r')"
    "nte = (case res of Inr (seq, slot) \<Rightarrow> Some (build_notice (wk_camera w1) ts seq slot r' motion) | Inl _ \<Rightarrow> None)"
    using publish(6,9,10) by (auto simp: publish_frame_def split: sum.splits prod.splits)
  have mid: "files_ok (sh_files sh1) ((pl_sent s)(i := sent)) (pl_given s) \<and> epochs_apart (sh_files sh1) \<and>
     fr_height f = rg_height r \<and> fr_width f = rg_width r \<and> (\<forall>nt. notice_ok ?files (pl_given s) nt \<longrightarrow> notice_ok (sh_files sh1) (pl_given s) nt)"
  proof (rule ensure_ring_cases [OF publish(6)])
    assume "ring_matches (pl_shm s) f (Some i)" "sh1 = pl_shm s" "wk_ring w = Some i"
    then show ?thesis using ok publish(8) \<open>sh_files sh1 i = Some r\<close> by (simp add: ring_matches_def)
  next
    assume new: "\<not> ring_matches (pl_shm s) f (wk_ring w)"
      "sh_files sh1 = ?files(i \<mapsto> ring_init d (wk_camera w) (fr_width f) (fr_height f) ch (cc_ring_slots cfg) time_ns)"
    then have "r = ring_init d (wk_camera w) (fr_width f) (fr_height f) ch (cc_ring_slots cfg) time_ns" "sent = []"
      using publish(8) \<open>sh_files sh1 i = Some r\<close> by simp_all
    then show ?thesis
      using fresh_ring_files [OF ok(1,2) publish(4,5) assms(3), where i = i and d = d and camera = "wk_camera w" and w = "fr_width f" and h = "fr_height f" and ch = ch] new
      by (auto simp: ring_init_def Let_def)
  qed
  note p = published_files [where files = "sh_files sh1" and i = i and sent = "(pl_sent s)(i := sent)", OF publish(9) _ _ _ _ _ ok(3) dbl]
  let ?given = "case res of Inr (seq, _) \<Rightarrow> (rg_epoch r, seq, fr_bytes f, ts) # pl_given s | Inl _ \<Rightarrow> pl_given s"
  have "files_ok (sh_files sh2) ((pl_sent s)(i := sent @ [sent_entry f res])) ?given" "epochs_apart (sh_files sh2)" "given_once ?given"
    using p(1-3) mid pub(1) by auto
  moreover have "notice_ok (sh_files sh2) ?given nt" if "nt \<in> set (pl_queue s)" for nt
    using p(4) [of nt] mid pub(1) ok(4) [OF that] by auto
  moreover have "notice_ok (sh_files sh2) ?given nt" if "nte = Some nt" for nt
    using p(6) mid pub that by (auto split: sum.splits)
  moreover have "delivery_ok ?given x" if "x \<in> set (pl_delivered s)" for x
    using p(5) [of x] mid ok(5) [OF that] by auto
  ultimately show ?thesis using publish(1) by (auto simp: plant_ok_def split: option.splits)
next
  case (stop camera w)
  then have "sh_files (fst (worker_stop (pl_shm s) w)) = sh_files (pl_shm s)"
    by (simp add: worker_stop_def close_ring_def split: option.splits)
  then show ?thesis using assms(2) stop by (simp add: plant_ok_def)
next
  case (deliver nt rest has_activity has_reset now)
  then have "plant_ok (s\<lparr>pl_queue := rest\<rparr>)" "notice_ok (sh_files (pl_shm s)) (pl_given s) nt" using assms(2) by (auto simp: plant_ok_def)
  then show ?thesis using handled_ok [of "s\<lparr>pl_queue := rest\<rparr>" nt] deliver by simp
qed (use assms(2) in \<open>auto simp: plant_ok_def\<close>)

definition plant_start :: plant where
  "plant_start = \<lparr>pl_shm = \<lparr>sh_names = Map.empty, sh_files = Map.empty\<rparr>, pl_workers = Map.empty, pl_queue = [],
     pl_sub = \<lparr>su_wanted = {}, su_every = {}, su_readers = Map.empty, su_notices_seen = 0, su_notices_ignored = 0, su_frames_delivered = 0,
       su_frames_refused = 0, su_frames_gated = 0, su_activity_delivered = 0, su_last_frame_at = None\<rparr>,
     pl_sent = \<lambda>_. [], pl_given = [], pl_delivered = []\<rparr>"

interpretation plant: invariant_system "\<lambda>s. s = plant_start"
  "\<lambda>s s'. plant_step pack_double cfg d s s' \<and> cc_ring_slots cfg \<le> 256 \<and> (\<forall>t. length (pack_double t) = 8)" plant_ok
  for pack_double cfg d
proof
  show "plant_ok s" if "s = plant_start" for s
    using that by (simp add: plant_start_def plant_ok_def files_ok_def epochs_apart_def given_once_def)
  show "plant_ok t" if "plant_ok s" "plant_step pack_double cfg d s t \<and> cc_ring_slots cfg \<le> 256 \<and> (\<forall>t. length (pack_double t) = 8)" for s t
    using that plant_step_keeps by blast
qed

lemma plant_reachable:
  assumes "rtranclp (plant_step pack_double cfg d) plant_start s" "cc_ring_slots cfg \<le> 256" "\<forall>t. length (pack_double t) = 8"
  shows "plant_ok s"
proof -
  have "rtranclp (\<lambda>s s'. plant_step pack_double cfg d s s' \<and> cc_ring_slots cfg \<le> 256 \<and> (\<forall>t. length (pack_double t) = 8)) plant_start s"
    using assms(1) by (rule rtranclp_mono [THEN predicate2D, rotated]) (use assms(2,3) in blast)
  then show ?thesis using plant.reachable_inv by blast
qed

definition given_as :: "plant \<Rightarrow> notice \<Rightarrow> byte list \<Rightarrow> bool" where
  \<comment> \<open>the one frame that was published under the notice's ring and number, and at its time\<close>
  "given_as s nt b \<longleftrightarrow> {(b', t). (nt_epoch nt, nt_seq nt, b', t) \<in> set (pl_given s)} = {(b, nt_ts nt)}"

text \<open>
  C2. What a consumer gets is what the notice says. Over any run of workers that publish, change resolution, stop, crash and restart, of
  notices that are delivered in order or lost, and of consumers that come and go, a frame handed on for a notice, when the ring it was read
  from is the notice's own, is the one frame that was ever published under that ring and sequence number, with the time it was published with.
\<close>

theorem delivered_as_published:
  assumes "rtranclp (plant_step pack_double cfg d) plant_start s" and "cc_ring_slots cfg \<le> 256" and "\<forall>t. length (pack_double t) = 8"
    and "(nt_epoch nt, nt, b) \<in> set (pl_delivered s)"
  shows "given_as s nt b"
proof -
  have ok: "plant_ok s" using plant_reachable assms(1-3) by blast
  then have "(nt_epoch nt, nt_seq nt, b, nt_ts nt) \<in> set (pl_given s)" using assms(4) by (fastforce simp: plant_ok_def delivery_ok_def)
  moreover have "given_once (pl_given s)" using ok by (simp add: plant_ok_def)
  ultimately show ?thesis unfolding given_as_def given_once_def by blast
qed

text \<open>
  The sample rate holds. Within one connection of a camera, any two frames that are decoded and published are at least one sample
  interval apart on the clock the worker reads, whatever that clock does and whichever frames fail to decode.
\<close>

theorem samples_spaced:
  assumes "\<forall>ev \<in> set evs. same_session ev"
  shows "sorted_wrt (\<lambda>a b. a + sample_interval cfg \<le> b) (sampled_at cfg evs w)"
  using sampled_from [OF assms] by simp

theorem samples_spaced_witness:
  "sampled_at \<lparr>cc_sample_fps = 5, cc_ring_slots = 4, cc_backoff_initial = 2, cc_backoff_max = 60\<rparr>
     [Grab 10 True, Grab (101 / 10) True, Grab (102 / 10) False, Grab (103 / 10) True]
     (worker_init \<lparr>cc_sample_fps = 5, cc_ring_slots = 4, cc_backoff_initial = 2, cc_backoff_max = 60\<rparr> ''c'' ''u'') = [10, 103 / 10] \<and>
   sorted_wrt (\<lambda>a b. a + sample_interval \<lparr>cc_sample_fps = 5, cc_ring_slots = 4, cc_backoff_initial = 2, cc_backoff_max = 60\<rparr> \<le> b) [10, 103 / 10 :: rat]"
  using samples_spaced [of "[Grab 10 True, Grab (101 / 10) True, Grab (102 / 10) False, Grab (103 / 10) True]"
      "\<lparr>cc_sample_fps = 5, cc_ring_slots = 4, cc_backoff_initial = 2, cc_backoff_max = 60\<rparr>"
      "worker_init \<lparr>cc_sample_fps = 5, cc_ring_slots = 4, cc_backoff_initial = 2, cc_backoff_max = 60\<rparr> ''c'' ''u''"]
  by (simp add: same_session_def capture_event_def worker_init_def sample_interval_def)

lemma epoch_not_checked:
  \<comment> \<open>a consumer without a mapping opens the file that now has the camera's name and reads it under the notice's number, whatever ring it is\<close>
  assumes "nt_camera nt \<in> su_wanted su" "nt_camera nt \<notin> su_every su" "su_readers su (nt_camera nt) = None" "\<not> gated_out (nt_motion nt)"
    and "sh_names sh (shm_path d (nt_camera nt)) = Some j" "sh_files sh j = Some r" "same_geometry nt r" "ring_ok r"
    and "frame_read r (nt_slot nt) (nt_seq nt) = Some b"
  shows "last (snd (handle_notice d has_activity has_reset now sh nt su)) = Search_Frame (nt_camera nt) b (nt_ts nt) (nt_motion nt)"
proof -
  have view: "reader_view (notice_key nt) r = r" using assms(7) by (simp add: reader_view_def notice_key_def same_geometry_def)
  have len: "ctrl_bytes + nt_slots nt * (nt_width nt * nt_height nt * nt_channels nt) \<le> length (rg_memory r)"
    using assms(7,8) by (simp add: same_geometry_def ring_ok_def ring_nbytes_def frame_bytes_def)
  have "reader_for d sh (nt_camera nt) (notice_key nt) u = (u\<lparr>su_readers := (su_readers u)(nt_camera nt \<mapsto> (notice_key nt, j))\<rparr>, Mapped j)"
    if "su_readers u = su_readers su" for u
    using that assms(3,5,6) len by (simp add: reader_for_def notice_key_def)
  then show ?thesis
    using assms view by (simp add: handle_notice_def Let_def handle_read_def deliver_frame_def)
qed

definition tiny_cfg :: capture_config where
  "tiny_cfg = \<lparr>cc_sample_fps = 5, cc_ring_slots = 2, cc_backoff_initial = 2, cc_backoff_max = 60\<rparr>"

definition tiny_motion :: motion_block where
  "tiny_motion = \<lparr>mb_baseline_valid = Some True, mb_regions = Some (Some [])\<rparr>"

definition tiny_notice :: notice where
  "tiny_notice = build_notice ''c'' 0 1 1 tiny_after tiny_motion"

definition tiny_broker :: plant where
  \<comment> \<open>one camera with one frame published, and a consumer that wants it\<close>
  "tiny_broker = plant_start\<lparr>
     pl_shm := \<lparr>sh_names = [shm_path ''d'' ''c'' \<mapsto> 0], sh_files = [0 \<mapsto> tiny_after]\<rparr>,
     pl_workers := [''c'' \<mapsto> (worker_init tiny_cfg ''c'' ''u'')\<lparr>wk_ring := Some 0, wk_frames_published := 1\<rparr>],
     pl_sent := (\<lambda>_. [])(0 := [Some [10]]), pl_given := [(7, 1, [10], 0)], pl_queue := [tiny_notice],
     pl_sub := su_want ''c'' (pl_sub plant_start)\<rparr>"

lemma tiny_broker_reached: "rtranclp (plant_step (\<lambda>_. replicate 8 0) tiny_cfg ''d'') plant_start tiny_broker"
proof -
  let ?R = "plant_step (\<lambda>_. replicate 8 (0 :: byte)) tiny_cfg ''d''"
  let ?w = "worker_init tiny_cfg ''c'' ''u''" and ?p = "shm_path ''d'' ''c''"
  let ?s1 = "plant_start\<lparr>pl_workers := [''c'' \<mapsto> ?w]\<rparr>"
  let ?s2 = "tiny_broker\<lparr>pl_sub := pl_sub plant_start\<rparr>"
  let ?sh1 = "\<lparr>sh_names = [?p \<mapsto> 0], sh_files = [0 \<mapsto> tiny_ring]\<rparr>"
  have ens: "ensure_ring tiny_cfg ''d'' tiny_frame 1 7 0 (pl_shm ?s1) ?w = (?sh1, ?w\<lparr>wk_ring := Some 0\<rparr>, 0)"
    by (simp add: ensure_ring_def worker_init_def open_ring_def Let_def plant_start_def tiny_cfg_def tiny_ring_def tiny_frame_def)
  have pub: "publish_frame (\<lambda>_. replicate 8 0) tiny_cfg ''d'' tiny_frame 1 0 tiny_motion 7 0 (pl_shm ?s1) ?w =
    (\<lparr>sh_names = [?p \<mapsto> 0], sh_files = [0 \<mapsto> tiny_after]\<rparr>, ?w\<lparr>wk_ring := Some 0, wk_frames_published := 1\<rparr>, Some tiny_notice)"
    by (simp only: publish_frame_def ens split) (simp add: tiny_published(1) tiny_notice_def worker_init_def)
  have m1: "?R plant_start ?s1" using plant_step.add [of plant_start "''c''" _ tiny_cfg "''d''" "''u''"] by (simp add: plant_start_def)
  have "?R ?s1 (?s1\<lparr>pl_shm := \<lparr>sh_names = [?p \<mapsto> 0], sh_files = [0 \<mapsto> tiny_after]\<rparr>,
      pl_workers := (pl_workers ?s1)(''c'' \<mapsto> ?w\<lparr>wk_ring := Some 0, wk_frames_published := 1\<rparr>),
      pl_sent := (pl_sent ?s1)(0 := [] @ [sent_entry tiny_frame (Inr (1, 1) :: ring_error + nat \<times> nat)]),
      pl_given := (case (Inr (1, 1) :: ring_error + nat \<times> nat) of Inr (seq, _) \<Rightarrow> (rg_epoch tiny_ring, seq, fr_bytes tiny_frame, 0) # pl_given ?s1
        | Inl _ \<Rightarrow> pl_given ?s1),
      pl_queue := pl_queue ?s1 @ (case Some tiny_notice of None \<Rightarrow> [] | Some nt \<Rightarrow> if True then [nt] else [])\<rparr>)"
    by (rule plant_step.publish [OF _ _ _ _ ens _ _ tiny_published(1) pub])
      (simp_all add: plant_start_def worker_init_def ring_matches_def)
  then have m2: "?R ?s1 ?s2"
    by (simp add: tiny_broker_def sent_entry_def tiny_frame_def tiny_ring_def ring_init_def plant_start_def)
  have m3: "?R ?s2 tiny_broker"
    using plant_step.register [of "su_want ''c'' (pl_sub ?s2)" "''c''" ?s2] by (simp add: tiny_broker_def)
  show ?thesis using m1 m2 m3 by (meson r_into_rtranclp rtranclp.rtrancl_into_rtrancl)
qed

definition tiny_delivered :: plant where
  "tiny_delivered = handled ''d'' False False 1 tiny_notice (tiny_broker\<lparr>pl_queue := []\<rparr>)"

lemma tiny_delivery:
  "rtranclp (plant_step (\<lambda>_. replicate 8 0) tiny_cfg ''d'') plant_start tiny_delivered"
  "(nt_epoch tiny_notice, tiny_notice, [10]) \<in> set (pl_delivered tiny_delivered)"
proof -
  have "plant_step (\<lambda>_. replicate 8 0) tiny_cfg ''d'' tiny_broker tiny_delivered"
    using plant_step.deliver [of tiny_broker tiny_notice "[]"] by (simp add: tiny_delivered_def tiny_broker_def)
  then show "rtranclp (plant_step (\<lambda>_. replicate 8 0) tiny_cfg ''d'') plant_start tiny_delivered"
    using tiny_broker_reached by (rule step_then [rotated])
  let ?sh = "pl_shm tiny_broker" and ?su = "pl_sub tiny_broker"
  have "ring_ok tiny_after" using tiny_published(4) same_ring_geometry(5) [OF tiny_published(2)] by simp
  then have len: "ctrl_bytes + rg_slots tiny_after * (rg_width tiny_after * rg_height tiny_after * rg_channels tiny_after) \<le> length (rg_memory tiny_after)"
    by (simp add: ring_ok_def ring_nbytes_def frame_bytes_def)
  have view: "reader_view (notice_key tiny_notice) tiny_after = tiny_after"
    by (simp add: reader_view_def notice_key_def tiny_notice_def build_notice_def)
  have "reader_for ''d'' ?sh ''c'' (notice_key tiny_notice) u = (u\<lparr>su_readers := (su_readers u)(''c'' \<mapsto> (notice_key tiny_notice, 0))\<rparr>, Mapped 0)"
    if "su_readers u = Map.empty" for u
    using that len by (simp add: reader_for_def tiny_broker_def notice_key_def tiny_notice_def build_notice_def)
  then show "(nt_epoch tiny_notice, tiny_notice, [10]) \<in> set (pl_delivered tiny_delivered)"
    using view tiny_published(3)
    by (simp add: tiny_delivered_def handled_def handle_notice_def Let_def handle_read_def deliver_frame_def gated_out_def mapped_epoch_def
        tiny_broker_def plant_start_def su_want_def tiny_notice_def build_notice_def tiny_motion_def)
qed

theorem delivered_as_published_witness: "given_as tiny_delivered tiny_notice [10]"
  by (rule delivered_as_published [OF tiny_delivery(1) _ _ tiny_delivery(2)]) (simp_all add: tiny_cfg_def)

end
