(* ===== verification/Analytics_Lifecycle.thy ===== *)
theory Analytics_Lifecycle
  imports Activity_Engine Frame_Broker
begin

text \<open>
  When the analytics service holds which model (\<open>src/services/analytics/analytics/engine.py\<close>).

  Cameras come and go at run time; the detector, the plate reader, the face reader and the detector of the activities are built when some
  camera asks for them, on a thread of their own that takes the lock only at its start and at its end, and are released by a timer or at
  once. A model is a token, \<open>Warm_Built\<close> and \<open>Warm_Failed\<close> say what a build gave; the monotonic clock is an argument. The configuration of
  the activities is that of \<open>Activity_Engine\<close>, the frame source that of \<open>Frame_Broker\<close>.
\<close>

section \<open>State\<close>

type_synonym model = nat

record camera_entry =
  ce_url :: string
  ce_domains :: "string list"
  ce_sampler :: bool

record detection_pipe = \<comment> \<open>what the engine sets in a \<open>DetectionPipeline\<close>\<close>
  dp_detector :: model
  dp_plates :: "model option"
  dp_faces :: "model option"
  dp_domains :: "(string, string list) dict"

datatype engine_state = Warming_Up | Running | Idle | Disabled | Failed

record warm_needs = \<comment> \<open>what \<open>_warm\<close> found missing under the lock\<close>
  wn_detector :: bool
  wn_plates :: bool
  wn_activity :: bool
  wn_faces :: bool
  wn_held :: "model option"

datatype loader = Loader_Started | Loader_Building warm_needs

record analytics =
  an_cameras :: "(string, camera_entry) dict"
  an_activities :: activity_engine
  an_pipeline :: "detection_pipe option"
  an_detector :: "model option"
  an_plates :: "model option"
  an_plates_failed :: bool
  an_plates_demand :: bool
  an_plates_idle_since :: "rat option"
  an_faces :: "model option"
  an_faces_failed :: bool
  an_faces_demand :: bool
  an_activity_pipeline :: "model option"
  an_activity_idle_since :: "rat option"
  an_state :: engine_state
  an_error :: bool
  an_idle_since :: "rat option"
  an_retry_at :: rat
  an_loader :: "loader option"
  an_stopped :: bool
  an_hibernations :: nat
  an_warmups :: nat
  an_broker :: "subscriber option"
  an_frames_dropped :: nat
  an_activity_dropped :: nat

record analytics_config =
  ag_detect :: bool
  ag_plates :: bool
  ag_faces :: bool
  ag_activities :: bool
  ag_idle_timeout :: rat
  ag_retry :: rat

definition plate_domain :: string where "plate_domain = ''plate''"
definition face_domain :: string where "face_domain = ''face''"


definition detection_domains_for :: "string \<Rightarrow> detection_pipe \<Rightarrow> string list" where
  "detection_domains_for slug p = (case map_of (dp_domains p) slug of Some ds \<Rightarrow> ds | None \<Rightarrow> [''person'', ''vehicles''])"

section \<open>Demand\<close>

definition plates_wanted :: "analytics \<Rightarrow> bool" where
  "plates_wanted s \<longleftrightarrow> list_ex (\<lambda>(_, e). plate_domain \<in> set (ce_domains e)) (an_cameras s)"

definition faces_wanted :: "analytics \<Rightarrow> bool" where
  "faces_wanted s \<longleftrightarrow> list_ex (\<lambda>(_, e). face_domain \<in> set (ce_domains e)) (an_cameras s)"

definition activity_wanted :: "analytics_config \<Rightarrow> analytics \<Rightarrow> bool" where
  "activity_wanted cfg s \<longleftrightarrow> ag_activities cfg \<and> list_ex (\<lambda>(slug, _). has_work slug (an_activities s)) (an_cameras s)"


definition in_pipeline :: "(detection_pipe \<Rightarrow> detection_pipe) \<Rightarrow> analytics \<Rightarrow> analytics" where
  \<comment> \<open>\<open>if self._pipeline is not None: ...\<close>\<close>
  "in_pipeline f s = s\<lparr>an_pipeline := map_option f (an_pipeline s)\<rparr>"

definition note_plate_demand :: "rat \<Rightarrow> analytics \<Rightarrow> analytics" where
  "note_plate_demand now s =
     (let wanted = plates_wanted s;
          s1 = (if wanted \<and> \<not> an_plates_demand s then s\<lparr>an_plates_failed := False\<rparr> else s);
          s2 = (if wanted then s1\<lparr>an_plates_idle_since := None\<rparr>
                else if an_plates s1 \<noteq> None \<and> an_plates_idle_since s1 = None then s1\<lparr>an_plates_idle_since := Some now\<rparr>
                else s1)
      in s2\<lparr>an_plates_demand := wanted\<rparr>)"

definition release_plates :: "analytics \<Rightarrow> analytics" where
  "release_plates s =
     (if an_plates s = None then s
      else in_pipeline (\<lambda>p. p\<lparr>dp_plates := None\<rparr>) (s\<lparr>an_plates := None, an_plates_idle_since := None\<rparr>))"

definition note_activity_demand :: "analytics_config \<Rightarrow> rat \<Rightarrow> analytics \<Rightarrow> analytics" where
  "note_activity_demand cfg now s =
     (if activity_wanted cfg s then s\<lparr>an_activity_idle_since := None\<rparr>
      else if an_activity_pipeline s \<noteq> None \<and> an_activity_idle_since s = None then s\<lparr>an_activity_idle_since := Some now\<rparr>
      else s)"

definition detach_activity :: "analytics \<Rightarrow> analytics" where
  "detach_activity s = s\<lparr>an_activity_pipeline := None, an_activity_idle_since := None\<rparr>"

definition release_faces :: "analytics \<Rightarrow> analytics" where
  "release_faces s =
     (if an_faces s = None then s else in_pipeline (\<lambda>p. p\<lparr>dp_faces := None\<rparr>) (s\<lparr>an_faces := None\<rparr>))"

definition note_face_demand :: "analytics \<Rightarrow> analytics" where
  "note_face_demand s =
     (let wanted = faces_wanted s;
          s1 = (if wanted \<and> \<not> an_faces_demand s then s\<lparr>an_faces_failed := False\<rparr>
                else if \<not> wanted \<and> an_faces s \<noteq> None then release_faces s else s)
      in s1\<lparr>an_faces_demand := wanted\<rparr>)"

section \<open>Loading\<close>

definition needs_warmup :: "analytics_config \<Rightarrow> analytics \<Rightarrow> bool" where
  "needs_warmup cfg s \<longleftrightarrow>
     (if \<not> ag_detect cfg \<or> an_cameras s = [] then False
      else if an_pipeline s = None \<or> an_detector s = None then True
      else if activity_wanted cfg s \<and> an_activity_pipeline s = None then True
      else if ag_plates cfg \<and> plates_wanted s \<and> an_plates s = None \<and> \<not> an_plates_failed s then True
      else ag_faces cfg \<and> faces_wanted s \<and> an_faces s = None \<and> \<not> an_faces_failed s)"

definition ensure_models :: "analytics_config \<Rightarrow> rat \<Rightarrow> analytics \<Rightarrow> analytics" where
  "ensure_models cfg now s =
     (if an_stopped s \<or> \<not> needs_warmup cfg s then s
      else if an_loader s \<noteq> None then s
      else if an_state s = Failed \<and> now < an_retry_at s then s
      else s\<lparr>an_state := Warming_Up, an_loader := Some Loader_Started\<rparr>)"


datatype warm_result =
    Warm_Failed
  | Warm_Built model "model option" model "model option" \<comment> \<open>detector, plate reader, activity detector, face reader\<close>

definition install_readers :: "rat \<Rightarrow> warm_needs \<Rightarrow> model option \<Rightarrow> model option \<Rightarrow> analytics \<Rightarrow> analytics" where
  \<comment> \<open>the failures noted, the readers installed in the engine\<close>
  "install_readers now need plates faces s =
     (let s1 = (if wn_plates need \<and> plates = None then s\<lparr>an_plates_failed := True\<rparr> else s);
          s2 = (if wn_faces need \<and> faces = None then s1\<lparr>an_faces_failed := True\<rparr> else s1);
          s3 = (case faces of None \<Rightarrow> s2 | Some m \<Rightarrow> note_face_demand (s2\<lparr>an_faces := Some m\<rparr>))
      in case plates of None \<Rightarrow> s3 | Some m \<Rightarrow> note_plate_demand now (s3\<lparr>an_plates := Some m\<rparr>))"

definition install_detector :: "model option \<Rightarrow> model option \<Rightarrow> analytics \<Rightarrow> analytics" where
  \<comment> \<open>the pipeline of a detector that has just come, with the domains of the cameras that waited for it\<close>
  "install_detector detector plates s =
     (let s1 = (case detector of None \<Rightarrow> s | Some m \<Rightarrow> s\<lparr>an_detector := Some m\<rparr>)
      in case (an_pipeline s1, an_detector s1) of
           (None, Some m) \<Rightarrow>
             s1\<lparr>an_pipeline := Some \<lparr>dp_detector = m, dp_plates = an_plates s1, dp_faces = an_faces s1,
                  dp_domains = fold (\<lambda>(slug, e) d. AList.update slug (ce_domains e) d) (an_cameras s1) []\<rparr>,
                an_warmups := an_warmups s1 + 1\<rparr>
         | (Some _, _) \<Rightarrow> (case plates of None \<Rightarrow> s1 | Some p \<Rightarrow> in_pipeline (\<lambda>q. q\<lparr>dp_plates := Some p\<rparr>) s1)
         | _ \<Rightarrow> s1)"

definition attach_sampler :: "string \<Rightarrow> analytics \<Rightarrow> analytics" where
  "attach_sampler slug s =
     (case map_of (an_cameras s) slug of
        None \<Rightarrow> s
      | Some e \<Rightarrow>
          if an_pipeline s = None \<or> ce_sampler e then s
          else s\<lparr>an_cameras := AList.update slug (e\<lparr>ce_sampler := True\<rparr>) (an_cameras s)\<rparr>)"

definition warm_end :: "analytics_config \<Rightarrow> rat \<Rightarrow> warm_needs \<Rightarrow> warm_result \<Rightarrow> analytics \<Rightarrow> analytics" where
  \<comment> \<open>from the end of the builds on\<close>
  "warm_end cfg now need res s =
     (case res of
        Warm_Failed \<Rightarrow> s\<lparr>an_state := Failed, an_error := True, an_retry_at := now + max 1 (ag_retry cfg), an_loader := None\<rparr>
      | Warm_Built d p a f \<Rightarrow>
          if an_stopped s then s\<lparr>an_loader := None\<rparr>
          else
            let detector = (if wn_detector need then Some d else wn_held need);
                plates = (if wn_plates need then p else None);
                activity = (if wn_activity need then Some a else None);
                faces = (if wn_faces need then f else None);
                s4 = install_readers now need plates faces s;
                s5 = install_detector detector plates s4;
                s6 = (case faces of None \<Rightarrow> s5 | Some m \<Rightarrow> in_pipeline (\<lambda>q. q\<lparr>dp_faces := Some m\<rparr>) s5);
                s7 = (case activity of
                        None \<Rightarrow> s6
                      | Some m \<Rightarrow> if an_activity_pipeline s6 = None then note_activity_demand cfg now (s6\<lparr>an_activity_pipeline := Some m\<rparr>) else s6);
                s8 = (if an_pipeline s7 \<noteq> None then s7\<lparr>an_state := Running, an_error := False\<rparr> else s7);
                s9 = s8\<lparr>an_loader := None\<rparr>
            in fold attach_sampler (if an_broker s9 = None then map fst (an_cameras s9) else []) s9)"

section \<open>Cameras\<close>









section \<open>The clock\<close>

definition an_detach :: "analytics \<Rightarrow> analytics" where
  "an_detach s =
     s\<lparr>an_pipeline := None, an_detector := None, an_plates := None, an_plates_idle_since := None, an_plates_failed := False,
       an_state := (if an_state s \<in> {Running, Warming_Up, Failed} then Idle else an_state s), an_error := False\<rparr>"



definition an_stop :: "analytics \<Rightarrow> analytics" where
  "an_stop s = detach_activity (an_detach (s\<lparr>an_stopped := True\<rparr>))"

section \<open>The invariant\<close>

definition pipe_ok :: "analytics \<Rightarrow> bool" where
  \<comment> \<open>the pipeline and the engine hold the same models, and the pipeline knows the domains of exactly the registered cameras\<close>
  "pipe_ok s \<longleftrightarrow> (case an_pipeline s of
      None \<Rightarrow> an_detector s = None \<and> an_plates s = None
    | Some p \<Rightarrow> an_detector s \<noteq> None \<and> dp_plates p = an_plates s \<and>
        (\<forall>slug. map_of (dp_domains p) slug = map_option ce_domains (map_of (an_cameras s) slug)))"

definition faces_ok :: "analytics \<Rightarrow> bool" where
  \<comment> \<open>a face reader is held only while a camera asks for faces, and then the pipeline has it\<close>
  "faces_ok s \<longleftrightarrow> (case an_faces s of None \<Rightarrow> True
    | Some f \<Rightarrow> faces_wanted s \<and> (\<exists>p. an_pipeline s = Some p \<and> dp_faces p = Some f))"

definition clocks_ok :: "analytics_config \<Rightarrow> analytics \<Rightarrow> bool" where
  \<comment> \<open>a model nobody asks for has its clock running\<close>
  "clocks_ok cfg s \<longleftrightarrow> (an_plates s \<noteq> None \<and> \<not> plates_wanted s \<longrightarrow> an_plates_idle_since s \<noteq> None) \<and>
     (an_activity_pipeline s \<noteq> None \<and> \<not> activity_wanted cfg s \<longrightarrow> an_activity_idle_since s \<noteq> None) \<and>
     (an_cameras s = [] \<longrightarrow> an_idle_since s \<noteq> None)"

definition loader_ok :: "analytics \<Rightarrow> bool" where
  "loader_ok s \<longleftrightarrow> (case an_loader s of Some (Loader_Building need) \<Rightarrow> wn_detector need \<or> wn_held need \<noteq> None | _ \<Rightarrow> True)"

definition life_ok :: "analytics_config \<Rightarrow> analytics \<Rightarrow> bool" where
  "life_ok cfg s \<longleftrightarrow> pipe_ok s \<and> faces_ok s \<and> clocks_ok cfg s \<and> loader_ok s \<and> distinct (map fst (an_cameras s))"

subsection \<open>What the helpers leave alone\<close>

lemma in_pipeline_fields [simp]:
  "an_cameras (in_pipeline f s) = an_cameras s" "an_activities (in_pipeline f s) = an_activities s"
  "an_pipeline (in_pipeline f s) = map_option f (an_pipeline s)" "an_detector (in_pipeline f s) = an_detector s"
  "an_plates (in_pipeline f s) = an_plates s" "an_faces (in_pipeline f s) = an_faces s"
  "an_plates_idle_since (in_pipeline f s) = an_plates_idle_since s" "an_activity_pipeline (in_pipeline f s) = an_activity_pipeline s"
  "an_activity_idle_since (in_pipeline f s) = an_activity_idle_since s" "an_idle_since (in_pipeline f s) = an_idle_since s"
  "an_loader (in_pipeline f s) = an_loader s" "an_broker (in_pipeline f s) = an_broker s" "an_stopped (in_pipeline f s) = an_stopped s"
  by (simp_all add: in_pipeline_def)

lemma note_plate_fields [simp]:
  "an_cameras (note_plate_demand now s) = an_cameras s" "an_activities (note_plate_demand now s) = an_activities s"
  "an_pipeline (note_plate_demand now s) = an_pipeline s" "an_detector (note_plate_demand now s) = an_detector s"
  "an_plates (note_plate_demand now s) = an_plates s" "an_faces (note_plate_demand now s) = an_faces s"
  "an_activity_pipeline (note_plate_demand now s) = an_activity_pipeline s"
  "an_activity_idle_since (note_plate_demand now s) = an_activity_idle_since s" "an_idle_since (note_plate_demand now s) = an_idle_since s"
  "an_loader (note_plate_demand now s) = an_loader s" "an_broker (note_plate_demand now s) = an_broker s"
  "an_stopped (note_plate_demand now s) = an_stopped s"
  by (simp_all add: note_plate_demand_def Let_def)

lemma note_activity_fields [simp]:
  "an_cameras (note_activity_demand cfg now s) = an_cameras s" "an_activities (note_activity_demand cfg now s) = an_activities s"
  "an_pipeline (note_activity_demand cfg now s) = an_pipeline s" "an_detector (note_activity_demand cfg now s) = an_detector s"
  "an_plates (note_activity_demand cfg now s) = an_plates s" "an_faces (note_activity_demand cfg now s) = an_faces s"
  "an_plates_idle_since (note_activity_demand cfg now s) = an_plates_idle_since s"
  "an_activity_pipeline (note_activity_demand cfg now s) = an_activity_pipeline s" "an_idle_since (note_activity_demand cfg now s) = an_idle_since s"
  "an_loader (note_activity_demand cfg now s) = an_loader s" "an_broker (note_activity_demand cfg now s) = an_broker s"
  "an_stopped (note_activity_demand cfg now s) = an_stopped s"
  by (simp_all add: note_activity_demand_def)

lemma note_face_fields [simp]:
  "an_cameras (note_face_demand s) = an_cameras s" "an_activities (note_face_demand s) = an_activities s"
  "an_detector (note_face_demand s) = an_detector s" "an_plates (note_face_demand s) = an_plates s"
  "an_plates_idle_since (note_face_demand s) = an_plates_idle_since s" "an_activity_pipeline (note_face_demand s) = an_activity_pipeline s"
  "an_activity_idle_since (note_face_demand s) = an_activity_idle_since s" "an_idle_since (note_face_demand s) = an_idle_since s"
  "an_loader (note_face_demand s) = an_loader s" "an_broker (note_face_demand s) = an_broker s" "an_stopped (note_face_demand s) = an_stopped s"
  "an_faces (note_face_demand s) = (if faces_wanted s then an_faces s else None)"
  by (simp_all add: note_face_demand_def release_faces_def Let_def)

lemma note_face_pipeline:
  "an_pipeline (note_face_demand s) = (if \<not> faces_wanted s \<and> an_faces s \<noteq> None then map_option (\<lambda>p. p\<lparr>dp_faces := None\<rparr>) (an_pipeline s) else an_pipeline s)"
  by (simp add: note_face_demand_def release_faces_def Let_def)

lemma ensure_fields [simp]:
  "an_cameras (ensure_models cfg now s) = an_cameras s" "an_activities (ensure_models cfg now s) = an_activities s"
  "an_pipeline (ensure_models cfg now s) = an_pipeline s" "an_detector (ensure_models cfg now s) = an_detector s"
  "an_plates (ensure_models cfg now s) = an_plates s" "an_faces (ensure_models cfg now s) = an_faces s"
  "an_plates_idle_since (ensure_models cfg now s) = an_plates_idle_since s" "an_activity_pipeline (ensure_models cfg now s) = an_activity_pipeline s"
  "an_activity_idle_since (ensure_models cfg now s) = an_activity_idle_since s" "an_idle_since (ensure_models cfg now s) = an_idle_since s"
  "an_broker (ensure_models cfg now s) = an_broker s" "an_stopped (ensure_models cfg now s) = an_stopped s"
  by (simp_all add: ensure_models_def)


lemmas wanted_defs = plates_wanted_def faces_wanted_def activity_wanted_def





subsection \<open>Every operation keeps it\<close>























lemma stop_keeps:
  assumes "life_ok cfg s" "an_faces s = None"
  shows "life_ok cfg (an_stop s)"
  using assms by (simp add: life_ok_def pipe_ok_def faces_ok_def clocks_ok_def loader_ok_def an_stop_def an_detach_def detach_activity_def wanted_defs split: option.splits)












section \<open>Runs of the service\<close>


lemma attach_stopped [simp]: "an_stopped (fold attach_sampler slugs s) = an_stopped s"
proof (induction slugs arbitrary: s)
  case (Cons a slugs)
  then show ?case by (simp add: attach_sampler_def split: option.splits)
qed simp










lemma release_plates_fields [simp]:
  "an_cameras (release_plates s) = an_cameras s" "an_activities (release_plates s) = an_activities s" "an_plates (release_plates s) = None"
  "an_faces (release_plates s) = an_faces s" "an_activity_pipeline (release_plates s) = an_activity_pipeline s"
  "an_activity_idle_since (release_plates s) = an_activity_idle_since s"
  by (simp_all add: release_plates_def)

lemma detach_activity_fields [simp]:
  "an_cameras (detach_activity s) = an_cameras s" "an_activities (detach_activity s) = an_activities s" "an_plates (detach_activity s) = an_plates s"
  "an_faces (detach_activity s) = an_faces s" "an_activity_pipeline (detach_activity s) = None"
  by (simp_all add: detach_activity_def)








lemma late_face_load_kept:
  \<comment> \<open>a face reader whose demand goes away while it loads is dropped by the engine and handed to the pipeline all the same\<close>
  assumes "an_loader s = Some (Loader_Building need)" "wn_faces need" "\<not> wn_plates need" "\<not> an_stopped s" "\<not> faces_wanted s" "an_pipeline s = Some p"
    "an_detector s \<noteq> None" "\<not> wn_detector need" "wn_held need \<noteq> None" "\<not> wn_activity need" "an_broker s \<noteq> None"
  shows "let t = warm_end cfg now need (Warm_Built d pl a (Some f)) s
    in an_faces t = None \<and> (\<exists>q. an_pipeline t = Some q \<and> dp_faces q = Some f)"
proof -
  let ?f = "note_face_demand (s\<lparr>an_faces := Some f\<rparr>)"
  have w: "faces_wanted (s\<lparr>an_faces := x\<rparr>) = faces_wanted s" for x by (simp add: faces_wanted_def)
  obtain m b where m: "wn_held need = Some m" "an_broker s = Some b" using assms(9,11) by blast
  have f4: "install_readers now need None (Some f) s = ?f" using assms(3) by (simp add: install_readers_def)
  have pf: "an_pipeline ?f = Some (p\<lparr>dp_faces := None\<rparr>)" "an_faces ?f = None" "an_broker ?f = an_broker s"
    using assms by (simp_all add: note_face_pipeline w)
  have "install_detector (Some m) None ?f = ?f\<lparr>an_detector := Some m\<rparr>" by (simp add: install_detector_def pf(1))
  then show ?thesis
    using assms(2-4,8,10) m pf by (simp add: warm_end_def Let_def f4 in_pipeline_def)
qed










end
