(* ===== verification/Spec2Isabelle.thy ===== *)
theory Spec2Isabelle
  imports Playback Detection_Pipeline Audit_Chain Coverage_Sweep Analytics_Lifecycle
begin

text \<open>
  Verification library of the Variphi VMS services (\<open>services/nvr\<close>, \<open>services/frames\<close>, \<open>services/analytics\<close>, \<open>services/smartsearch\<close>,
  \<open>services/camera-mgmt\<close>).

  \<^bold>\<open>The program.\<close> The recorder (\<open>services/nvr\<close>) runs one ffmpeg per camera and indexes the segments it writes in a SQLite table; a
  retention manager and a grooming manager delete and shrink them, an alerter watches the disk, a health monitor restarts workers, and an
  HTTP server answers playback, coverage and erasure from the same index. The frame broker decodes each camera once and shares the sampled
  frames through memory. The analytics service detects, tracks and decides which objects
  of a frame become rows. Smart Search stores those rows with the pictures they name, each with a deadline, and sweeps rows whose footage
  the recorder no longer has, which it learns from the recorder's \<open>/coverage\<close>. The management service keeps the audit trail.

  \<^bold>\<open>Where what is.\<close> Paths are under \<open>src/services\<close>.

  \<^item> \<open>Prelude\<close>: Python numbers, strings, paths, JSON numbers, the file system \<open>fs\<close>, aggregates, printing and parsing of integers, and the
    locale \<open>invariant_system\<close>, which the transition systems below interpret.
  \<^item> \<open>Segment_Index\<close> (\<open>nvr/storage/index.py\<close>): the table as a list of rows in rowid order with its AUTOINCREMENT sequence; one definition
    per method. Locale \<open>evictable_store\<close> is what eviction relies on, \<open>camera_policy\<close> what per-camera settings promise.
  \<^item> \<open>Retention\<close>, \<open>Grooming\<close>, \<open>Storage_Pressure\<close> (\<open>nvr/storage/*.py\<close>): the passes over index and disk, the emergency floor, the cleaners,
    the window, the rewrite, the alert level, the alerter and the cap.
  \<^item> \<open>Stream_Worker\<close>, \<open>Recording_Engine\<close> (\<open>nvr/recorder/*.py\<close>): one camera's worker, the ffmpeg command, names, the watcher and the
    reconciliation; the engine's operations and the recorder as one transition system over index, disk and workers.
  \<^item> \<open>Playback\<close> (\<open>nvr/api/hls.py\<close>, \<open>nvr/api/server.py\<close>): playlists and the names in them, the segment route, coverage, uptime, purge, erasure.
  \<^item> \<open>Detections\<close>, \<open>Tracking\<close>, \<open>Detection_Pipeline\<close> (\<open>analytics/analytics/{nested_boxes,best_frames,tracking,indexing_policy,pipeline}.py\<close>).
  \<^item> \<open>Activities\<close>, \<open>Activity_Rules\<close> (\<open>analytics/analytics/activities/*.py\<close>): settings, zones, schedules and the four implemented activities;
    then what each of them reports, as a function of the frames alone.
  \<^item> \<open>Activity_Engine\<close> (\<open>analytics/analytics/activities/engine.py\<close>, \<open>activity_pipeline.py\<close>): which activities a camera runs, and the pipeline that
    feeds them from the tracker of \<open>Tracking\<close> and tells them which ids it forgot.
  \<^item> \<open>Frame_Ring\<close> (\<open>frames/broker/ring.py\<close>): the shared memory between the decoder and its consumers, byte by byte, with its seqlock.
  \<^item> \<open>Frame_Broker\<close> (\<open>frames/broker/{worker,notice,engine}.py\<close>, \<open>analytics/analytics/frame_source.py\<close>): sampling, notices, rings that are
    replaced, and the subscriber.
  \<^item> \<open>Analytics_Lifecycle\<close> (\<open>analytics/analytics/engine.py\<close>): which models the service holds, when they load and when they go, over the activities of
    \<open>Activity_Engine\<close> and the subscriber of \<open>Frame_Broker\<close>.
  \<^item> \<open>Search_Store\<close>, \<open>Coverage_Sweep\<close> (\<open>smartsearch/index/{store,domains,coverage}.py\<close>): rows, deadlines, erasure, expiry, orphans, the sweep.
  \<^item> \<open>Audit_Chain\<close> (\<open>camera-mgmt/backend/services/audit.py\<close>): canonical payloads, the hash chain, the polling of Keycloak.
  \<^item> This theory: the recorder's own answer put in the place of the coverage the sweep asks for.

  \<^bold>\<open>What the lemmas show.\<close> For each component an invariant and that every operation keeps it (\<open>db_ok\<close>, \<open>sys_ok\<close>, \<open>rows_ok\<close>, \<open>ids_distinct\<close>,
  \<open>deadlines\<close>, \<open>remembers_live\<close>, \<open>race_ok\<close>, \<open>plant_ok\<close>, \<open>life_ok\<close>, \<open>kc_inv\<close>), then exact statements of what the operation does on every branch. Sequences of operations are inductive step
  relations (\<open>recorder_step\<close>, \<open>pipeline_step\<close>, \<open>pipeline_move\<close>, \<open>tracker_step\<close>, \<open>store_step\<close>, \<open>kc_step\<close>, \<open>plant_step\<close>, \<open>life_step\<close>) with invariants by rule
  induction. \<open>race_step\<close> interleaves the single stores of a writer with the single loads of a reader, and \<open>publish_runs\<close> and \<open>read_runs\<close> show
  that the sequential operations are among its runs. Optimised
  routines are compared with a set or list that says what is meant (\<open>covered_seconds_exact\<close>, \<open>select_oldest_exact\<close>, \<open>nested_boxes_exact\<close>).

  \<^bold>\<open>Bounds.\<close> The disk floor runs at most 20 passes, as in the source, and \<open>disk_floor_recovers\<close> shows that three suffice. The batch loops
  of the search index (5000 rows to restamp, 2000 to delete) are \<open>while True\<close> in the source and \<open>partial_function\<close> here; that they end is
  proved, because each batch that is not empty shortens what is left. Recursion everywhere else is structural. A ring
  has at most 256 slots where a theorem says so, as many as its control page holds; sequence words are below \<open>2^64\<close>, and beyond that \<open>publish\<close>
  raises, as \<open>struct.pack_into\<close> does.

  \<^bold>\<open>Parameters.\<close> SHA-256, Redis, Keycloak, ffmpeg and ffprobe, the clock, the outcome of each database statement, the answers of the
  file system (in \<open>fs\<close>) and the providers a manager is built with are arguments of the definitions. Floats are rationals without rounding.

  \<^bold>\<open>Not modelled.\<close> Pictures and neural networks (the motion gate, models, plates, faces, embeddings, hardware selection), vector search
  (answered by PostgreSQL), conversations with cameras and other services, HTTP routing and sessions, table declarations, configuration
  files, migrations, scripts and the web interface: their behaviour lies in libraries, devices or databases outside the repository. Within
  the modelled files: process and thread handling, log lines, health reports, clip extraction, snapshots, the HLS cache and the workbook.
\<close>

section \<open>The recorder and the search index\<close>

definition recorder_reply :: "string list \<Rightarrow> index_db \<Rightarrow> epoch \<Rightarrow> rat \<Rightarrow> string \<Rightarrow> epoch \<Rightarrow> epoch \<Rightarrow> recorder_answer" where
  \<comment> \<open>\<open>coverage_for\<close> asking the recorder's \<open>/coverage\<close>: every refusal reads as unknown\<close>
  "recorder_reply workers db now segment_duration camera lo hi =
     (case coverage_route workers db now segment_duration camera (Some lo) (Some hi) 2 of
        Inl _ \<Rightarrow> Unknown
      | Inr b \<Rightarrow> Known \<lparr>cv_earliest = ca_earliest b, cv_latest = ca_latest b, cv_gaps = ca_gaps b\<rparr>)"

lemma recorded_not_justified:
  assumes "g \<in> set (db_rows db)" "r_camera g = ir_camera r" "r_start g \<le> ir_ts r" "ir_ts r < r_end g"
  shows "\<not> justified (recorder_reply workers db nvr_now dur) now r"
proof
  assume "justified (recorder_reply workers db nvr_now dur) now r"
  then obtain lo hi cov where ask: "recorder_reply workers db nvr_now dur (ir_camera r) lo hi = Known cov"
    and un: "unrecorded cov (ir_ts r)" unfolding justified_def by blast
  obtain e l where el: "get_recording_range (ir_camera r) db = Some (e, l)" "e \<le> r_start g" "r_end g \<le> l"
    using recording_range_bounds [OF assms(1,2)] by blast
  have "coverage_gaps db (ir_camera r) (ir_camera r \<in> set workers) nvr_now dur lo hi 2 \<noteq> None"
    by (simp add: coverage_gaps_def el(1) Let_def split: prod.splits)
  then obtain gaps where gaps: "coverage_gaps db (ir_camera r) (ir_camera r \<in> set workers) nvr_now dur lo hi 2 = Some gaps" by blast
  have cov: "cov = \<lparr>cv_earliest = Some e, cv_latest = Some l, cv_gaps = gaps\<rparr>"
    using ask gaps el(1) by (auto simp: recorder_reply_def coverage_route_def split: if_splits)
  have "\<exists>(a, b) \<in> set gaps. a + edge_tolerance \<le> ir_ts r \<and> ir_ts r \<le> b - edge_tolerance"
    using un el(2,3) assms(3,4) unfolding unrecorded_def cov by (auto simp: edge_tolerance_def)
  then show False
    using coverage_gaps_sound [OF gaps _ _ _ _ assms(1,2), of _ _ "ir_ts r"] assms(3,4) by (fastforce simp: edge_tolerance_def)
qed

text \<open>
  C3. The search index keeps what the recorder keeps. When the sweep asks the recorder's own \<open>/coverage\<close>, no row of any table whose time
  lies in a segment that the recorder's index holds for its camera is ever erased, whatever the gaps around it, whether the camera is live, and
  whichever statements fail.
\<close>

theorem footage_keeps_its_rows:
  assumes "ids_distinct s" and "r \<in> set (is_rows s d)"
    and "g \<in> set (db_rows db)" "r_camera g = ir_camera r" "r_start g \<le> ir_ts r" "ir_ts r < r_end g"
  shows "\<exists>res u. purge_unrecorded (recorder_reply workers db nvr_now dur) spans_ok plan_ok answers camera dry_run force now s = Some (res, u) \<and>
    r \<in> set (is_rows u d)"
  using purge_unrecorded_thins [OF assms(1), of "recorder_reply workers db nvr_now dur" spans_ok plan_ok answers camera dry_run force now]
    recorded_not_justified [OF assms(3-6), of workers nvr_now dur now] assms(2) by blast

definition sample_index :: index_db where
  "sample_index = add_segment \<lparr>seg_camera = ''a'', seg_start = 8990, seg_duration = 20, seg_filepath = ''/v/a_1.ts'', seg_size = 7\<rparr>
     \<lparr>db_rows = [], db_seq = 0\<rparr>"

theorem footage_keeps_its_rows_witness:
  "\<exists>res u. purge_unrecorded (recorder_reply [] sample_index 100000 60) True (\<lambda>_. True) (\<lambda>_. True) None False True 100000 face_store = Some (res, u) \<and>
     sample_row 2 ''a'' 9000 \<in> set (is_rows u Person)"
proof (rule footage_keeps_its_rows [OF face_store_ids])
  show "sample_row 2 ''a'' 9000 \<in> set (is_rows face_store Person)" by (simp add: face_store_def)
  show "last (db_rows sample_index) \<in> set (db_rows sample_index)" by (simp add: sample_index_def add_segment_def Let_def)
qed (simp_all add: sample_index_def add_segment_def Let_def sample_row_def r_end_def)

lemma vanished_camera_never_swept:
  \<comment> \<open>a camera with no segment left in the recorder's index is not in \<open>get_cameras\<close>, so \<open>/coverage\<close> refuses and the sweep learns nothing: its rows stay\<close>
  assumes "ids_distinct s" "r \<in> set (is_rows s d)" "ir_camera r \<notin> r_camera ` set (db_rows db)"
  shows "\<exists>res u. purge_unrecorded (recorder_reply workers db nvr_now dur) spans_ok plan_ok answers camera dry_run force now s = Some (res, u) \<and>
    r \<in> set (is_rows u d)"
proof -
  have "\<not> justified (recorder_reply workers db nvr_now dur) now r"
    using assms(3) by (auto simp: justified_def recorder_reply_def coverage_route_def get_cameras_def)
  then show ?thesis
    using purge_unrecorded_thins [OF assms(1), of "recorder_reply workers db nvr_now dur" spans_ok plan_ok answers camera dry_run force now] assms(2) by blast
qed

end
